(* ===== verification/Prelude.thy ===== *)
theory Prelude
  imports Main "HOL-Library.Word" "HOL-Library.AList" "HOL-Library.Multiset"
begin

text \<open>
  The prelude of the development: the machine types of the Go program, the outcome of a Go
  function (a value, an error or a panic), Go maps as association lists with distinct keys
  (the locale \<open>go_map\<close> is the contract the components rely on), the big-endian coding of
  64-bit words of package \<open>encoding/binary\<close>, and reachability for step relations (the
  locale \<open>inv_system\<close> lifts a one-step invariant to every reachable state).
\<close>

unbundle bit_operations_syntax

named_theorems go_map_laws \<open>laws of Go maps\<close>
named_theorems model_defs \<open>unfolding rules of the model's small operations\<close>

section \<open>Machine types\<close>

type_synonym byte = "8 word"
type_synonym u32 = "32 word"
type_synonym u64 = "64 word"
type_synonym bytes = "byte list"
type_synonym hash = "bytes"
type_synonym preimage = "bytes"

text \<open>
  A point in time and a duration are integers: nanoseconds since the Unix epoch, and
  nanoseconds. Where the code converts to or from 64-bit seconds the wrap-around is written out.
\<close>

type_synonym time = int
type_synonym duration = int

abbreviation second :: duration where "second \<equiv> 1000000000"

section \<open>Outcomes\<close>

text \<open>
  What a Go function can do: return a value, return an error, or panic. Operations that also
  change state return a pair of an outcome and the new state, since a Go function that returns
  an error keeps the changes it made before.
\<close>

datatype ('e, 'a) outcome = Ok (val: 'a) | Err (err: 'e) | Panic (msg: string)

definition is_panic :: "('e, 'a) outcome \<Rightarrow> bool" where
  "is_panic r = (case r of Panic _ \<Rightarrow> True | _ \<Rightarrow> False)"

lemma is_panic_simps [simp]:
  "\<not> is_panic (Ok a)" "\<not> is_panic (Err e)" "is_panic (Panic m)"
  by (simp_all add: is_panic_def)

section \<open>Go maps\<close>

type_synonym ('k, 'v) gomap = "('k \<times> 'v) list"

text \<open>
  A Go map is an association list whose keys are distinct. The order of the list stands for
  the order in which a \<open>range\<close> loop visits the map, which Go leaves open: results that depend
  on the order of iteration are shown independent of it where the code relies on that.
\<close>

definition gm_get :: "('k, 'v) gomap \<Rightarrow> 'k \<Rightarrow> 'v option" where
  "gm_get m k = map_of m k"

definition gm_put :: "'k \<Rightarrow> 'v \<Rightarrow> ('k, 'v) gomap \<Rightarrow> ('k, 'v) gomap" where
  "gm_put k v m = AList.update k v m"

definition gm_del :: "'k \<Rightarrow> ('k, 'v) gomap \<Rightarrow> ('k, 'v) gomap" where
  "gm_del k m = AList.delete k m"

definition gm_keys :: "('k, 'v) gomap \<Rightarrow> 'k list" where
  "gm_keys m = map fst m"

definition gm_wf :: "('k, 'v) gomap \<Rightarrow> bool" where
  "gm_wf m = distinct (map fst m)"

lemmas gm_defs = gm_get_def gm_put_def gm_del_def gm_keys_def gm_wf_def

text \<open>The contract of a map: what a lookup returns after each operation, and the key list.\<close>

locale go_map =
  fixes empty :: "'m"
    and get :: "'m \<Rightarrow> 'k \<Rightarrow> 'v option"
    and put :: "'k \<Rightarrow> 'v \<Rightarrow> 'm \<Rightarrow> 'm"
    and del :: "'k \<Rightarrow> 'm \<Rightarrow> 'm"
    and keys :: "'m \<Rightarrow> 'k list"
    and wf :: "'m \<Rightarrow> bool"
  assumes law_empty: "get empty k = None"
    and law_put: "get (put k v m) k' = (if k' = k then Some v else get m k')"
    and law_del: "get (del k m) k' = (if k' = k then None else get m k')"
    and law_keys: "set (keys m) = {k. get m k \<noteq> None}"
    and law_wf: "wf empty" "wf m \<Longrightarrow> wf (put k v m)" "wf m \<Longrightarrow> wf (del k m)"
    and law_distinct: "wf m \<Longrightarrow> distinct (keys m)"
begin

lemma put_del_same: "get (put k v (del k m)) = get (put k v m)"
  by (rule ext) (simp add: law_put law_del)

lemma keys_put: "set (keys (put k v m)) = insert k (set (keys m))"
  by (auto simp: law_keys law_put)

lemma keys_del: "set (keys (del k m)) = set (keys m) - {k}"
  by (auto simp: law_keys law_del)

lemma keys_empty: "keys empty = []"
  using law_keys [of empty] by (simp add: law_empty)

lemma get_keys: "get m k = Some v \<Longrightarrow> k \<in> set (keys m)"
  by (simp add: law_keys)

lemma keys_get: "k \<in> set (keys m) \<Longrightarrow> \<exists>v. get m k = Some v"
  by (auto simp: law_keys)

end

interpretation gm: go_map "[]" gm_get gm_put gm_del gm_keys gm_wf
  by unfold_locales
    (auto simp: gm_defs update_conv' delete_conv' dom_map_of_conv_image_fst [symmetric] dom_def
      distinct_update distinct_delete simp flip: dom_map_of_conv_image_fst)

lemmas gm_simps [simp, go_map_laws] =
  gm.law_empty gm.law_put gm.law_del gm.keys_put gm.keys_del gm.keys_empty
  gm.law_wf gm.law_distinct

lemma gm_get_pair: "gm_wf m \<Longrightarrow> gm_get m k = Some v \<longleftrightarrow> (k, v) \<in> set m"
  by (simp add: gm_defs)

lemma gm_get_mem: "gm_get m k = Some v \<Longrightarrow> (k, v) \<in> set m"
  by (simp add: gm_get_def map_of_SomeD)

lemma gm_get_Cons [simp]: "gm_get ((k, v) # m) k' = (if k' = k then Some v else gm_get m k')"
  by (simp add: gm_get_def)

lemma gm_wf_Cons [simp]: "gm_wf ((k, v) # m) \<longleftrightarrow> k \<notin> set (gm_keys m) \<and> gm_wf m"
  by (simp add: gm_defs)

lemma gm_keys_Cons [simp]: "gm_keys ((k, v) # m) = k # gm_keys m"
  by (simp add: gm_keys_def)

lemma gm_keys_none: "k \<notin> set (gm_keys m) \<longleftrightarrow> gm_get m k = None"
  by (auto simp: gm.law_keys)

lemma gm_put_fresh: "k \<notin> set (gm_keys m) \<Longrightarrow> gm_put k v m = m @ [(k, v)]"
  by (induction m) (auto simp: gm_defs)

lemma gm_keys_put_fresh: "k \<notin> set (gm_keys m) \<Longrightarrow> gm_keys (gm_put k v m) = gm_keys m @ [k]"
  by (simp add: gm_put_fresh gm_keys_def)

lemma fold_gm_put:
  "gm_wf (xs @ m) \<Longrightarrow> fold (\<lambda>(k, v). gm_put k v) m xs = xs @ m"
proof (induction m arbitrary: xs)
  case (Cons p m)
  obtain k v where p: "p = (k, v)" by (cases p)
  from Cons.prems have "k \<notin> set (gm_keys xs)" by (auto simp: gm_defs p)
  then have "gm_put k v xs = xs @ [p]" by (simp add: gm_put_fresh p)
  then show ?case using Cons.IH [of "xs @ [p]"] Cons.prems by (simp add: p)
qed simp

lemma gm_empty_iff: "m = [] \<longleftrightarrow> (\<forall>k. gm_get m k = None)"
  by (cases m) (auto simp: gm_get_def)

section \<open>Big-endian words\<close>

text \<open>
  \<open>binary.BigEndian.PutUint64\<close> and \<open>binary.BigEndian.Uint64\<close> of the Go standard library:
  the eight shifted bytes, most significant first, and their disjunction. The callers pass
  slices of eight bytes.
\<close>

definition put_uint64 :: "u64 \<Rightarrow> bytes" where
  "put_uint64 v = map (\<lambda>i. ucast (drop_bit (56 - 8 * i) v)) [0..<8]"

definition be_uint64 :: "bytes \<Rightarrow> u64" where
  "be_uint64 b =
     ucast (b ! 7) OR push_bit 8 (ucast (b ! 6)) OR push_bit 16 (ucast (b ! 5)) OR
     push_bit 24 (ucast (b ! 4)) OR push_bit 32 (ucast (b ! 3)) OR push_bit 40 (ucast (b ! 2)) OR
     push_bit 48 (ucast (b ! 1)) OR push_bit 56 (ucast (b ! 0))"

lemma length_put_uint64 [simp]: "length (put_uint64 v) = 8"
  by (simp add: put_uint64_def)

lemma bit_shifted_byte:
  "bit (push_bit k (ucast (ucast (drop_bit k v) :: 8 word)) :: 64 word) n \<longleftrightarrow>
     k \<le> n \<and> n < 64 \<and> n < k + 8 \<and> bit v n" for v :: "64 word"
  by (auto simp: bit_simps)

lemma put_uint64_nth: "i < 8 \<Longrightarrow> put_uint64 v ! i = ucast (drop_bit (56 - 8 * i) v)"
  by (simp add: put_uint64_def)

lemma be_uint64_put [simp]: "be_uint64 (put_uint64 v) = v"
proof (rule bit_word_eqI)
  fix n assume "n < LENGTH(64)"
  then have n: "n < 64" by simp
  have 0: "bit (ucast (ucast v :: 8 word) :: 64 word) n \<longleftrightarrow> n < 8 \<and> bit v n"
    using bit_shifted_byte [of 0 v n] by auto
  have "bit (be_uint64 (put_uint64 v)) n \<longleftrightarrow>
      (n < 8 \<and> bit v n) \<or> (8 \<le> n \<and> n < 64 \<and> n < 8 + 8 \<and> bit v n) \<or>
      (16 \<le> n \<and> n < 64 \<and> n < 16 + 8 \<and> bit v n) \<or> (24 \<le> n \<and> n < 64 \<and> n < 24 + 8 \<and> bit v n) \<or>
      (32 \<le> n \<and> n < 64 \<and> n < 32 + 8 \<and> bit v n) \<or> (40 \<le> n \<and> n < 64 \<and> n < 40 + 8 \<and> bit v n) \<or>
      (48 \<le> n \<and> n < 64 \<and> n < 48 + 8 \<and> bit v n) \<or> (56 \<le> n \<and> n < 64 \<and> n < 56 + 8 \<and> bit v n)"
    unfolding be_uint64_def bit_or_iff
    by (simp add: put_uint64_nth 0, simp only: bit_shifted_byte, simp)
  with n show "bit (be_uint64 (put_uint64 v)) n = bit v n" by (cases "bit v n") (simp_all, presburger)
qed

lemma put_uint64_inject [simp]: "put_uint64 v = put_uint64 w \<longleftrightarrow> v = w"
  by (metis be_uint64_put)

section \<open>Reachable states\<close>

inductive reach :: "('s \<Rightarrow> bool) \<Rightarrow> ('s \<Rightarrow> 'e \<Rightarrow> 's \<Rightarrow> bool) \<Rightarrow> 's \<Rightarrow> bool"
  for init step where
  reach_init: "init s \<Longrightarrow> reach init step s"
| reach_step: "reach init step s \<Longrightarrow> step s e t \<Longrightarrow> reach init step t"

text \<open>An invariant: it holds initially and every step keeps it.\<close>

locale inv_system =
  fixes init :: "'s \<Rightarrow> bool" and step :: "'s \<Rightarrow> 'e \<Rightarrow> 's \<Rightarrow> bool" and inv :: "'s \<Rightarrow> bool"
  assumes inv_init: "init s \<Longrightarrow> inv s"
    and inv_step: "inv s \<Longrightarrow> step s e t \<Longrightarrow> inv t"
begin

lemma reach_inv: "reach init step s \<Longrightarrow> inv s"
  by (induction rule: reach.induct) (auto intro: inv_init inv_step)

end

text \<open>A run: the list of events of consecutive steps, the last one at the end.\<close>

inductive run :: "('s \<Rightarrow> 'e \<Rightarrow> 's \<Rightarrow> bool) \<Rightarrow> 's \<Rightarrow> 'e list \<Rightarrow> 's \<Rightarrow> bool" for step where
  run_nil: "run step s [] s"
| run_snoc: "run step s es t \<Longrightarrow> step t e u \<Longrightarrow> run step s (es @ [e]) u"

lemma run_reach: "run step s es t \<Longrightarrow> reach init step s \<Longrightarrow> reach init step t"
  by (induction rule: run.induct) (auto intro: reach_step)

lemma run_append: "run step t es' u \<Longrightarrow> run step s es t \<Longrightarrow> run step s (es @ es') u"
  by (induction rule: run.induct) (auto intro: run_snoc simp flip: append_assoc)

lemma reach_run: "reach init step t \<Longrightarrow> \<exists>s es. init s \<and> run step s es t"
  by (induction rule: reach.induct) (blast intro: run_nil run_snoc)+

text \<open>What a step may only let grow also grows along a run.\<close>

locale growing_system =
  fixes step :: "'s \<Rightarrow> 'e \<Rightarrow> 's \<Rightarrow> bool" and le :: "'s \<Rightarrow> 's \<Rightarrow> bool"
  assumes le_refl: "le s s"
    and le_trans: "le s t \<Longrightarrow> le t u \<Longrightarrow> le s u"
    and le_step: "step s e t \<Longrightarrow> le s t"
begin

lemma run_le: "run step s es t \<Longrightarrow> le s t"
  by (induction rule: run.induct) (auto intro: le_refl le_trans le_step)

end

end
