(* ===== verification/Lnmux_Types.thy ===== *)
theory Lnmux_Types
  imports Prelude
begin

text \<open>
  Packages \<open>common\<close> and \<open>types\<close> and the resolution types of the root package: public keys
  and their hexadecimal form, HTLC and circuit keys, the status values of the database, the
  resolutions the invoice registry sends and their printed outcome.
\<close>

section \<open>Hexadecimal strings (encoding/hex)\<close>

text \<open>
  \<open>hex.EncodeToString\<close> and \<open>hex.DecodeString\<close>: lower-case digits are written, both cases are
  read, an odd length or a foreign character is an error. A string is a list of bytes.
\<close>

definition hexDigit :: "nat \<Rightarrow> byte" where
  "hexDigit n = (if n < 10 then of_nat (48 + n) else of_nat (87 + n))"

definition fromHexChar :: "byte \<Rightarrow> nat option" where
  "fromHexChar c =
     (let n = unat c in
      if 48 \<le> n \<and> n \<le> 57 then Some (n - 48)
      else if 97 \<le> n \<and> n \<le> 102 then Some (n - 97 + 10)
      else if 65 \<le> n \<and> n \<le> 70 then Some (n - 65 + 10)
      else None)"

fun hexEncode :: "bytes \<Rightarrow> bytes" where
  "hexEncode [] = []"
| "hexEncode (b # bs) = hexDigit (unat b div 16) # hexDigit (unat b mod 16) # hexEncode bs"

datatype hex_error = InvalidByte byte | ErrLength

fun hexDecode :: "bytes \<Rightarrow> (hex_error, bytes) outcome" where
  "hexDecode [] = Ok []"
| "hexDecode [c] = (case fromHexChar c of None \<Rightarrow> Err (InvalidByte c) | Some _ \<Rightarrow> Err ErrLength)"
| "hexDecode (p # q # cs) =
     (case fromHexChar p of None \<Rightarrow> Err (InvalidByte p)
      | Some a \<Rightarrow> (case fromHexChar q of None \<Rightarrow> Err (InvalidByte q)
      | Some b \<Rightarrow> (case hexDecode cs of Ok bs \<Rightarrow> Ok (of_nat (16 * a + b) # bs)
                  | Err e \<Rightarrow> Err e | Panic m \<Rightarrow> Panic m)))"

lemma unat_hexDigit: "n < 16 \<Longrightarrow> unat (hexDigit n) = (if n < 10 then 48 + n else 87 + n)"
  by (simp add: hexDigit_def unat_of_nat del: of_nat_add)

lemma fromHexChar_hexDigit [simp]: "n < 16 \<Longrightarrow> fromHexChar (hexDigit n) = Some n"
  by (simp add: fromHexChar_def unat_hexDigit)

lemma unat_byte_less: "unat (b :: byte) < 256"
  using unsigned_less [of b, where ?'a = nat] by simp

lemma hexDecode_encode [simp]: "hexDecode (hexEncode bs) = Ok bs"
  using unat_byte_less by (induction bs) (simp_all add: less_mult_imp_div_less)

lemma length_hexEncode [simp]: "length (hexEncode bs) = 2 * length bs"
  by (induction bs) simp_all

lemma hexDecode_length: "hexDecode s = Ok bs \<Longrightarrow> length s = 2 * length bs"
  by (induction s arbitrary: bs rule: hexDecode.induct) (auto split: option.splits outcome.splits)

lemma hexDecode_no_panic: "hexDecode s \<noteq> Panic m"
  by (induction s rule: hexDecode.induct) (auto split: option.splits outcome.splits)

section \<open>Public keys (common/pubkey.go)\<close>

definition PubKeySize :: nat where
  "PubKeySize = 33"

type_synonym pubkey = bytes

datatype pubkey_error = InvalidPubKeyLength nat nat | InvalidPubKeyStringLength nat nat | HexError hex_error

definition NewPubKeyFromBytes :: "bytes \<Rightarrow> (pubkey_error, pubkey) outcome" where
  "NewPubKeyFromBytes b =
     (if length b \<noteq> PubKeySize then Err (InvalidPubKeyLength (length b) PubKeySize) else Ok b)"

definition NewPubKeyFromStr :: "bytes \<Rightarrow> (pubkey_error, pubkey) outcome" where
  "NewPubKeyFromStr v =
     (if length v \<noteq> PubKeySize * 2
      then Err (InvalidPubKeyStringLength (length v) (PubKeySize * 2))
      else (case hexDecode v of
              Err e \<Rightarrow> Err (HexError e)
            | Panic m \<Rightarrow> Panic m
            | Ok pubKey \<Rightarrow> NewPubKeyFromBytes pubKey))"

definition pubKeyString :: "pubkey \<Rightarrow> bytes" where
  "pubKeyString v = hexEncode v"

lemma NewPubKeyFromStr_pubKeyString: "length k = PubKeySize \<Longrightarrow> NewPubKeyFromStr (pubKeyString k) = Ok k"
  by (simp add: NewPubKeyFromStr_def NewPubKeyFromBytes_def pubKeyString_def PubKeySize_def)

text \<open>
  Printing a public key and parsing the text gives the key back; a successful parse
  always yields a key of 33 bytes, and text of any length but 66 is refused.
\<close>

lemma pubkey_string_roundtrip:
  "(length k = PubKeySize \<longrightarrow> NewPubKeyFromStr (pubKeyString k) = Ok k) \<and>
   (NewPubKeyFromStr s = Ok k' \<longrightarrow> length k' = PubKeySize \<and> length s = 66) \<and>
   (length s \<noteq> 66 \<longrightarrow> NewPubKeyFromStr s = Err (InvalidPubKeyStringLength (length s) 66))"
  by (auto simp: NewPubKeyFromStr_def NewPubKeyFromBytes_def pubKeyString_def PubKeySize_def
      split: if_splits outcome.splits)

section \<open>Keys and statuses (types/types.go)\<close>

datatype CircuitKey = CircuitKey (ckChanID: u64) (ckHtlcID: u64)

datatype HtlcKey = HtlcKey (Node: pubkey) (ChanID: u64) (HtlcID: u64)

datatype InvoiceStatus = InvoiceStatusSettleRequested | InvoiceStatusSettled | InvoiceStatusFailed

datatype HtlcStatus = HtlcStatusSettleRequested | HtlcStatusSettled | HtlcStatusFailed

fun IsFinal :: "InvoiceStatus \<Rightarrow> bool" where
  "IsFinal s = (s = InvoiceStatusSettled \<or> s = InvoiceStatusFailed)"

record InvoiceCreationData =
  PaymentPreimage :: preimage
  Value :: u64
  PaymentAddr :: bytes

section \<open>Resolutions (resolution.go, resolution\_result.go)\<close>

datatype FailResolutionResult =
    ResultInvalidFailure | ResultExpiryTooSoon | ResultInvoiceNotOpen | ResultMppTimeout
  | ResultAddressMismatch | ResultHtlcSetTotalMismatch | ResultHtlcSetTotalTooLow
  | ResultHtlcSetOverpayment | ResultInvoiceNotFound | ResultHtlcInvoiceTypeMismatch
  | ResultCannotSettle | ResultInvoiceExpired | ResultNoAcceptSubscriber | ResultAcceptTimeout

datatype SettleResolutionResult = ResultInvalidSettle | ResultSettled | ResultReplayToSettled

datatype HtlcResolution =
    HtlcFailResolution FailResolutionResult
  | HtlcSettleResolution preimage SettleResolutionResult

definition NewFailResolution :: "FailResolutionResult \<Rightarrow> HtlcResolution" where
  [model_defs, simp]: "NewFailResolution outcome = HtlcFailResolution outcome"

definition NewSettleResolution :: "preimage \<Rightarrow> SettleResolutionResult \<Rightarrow> HtlcResolution" where
  [model_defs, simp]: "NewSettleResolution p outcome = HtlcSettleResolution p outcome"

fun FailureString :: "FailResolutionResult \<Rightarrow> string" where
  "FailureString ResultInvalidFailure = ''invalid failure result''"
| "FailureString ResultExpiryTooSoon = ''expiry too soon''"
| "FailureString ResultInvoiceNotOpen = ''invoice no longer open''"
| "FailureString ResultMppTimeout = ''mpp timeout''"
| "FailureString ResultAddressMismatch = ''payment address mismatch''"
| "FailureString ResultHtlcSetTotalMismatch = ''htlc total amt doesn't match set total''"
| "FailureString ResultHtlcSetTotalTooLow = ''set total too low for invoice''"
| "FailureString ResultHtlcSetOverpayment = ''mpp is overpaying set total''"
| "FailureString ResultInvoiceNotFound = ''invoice not found''"
| "FailureString ResultHtlcInvoiceTypeMismatch = ''htlc invoice type mismatch''"
| "FailureString ResultCannotSettle = ''cannot settle''"
| "FailureString ResultInvoiceExpired = ''invoice expired''"
| "FailureString ResultNoAcceptSubscriber = ''no accept subscriber''"
| "FailureString ResultAcceptTimeout = ''accept timeout''"

fun SettleString :: "SettleResolutionResult \<Rightarrow> string" where
  "SettleString ResultInvalidSettle = ''invalid settle result''"
| "SettleString ResultSettled = ''settled''"
| "SettleString ResultReplayToSettled = ''replayed htlc to settled invoice''"

end
