(* ===== verification/Set_ID.thy ===== *)
theory Set_ID
  imports Lnmux_Types
begin

text \<open>
  \<open>set_id.go\<close>: the identifier of a set of HTLCs, a hash over the sorted circuit keys. The
  comparison closure of the source is the order of the type class \<open>linorder\<close> on HTLC keys, so
  that sorting is the library's \<open>sort\<close>. The hash function (SHA-256) is an argument.
\<close>

section \<open>The order of HTLC keys\<close>

text \<open>\<open>bytes.Compare\<close> of the Go standard library.\<close>

fun bytesCompare :: "bytes \<Rightarrow> bytes \<Rightarrow> int" where
  "bytesCompare [] [] = 0"
| "bytesCompare [] (b # bs) = - 1"
| "bytesCompare (a # as) [] = 1"
| "bytesCompare (a # as) (b # bs) = (if a < b then - 1 else if b < a then 1 else bytesCompare as bs)"

definition keyLess :: "HtlcKey \<Rightarrow> HtlcKey \<Rightarrow> bool" where
  "keyLess a b =
     (if Node a \<noteq> Node b then bytesCompare (Node a) (Node b) = - 1
      else if ChanID a \<noteq> ChanID b then ChanID a < ChanID b
      else HtlcID a < HtlcID b)"

lemma bytesCompare_refl [simp]: "bytesCompare a a = 0"
  by (induction a) simp_all

lemma bytesCompare_range: "bytesCompare a b \<in> {- 1, 0, 1}"
  by (induction a b rule: bytesCompare.induct) auto

lemma bytesCompare_eq: "bytesCompare a b = 0 \<longleftrightarrow> a = b"
  by (induction a b rule: bytesCompare.induct) auto

lemma bytesCompare_swap: "bytesCompare a b = - bytesCompare b a"
  by (induction a b rule: bytesCompare.induct) auto

lemma bytesCompare_trans:
  "bytesCompare a b = - 1 \<Longrightarrow> bytesCompare b c = - 1 \<Longrightarrow> bytesCompare a c = - 1"
proof (induction a b arbitrary: c rule: bytesCompare.induct)
  case (2 b bs)
  then show ?case by (cases c) auto
next
  case (4 a as b bs)
  then show ?case by (cases c) (auto split: if_splits)
qed auto

lemma keyLess_irrefl: "\<not> keyLess a a"
  by (simp add: keyLess_def)

lemma keyLess_trans:
  assumes "keyLess a b" and "keyLess b c"
  shows "keyLess a c"
proof (cases "Node a = Node b \<or> Node b = Node c")
  case True
  with assms show ?thesis by (auto simp: keyLess_def split: if_splits)
next
  case False
  with assms have "bytesCompare (Node a) (Node c) = - 1"
    using bytesCompare_trans by (auto simp: keyLess_def)
  moreover from this have "Node a \<noteq> Node c" by auto
  ultimately show ?thesis by (simp add: keyLess_def)
qed

lemma keyLess_linear: "keyLess a b \<or> a = b \<or> keyLess b a"
  using bytesCompare_range [of "Node a" "Node b"] bytesCompare_eq [of "Node a" "Node b"]
    bytesCompare_swap [of "Node a" "Node b"]
  by (cases a; cases b) (auto simp: keyLess_def)

instantiation HtlcKey :: linorder
begin

definition less_HtlcKey :: "HtlcKey \<Rightarrow> HtlcKey \<Rightarrow> bool" where
  "less_HtlcKey a b = keyLess a b"

definition less_eq_HtlcKey :: "HtlcKey \<Rightarrow> HtlcKey \<Rightarrow> bool" where
  "less_eq_HtlcKey a b = (a = b \<or> keyLess a b)"

instance
proof
  fix x y z :: HtlcKey
  show "x < y \<longleftrightarrow> x \<le> y \<and> \<not> y \<le> x"
    using keyLess_irrefl keyLess_trans by (auto simp: less_HtlcKey_def less_eq_HtlcKey_def)
  show "x \<le> x" by (simp add: less_eq_HtlcKey_def)
  show "x \<le> y \<Longrightarrow> y \<le> z \<Longrightarrow> x \<le> z"
    using keyLess_trans by (auto simp: less_eq_HtlcKey_def)
  show "x \<le> y \<Longrightarrow> y \<le> x \<Longrightarrow> x = y"
    using keyLess_irrefl keyLess_trans by (auto simp: less_eq_HtlcKey_def)
  show "x \<le> y \<or> y \<le> x"
    using keyLess_linear by (auto simp: less_eq_HtlcKey_def)
qed

end

section \<open>newSetID\<close>

definition keyBytes :: "HtlcKey \<Rightarrow> bytes" where
  "keyBytes key = Node key @ put_uint64 (ChanID key) @ put_uint64 (HtlcID key)"

definition newSetID :: "(bytes \<Rightarrow> bytes) \<Rightarrow> HtlcKey list \<Rightarrow> bytes" where
  "newSetID sha256 keys = sha256 (concat (map keyBytes (sort keys)))"

definition wf_key :: "HtlcKey \<Rightarrow> bool" where
  "wf_key k = (length (Node k) = PubKeySize)"

text \<open>
  \<open>sort.Slice\<close> is not a stable sort and promises only a sorted permutation. The order is
  total, so there is only one, and the library's \<open>sort\<close> is it.
\<close>

lemma sorted_permutation_unique:
  assumes "mset ys = mset keys" and "sorted_wrt (\<lambda>a b. \<not> keyLess b a) ys"
  shows "ys = sort (keys :: HtlcKey list)"
proof -
  have "sorted ys"
    using assms(2) by (simp add: less_HtlcKey_def [symmetric] not_less)
  with assms(1) show ?thesis
    by (metis properties_for_sort)
qed

lemma keyBytes_inject:
  assumes "wf_key a" and "wf_key b"
  shows "keyBytes a @ xs = keyBytes b @ ys \<longleftrightarrow> a = b \<and> xs = ys"
  using assms by (cases a; cases b) (auto simp: keyBytes_def wf_key_def)

lemma concat_keyBytes_inject:
  "\<forall>k \<in> set xs \<union> set ys. wf_key k \<Longrightarrow>
     concat (map keyBytes xs) = concat (map keyBytes ys) \<longleftrightarrow> xs = ys"
proof (induction xs arbitrary: ys)
  case Nil
  then show ?case by (cases ys) (auto simp: keyBytes_def wf_key_def PubKeySize_def)
next
  case (Cons x xs)
  then show ?case
    by (cases ys) (auto simp: keyBytes_inject, simp add: keyBytes_def wf_key_def PubKeySize_def)
qed

definition setEncoding :: "HtlcKey list \<Rightarrow> bytes" where
  "setEncoding keys = concat (map keyBytes (sort keys))"

lemma newSetID_mset: "mset xs = mset ys \<Longrightarrow> newSetID sha256 xs = newSetID sha256 ys"
  using properties_for_sort [of "sort ys" xs] by (simp add: newSetID_def)

lemma setEncoding_eq:
  assumes "\<forall>k \<in> set xs \<union> set ys. wf_key k"
  shows "setEncoding xs = setEncoding ys \<longleftrightarrow> mset xs = mset ys"
proof -
  have "setEncoding xs = setEncoding ys \<longleftrightarrow> sort xs = sort ys"
    using assms by (simp add: setEncoding_def concat_keyBytes_inject)
  also have "\<dots> \<longleftrightarrow> mset xs = mset ys"
    using properties_for_sort [of "sort ys" xs] by (metis mset_sort sorted_sort)
  finally show ?thesis .
qed

text \<open>
  C36: the set id does not depend on the order of the keys, and two key sets of 33-byte nodes
  have the same id only if they are the same set, or the two byte strings that were hashed are a
  collision of the hash function.
\<close>

theorem newSetID_identifies:
  assumes "\<forall>k \<in> set xs \<union> set ys. wf_key k"
  shows "newSetID sha256 xs = newSetID sha256 ys \<longleftrightarrow>
    mset xs = mset ys \<or>
    setEncoding xs \<noteq> setEncoding ys \<and> sha256 (setEncoding xs) = sha256 (setEncoding ys)"
  using setEncoding_eq [OF assms] newSetID_mset [of xs ys sha256]
  by (auto simp: newSetID_def setEncoding_def)

theorem newSetID_identifies_witness:
  "newSetID (\<lambda>b. b) [HtlcKey (replicate 33 1) 1 3] \<noteq> newSetID (\<lambda>b. b) [HtlcKey (replicate 33 2) 1 3]"
  using newSetID_identifies [of "[HtlcKey (replicate 33 1) 1 3]" "[HtlcKey (replicate 33 2) 1 3]" "\<lambda>b. b"]
  by (simp add: wf_key_def PubKeySize_def)

end
