(* ===== verification/Stateless_Data.thy ===== *)
theory Stateless_Data
  imports Lnmux_Types
begin

text \<open>
  \<open>stateless_data.go\<close>: the payment address carries the expiry and the amount of an invoice,
  and the HMAC of the address under the node's private key is the payment preimage. Also here:
  the record of the cryptographic functions the program calls (\<open>crypto/hmac\<close> and
  \<open>crypto/sha256\<close> of Go, \<open>lntypes\<close> of lnd), which the operations take as an argument, and the
  conversions between times and 64-bit Unix seconds.
\<close>

section \<open>Functions of other packages\<close>

record crypto =
  sha256 :: "bytes \<Rightarrow> bytes"
  hmac :: "bytes \<Rightarrow> bytes \<Rightarrow> bytes"
  preimageHash :: "preimage \<Rightarrow> hash"
  makePreimage :: "bytes \<Rightarrow> preimage option"
  makeHash :: "bytes \<Rightarrow> hash option"

text \<open>
  What the program relies on: digests have 32 bytes, \<open>lntypes.MakePreimage\<close> and
  \<open>lntypes.MakeHash\<close> accept exactly 32 bytes, and the hash of a preimage is its SHA-256 digest.
\<close>

locale crypto_laws =
  fixes cr :: crypto
  assumes sha256_length: "length (sha256 cr b) = 32"
    and hmac_length: "length (hmac cr k b) = 32"
    and preimageHash_sha256: "preimageHash cr p = sha256 cr p"
    and makePreimage_iff: "makePreimage cr b = (if length b = 32 then Some b else None)"
    and makeHash_iff: "makeHash cr b = (if length b = 32 then Some b else None)"
begin

lemma makePreimage_hmac: "makePreimage cr (hmac cr k b) = Some (hmac cr k b)"
  by (simp add: makePreimage_iff hmac_length)

lemma preimageHash_length: "length (preimageHash cr p) = 32"
  by (simp add: preimageHash_sha256 sha256_length)

end

section \<open>Times\<close>

text \<open>
  Package \<open>time\<close> keeps 64-bit seconds since year 1 and adds the offset to the Unix epoch with
  wrap-around: \<open>time.Unix(s, 0)\<close> and \<open>Time.Unix()\<close>.
\<close>

definition unixToInternal :: int where
  "unixToInternal = 62135596800"

definition timeUnix :: "u64 \<Rightarrow> time" where
  "timeUnix s = (sint (s + word_of_int unixToInternal) - unixToInternal) * second"

definition unixOf :: "time \<Rightarrow> u64" where
  "unixOf t = word_of_int (t div second)"

definition time_ok :: "time \<Rightarrow> bool" where
  "time_ok t = (- (2 ^ 63) \<le> t div second + unixToInternal \<and> t div second + unixToInternal < 2 ^ 63)"

lemma sint_of_int_u64: "- (2 ^ 63) \<le> i \<Longrightarrow> i < 2 ^ 63 \<Longrightarrow> sint (word_of_int i :: u64) = i"
  by (simp add: sint_sbintrunc' signed_take_bit_int_eq_self)

lemma sint_small:
  fixes k :: u64
  assumes "unat k < 2 ^ 63"
  shows "sint k = int (unat k)"
proof -
  have "int (unat k) < 2 ^ 63" using assms by (metis of_nat_less_iff of_nat_numeral of_nat_power)
  moreover have "- (2 ^ 63) \<le> int (unat k)" by (rule order_trans [of _ 0]) simp_all
  ultimately have "sint (word_of_int (int (unat k)) :: u64) = int (unat k)" by (rule sint_of_int_u64 [rotated])
  then show ?thesis by simp
qed

lemma sint_nonneg_bound:
  fixes k :: u64
  assumes "0 \<le> sint k"
  shows "unat k < 2 ^ 63"
proof (rule ccontr)
  assume a: "\<not> unat k < 2 ^ 63"
  define i where "i = int (unat k) - 2 ^ 64"
  have lt: "int (unat k) < 2 ^ 64" using uint_lt2p [of k] by simp
  have ge: "2 ^ 63 \<le> int (unat k)" using a by (metis not_less of_nat_le_iff of_nat_numeral of_nat_power)
  have neg: "i < 0" using lt unfolding i_def by linarith
  have "- (2 ^ 63) \<le> i" using ge unfolding i_def by simp
  moreover have "word_of_int i = k" unfolding i_def by simp
  ultimately have "sint k = i" using sint_of_int_u64 [of i] neg by simp
  with neg assms show False by simp
qed

lemma timeUnix_unixOf: "time_ok t \<Longrightarrow> timeUnix (unixOf t) = (t div second) * second"
  by (simp add: timeUnix_def unixOf_def time_ok_def sint_of_int_u64 flip: of_int_add)

section \<open>Encoding and decoding\<close>

datatype stateless_error = ErrRandom | ErrMakePreimage

record statelessData =
  sdAmtMsat :: u64
  sdExpiry :: time
  sdPreimage :: preimage

text \<open>\<open>rnd\<close> is what \<open>rand.Read\<close> put into the first 16 bytes, \<open>None\<close> for an error.\<close>

definition encodeStatelessData ::
    "crypto \<Rightarrow> bytes option \<Rightarrow> bytes \<Rightarrow> u64 \<Rightarrow> time \<Rightarrow> (stateless_error, bytes \<times> preimage) outcome" where
  "encodeStatelessData cr rnd privKey amtMsat expiry =
     (case rnd of
        None \<Rightarrow> Err ErrRandom
      | Some r \<Rightarrow>
          let addr = r @ put_uint64 (unixOf expiry) @ put_uint64 amtMsat;
              preimageBytes = hmac cr privKey addr
          in case makePreimage cr preimageBytes of
               None \<Rightarrow> Err ErrMakePreimage
             | Some paymentPreimage \<Rightarrow> Ok (addr, paymentPreimage))"

definition slice :: "nat \<Rightarrow> nat \<Rightarrow> bytes \<Rightarrow> bytes" where
  "slice i j b = take (j - i) (drop i b)"

definition decodeStatelessData ::
    "crypto \<Rightarrow> bytes \<Rightarrow> bytes \<Rightarrow> (stateless_error, statelessData) outcome" where
  "decodeStatelessData cr privKey paymentAddr =
     (case makePreimage cr (hmac cr privKey paymentAddr) of
        None \<Rightarrow> Err ErrMakePreimage
      | Some paymentPreimage \<Rightarrow>
          let expiry = timeUnix (be_uint64 (slice 16 24 paymentAddr));
              amtMsat = be_uint64 (slice 24 32 paymentAddr)
          in Ok \<lparr>sdAmtMsat = amtMsat, sdExpiry = expiry, sdPreimage = paymentPreimage\<rparr>)"

lemma slice_expiry:
  "length r = 16 \<Longrightarrow> slice 16 24 (r @ put_uint64 e @ put_uint64 a) = put_uint64 e"
  by (simp add: slice_def)

lemma slice_amount:
  "length r = 16 \<Longrightarrow> slice 24 32 (r @ put_uint64 e @ put_uint64 a) = put_uint64 a"
  by (simp add: slice_def)

context crypto_laws begin

lemma encode_ok:
  "encodeStatelessData cr (Some r) k amt e =
     (let addr = r @ put_uint64 (unixOf e) @ put_uint64 amt in Ok (addr, hmac cr k addr))"
  by (simp add: encodeStatelessData_def makePreimage_hmac Let_def)

lemma decode_ok:
  "decodeStatelessData cr k addr =
     Ok \<lparr>sdAmtMsat = be_uint64 (slice 24 32 addr),
         sdExpiry = timeUnix (be_uint64 (slice 16 24 addr)), sdPreimage = hmac cr k addr\<rparr>"
  by (simp add: decodeStatelessData_def makePreimage_hmac)

lemma decode_encode:
  assumes "length r = 16" and "time_ok e"
    and "encodeStatelessData cr (Some r) k amt e = Ok (addr, p)"
  shows "length addr = 32 \<and> decodeStatelessData cr k addr =
    Ok \<lparr>sdAmtMsat = amt, sdExpiry = (e div second) * second, sdPreimage = p\<rparr>"
  using assms by (auto simp: encode_ok decode_ok slice_expiry slice_amount timeUnix_unixOf Let_def)

end

end
