(* ===== verification/Htlc_Sets.thy ===== *)
theory Htlc_Sets
  imports Set_ID Stateless_Data
begin

text \<open>
  \<open>htlc_set.go\<close> and \<open>htlc_sets.go\<close>: the HTLCs that were accepted in memory, grouped by
  invoice. A set object of the source lives in its parent's map under the hash of its preimage;
  here an operation on a set returns the changed set and its caller stores it where the object
  lives. Amounts are 64-bit words, so totals wrap around as \<open>int64\<close> does.
\<close>

section \<open>One set of HTLCs\<close>

record htlcSetParameters =
  setPreimage :: preimage
  setValue :: u64
  setPaymentAddr :: bytes

record htlcSetImpl =
  params :: htlcSetParameters
  htlcs :: "(HtlcKey, u64) gomap"

definition newHtlcSetImpl :: "htlcSetParameters \<Rightarrow> htlcSetImpl" where
  "newHtlcSetImpl p = \<lparr>params = p, htlcs = []\<rparr>"

definition totalSetAmt :: "htlcSetImpl \<Rightarrow> u64" where
  "totalSetAmt h = sum_list (map snd (htlcs h))"

definition isComplete :: "crypto \<Rightarrow> htlcSetImpl \<Rightarrow> bytes option" where
  "isComplete cr h =
     (if totalSetAmt h \<noteq> setValue (params h) then None
      else Some (newSetID (sha256 cr) (gm_keys (htlcs h))))"

definition setHash :: "crypto \<Rightarrow> htlcSetImpl \<Rightarrow> hash" where
  "setHash cr h = preimageHash cr (setPreimage (params h))"

definition getHtlcMap :: "htlcSetImpl \<Rightarrow> (HtlcKey, u64) gomap" where
  "getHtlcMap h = fold (\<lambda>(key, amt) m. gm_put key amt m) (htlcs h) []"

definition accepted :: "htlcSetImpl \<Rightarrow> HtlcKey \<Rightarrow> bool" where
  "accepted h key = (gm_get (htlcs h) key \<noteq> None)"

definition addHtlc :: "HtlcKey \<Rightarrow> u64 \<Rightarrow> htlcSetImpl \<Rightarrow> (unit, htlcSetImpl) outcome" where
  "addHtlc key amt h =
     (if gm_get (htlcs h) key \<noteq> None then Panic ''htlc already exists''
      else Ok (h\<lparr>htlcs := gm_put key amt (htlcs h)\<rparr>))"

section \<open>The sets\<close>

type_synonym htlcSetsImpl = "(hash, htlcSetImpl) gomap"

definition newHtlcSets :: htlcSetsImpl where
  "newHtlcSets = []"

definition setsGet :: "htlcSetsImpl \<Rightarrow> hash \<Rightarrow> htlcSetImpl option" where
  "setsGet h hash = gm_get h hash"

definition setsAdd ::
    "crypto \<Rightarrow> htlcSetParameters \<Rightarrow> HtlcKey \<Rightarrow> u64 \<Rightarrow> htlcSetsImpl \<Rightarrow> (unit, htlcSetsImpl \<times> htlcSetImpl) outcome" where
  "setsAdd cr ps htlcKey htlcAmt h =
     (let hash = preimageHash cr (setPreimage ps) in
      if gm_get h hash \<noteq> None then Panic ''set already exists''
      else case addHtlc htlcKey htlcAmt (newHtlcSetImpl ps) of
             Ok htlcSet \<Rightarrow> Ok (gm_put hash htlcSet h, htlcSet)
           | Err e \<Rightarrow> Err e
           | Panic m \<Rightarrow> Panic m)"

definition setsForEach :: "(htlcSetImpl \<Rightarrow> 'w \<Rightarrow> 'w) \<Rightarrow> htlcSetsImpl \<Rightarrow> 'w \<Rightarrow> 'w" where
  "setsForEach cb h w = fold (\<lambda>(_, st). cb st) h w"

definition setsDelete :: "hash \<Rightarrow> htlcSetsImpl \<Rightarrow> (unit, htlcSetsImpl) outcome" where
  "setsDelete hash h =
     (if gm_get h hash = None then Panic ''set not found'' else Ok (gm_del hash h))"

text \<open>
  \<open>deleteAll\<close> calls back for every HTLC and then removes the set from its parent.
  \<open>deleteHtlc\<close> removes one HTLC, and the set with the last one; \<open>at\<close> is where the set lives in
  its parent's map.
\<close>

definition deleteAll ::
    "crypto \<Rightarrow> htlcSetImpl \<Rightarrow> (HtlcKey \<Rightarrow> 'w \<Rightarrow> 'w) \<Rightarrow> 'w \<Rightarrow> htlcSetsImpl \<Rightarrow> 'w \<times> (unit, htlcSetsImpl) outcome" where
  "deleteAll cr h cb w parent =
     (fold cb (gm_keys (htlcs h)) w, setsDelete (setHash cr h) parent)"

definition deleteHtlc ::
    "crypto \<Rightarrow> hash \<Rightarrow> htlcSetImpl \<Rightarrow> HtlcKey \<Rightarrow> htlcSetsImpl \<Rightarrow> (unit, htlcSetsImpl) outcome" where
  "deleteHtlc cr at h key parent =
     (if gm_get (htlcs h) key = None then Panic ''htlc not found''
      else let h' = h\<lparr>htlcs := gm_del key (htlcs h)\<rparr>;
               parent' = gm_put at h' parent
           in if htlcs h' = [] then setsDelete (setHash cr h') parent' else Ok parent')"

section \<open>Well-formed sets\<close>

text \<open>
  The invariant of the in-memory sets: every set is stored under the hash of its preimage, its
  keys are distinct, and it is never empty.
\<close>

definition wf_set :: "crypto \<Rightarrow> hash \<Rightarrow> htlcSetImpl \<Rightarrow> bool" where
  "wf_set cr hash h = (setHash cr h = hash \<and> gm_wf (htlcs h) \<and> htlcs h \<noteq> [])"

definition wf_sets :: "crypto \<Rightarrow> htlcSetsImpl \<Rightarrow> bool" where
  "wf_sets cr sts = (gm_wf sts \<and> (\<forall>hash h. gm_get sts hash = Some h \<longrightarrow> wf_set cr hash h))"

lemma wf_setsD [dest]:
  "wf_sets cr sts \<Longrightarrow> gm_get sts hash = Some h \<Longrightarrow> wf_set cr hash h"
  by (simp add: wf_sets_def)

lemma wf_sets_empty [simp]: "wf_sets cr []"
  by (simp add: wf_sets_def)

lemma wf_sets_put [simp]: "wf_sets cr sts \<Longrightarrow> wf_set cr hash h \<Longrightarrow> wf_sets cr (gm_put hash h sts)"
  by (auto simp: wf_sets_def)

lemma wf_sets_del [simp]: "wf_sets cr sts \<Longrightarrow> wf_sets cr (gm_del hash sts)"
  by (auto simp: wf_sets_def)

lemma gm_put_not_Nil [simp]: "gm_put k v m \<noteq> []"
  by (metis gm.law_empty gm.law_put option.distinct(1))

lemma wf_set_add:
  "wf_set cr hash h \<Longrightarrow> addHtlc key amt h = Ok h' \<Longrightarrow> wf_set cr hash h'"
  by (auto simp: wf_set_def addHtlc_def setHash_def split: if_splits)

lemma addHtlc_new: "addHtlc key amt (newHtlcSetImpl p) = Ok \<lparr>params = p, htlcs = [(key, amt)]\<rparr>"
  by (simp add: addHtlc_def newHtlcSetImpl_def gm_put_def)

lemma sum_list_gm_put:
  "gm_get m k = None \<Longrightarrow> sum_list (map snd (gm_put k (a :: 'a :: comm_monoid_add) m)) = sum_list (map snd m) + a"
  by (simp add: gm_put_fresh gm_keys_none)

lemma totalSetAmt_add:
  "addHtlc key amt h = Ok h' \<Longrightarrow> totalSetAmt h' = totalSetAmt h + amt"
  by (auto simp: addHtlc_def totalSetAmt_def sum_list_gm_put split: if_splits)

lemma addHtlc_params: "addHtlc key amt h = Ok h' \<Longrightarrow> params h' = params h"
  by (auto simp: addHtlc_def split: if_splits)

lemma addHtlc_keys:
  "addHtlc key amt h = Ok h' \<Longrightarrow> set (gm_keys (htlcs h')) = insert key (set (gm_keys (htlcs h)))"
  by (auto simp: addHtlc_def split: if_splits)

lemma getHtlcMap_eq: "gm_wf (htlcs h) \<Longrightarrow> getHtlcMap h = htlcs h"
  using fold_gm_put [of "[]" "htlcs h"] by (simp add: getHtlcMap_def case_prod_eta split_def)

section \<open>The interface \<open>htlcSets\<close>\<close>

text \<open>
  What the registry relies on when it uses the sets: an abstract map from hashes to the
  parameters of an invoice and its accepted HTLCs.
\<close>

locale htlc_sets =
  fixes empty :: "'s"
    and get :: "'s \<Rightarrow> hash \<Rightarrow> htlcSetImpl option"
    and add :: "htlcSetParameters \<Rightarrow> HtlcKey \<Rightarrow> u64 \<Rightarrow> 's \<Rightarrow> (unit, 's \<times> htlcSetImpl) outcome"
    and delete :: "hash \<Rightarrow> 's \<Rightarrow> (unit, 's) outcome"
    and hashOf :: "htlcSetParameters \<Rightarrow> hash"
  assumes get_empty: "get empty hash = None"
    and add_fresh: "get s (hashOf p) = None \<Longrightarrow>
      \<exists>s'. add p k a s = Ok (s', \<lparr>params = p, htlcs = [(k, a)]\<rparr>) \<and>
        get s' = (get s)(hashOf p \<mapsto> \<lparr>params = p, htlcs = [(k, a)]\<rparr>)"
    and add_existing: "get s (hashOf p) \<noteq> None \<Longrightarrow> is_panic (add p k a s)"
    and delete_existing: "get s hash \<noteq> None \<Longrightarrow> \<exists>s'. delete hash s = Ok s' \<and> get s' = (get s)(hash := None)"
    and delete_missing: "get s hash = None \<Longrightarrow> is_panic (delete hash s)"
begin

lemma add_panic_iff: "is_panic (add p k a s) \<longleftrightarrow> get s (hashOf p) \<noteq> None"
  using add_fresh add_existing by (metis is_panic_simps(1))

lemma delete_panic_iff: "is_panic (delete hash s) \<longleftrightarrow> get s hash = None"
  using delete_existing delete_missing by (metis is_panic_simps(1))

text \<open>Removing the set that was just added leaves what was there before.\<close>

lemma add_delete:
  assumes "get s (hashOf p) = None" and "add p k a s = Ok (s', h)"
  shows "\<exists>s''. delete (hashOf p) s' = Ok s'' \<and> get s'' = get s"
proof -
  from add_fresh [OF assms(1), of k a] assms(2)
  have g: "get s' = (get s)(hashOf p \<mapsto> \<lparr>params = p, htlcs = [(k, a)]\<rparr>)" by auto
  then obtain s'' where "delete (hashOf p) s' = Ok s''" "get s'' = (get s')(hashOf p := None)"
    using delete_existing [of s' "hashOf p"] by auto
  with g assms(1) show ?thesis by auto
qed

end

interpretation sets_impl: htlc_sets newHtlcSets setsGet "setsAdd cr" setsDelete
    "\<lambda>p. preimageHash cr (setPreimage p)" for cr
  by unfold_locales
    (auto simp: newHtlcSets_def setsGet_def setsAdd_def setsDelete_def addHtlc_new Let_def fun_eq_iff)

section \<open>Order of iteration\<close>

text \<open>
  The total, the completeness of a set and its id do not depend on the order in which the map is
  visited.
\<close>

lemma isComplete_mset:
  assumes "mset (htlcs h) = mset (htlcs h')" and "params h = params h'"
  shows "totalSetAmt h = totalSetAmt h' \<and> isComplete cr h = isComplete cr h'"
proof -
  have "mset (map snd (htlcs h)) = mset (map snd (htlcs h'))"
    and keys: "mset (gm_keys (htlcs h)) = mset (gm_keys (htlcs h'))"
    using assms(1) by (simp_all add: gm_keys_def)
  then have "totalSetAmt h = totalSetAmt h'"
    by (simp add: totalSetAmt_def flip: sum_mset_sum_list)
  with newSetID_mset [OF keys] assms(2) show ?thesis
    by (simp add: isComplete_def)
qed

end
