(* ===== verification/Release_Queue.thy ===== *)
theory Release_Queue
  imports Lnmux_Types
begin

text \<open>
  \<open>release_event.go\<close> and the priority queue of release events. The queue is
  \<open>queue.PriorityQueue\<close> of lnd, outside this repository: its operations are a record that the
  registry takes as an argument, and the locale \<open>priority_queue\<close> states its documented
  behaviour. The instance is the binary heap of Go's \<open>container/heap\<close>, verified here.
\<close>

section \<open>Release events\<close>

datatype releaseEvent =
    HtlcReleaseEvent (evHash: hash) (evReleaseTime: time) (evKey: HtlcKey)
  | AcceptTimeoutEvent (evHash: hash) (evReleaseTime: time)

definition getReleaseTime :: "releaseEvent \<Rightarrow> time" where
  [model_defs]: "getReleaseTime e = evReleaseTime e"

definition eventLess :: "releaseEvent \<Rightarrow> releaseEvent \<Rightarrow> bool" where
  "eventLess r other = (getReleaseTime r < getReleaseTime other)"

section \<open>The priority queue\<close>

record 'q pqOps =
  pqEmpty :: 'q
  pqPush :: "releaseEvent \<Rightarrow> 'q \<Rightarrow> 'q"
  pqPop :: "'q \<Rightarrow> releaseEvent \<times> 'q"
  pqTop :: "'q \<Rightarrow> releaseEvent"
  pqLen :: "'q \<Rightarrow> nat"

locale priority_queue =
  fixes pq :: "'q pqOps" and elems :: "'q \<Rightarrow> releaseEvent multiset" and pqInv :: "'q \<Rightarrow> bool"
  assumes elems_empty: "elems (pqEmpty pq) = {#}"
    and inv_empty: "pqInv (pqEmpty pq)"
    and elems_push: "pqInv q \<Longrightarrow> elems (pqPush pq e q) = add_mset e (elems q)"
    and inv_push: "pqInv q \<Longrightarrow> pqInv (pqPush pq e q)"
    and len_elems: "pqInv q \<Longrightarrow> pqLen pq q = size (elems q)"
    and top_min: "pqInv q \<Longrightarrow> e \<in># elems q \<Longrightarrow> \<not> eventLess e (pqTop pq q)"
    and pop_top: "pqInv q \<Longrightarrow> elems q \<noteq> {#} \<Longrightarrow> fst (pqPop pq q) = pqTop pq q"
    and pop_elems: "pqInv q \<Longrightarrow> elems q \<noteq> {#} \<Longrightarrow> elems q = add_mset (pqTop pq q) (elems (snd (pqPop pq q)))"
    and inv_pop: "pqInv q \<Longrightarrow> elems q \<noteq> {#} \<Longrightarrow> pqInv (snd (pqPop pq q))"
begin

lemma len_pos: "pqInv q \<Longrightarrow> 0 < pqLen pq q \<longleftrightarrow> elems q \<noteq> {#}"
  by (simp add: len_elems nonempty_has_size)

lemma top_member: "pqInv q \<Longrightarrow> elems q \<noteq> {#} \<Longrightarrow> pqTop pq q \<in># elems q"
  using pop_elems [of q] by (metis union_single_eq_member)

text \<open>The event a release tick handles is one of the earliest that are scheduled.\<close>

lemma pop_earliest:
  assumes "pqInv q" and "elems q \<noteq> {#}" and "e \<in># elems q"
  shows "getReleaseTime (fst (pqPop pq q)) \<le> getReleaseTime e"
  using top_min [OF assms(1,3)] pop_top [OF assms(1,2)] by (simp add: eventLess_def)

text \<open>Only the popped event leaves the queue.\<close>

lemma pop_keeps:
  assumes "pqInv q" and "elems q \<noteq> {#}" and "e \<in># elems q" and "e \<noteq> pqTop pq q"
  shows "e \<in># elems (snd (pqPop pq q))"
  using pop_elems [OF assms(1,2)] assms(3,4) by (metis insert_iff set_mset_add_mset_insert)

end

section \<open>Binary heaps: Go's container/heap on a slice\<close>

definition swap :: "'a list \<Rightarrow> nat \<Rightarrow> nat \<Rightarrow> 'a list" where
  "swap h i j = h[i := h ! j, j := h ! i]"

fun heapUp :: "releaseEvent list \<Rightarrow> nat \<Rightarrow> releaseEvent list" where
  "heapUp h j =
     (let i = (j - 1) div 2 in
      if j = 0 \<or> \<not> eventLess (h ! j) (h ! i) then h else heapUp (swap h i j) i)"

definition minChild :: "releaseEvent list \<Rightarrow> nat \<Rightarrow> nat \<Rightarrow> nat" where
  "minChild h i n =
     (let j1 = 2 * i + 1; j2 = j1 + 1 in if j2 < n \<and> eventLess (h ! j2) (h ! j1) then j2 else j1)"

function heapDown :: "releaseEvent list \<Rightarrow> nat \<Rightarrow> nat \<Rightarrow> releaseEvent list" where
  "heapDown h i n =
     (if 2 * i + 1 \<ge> n then h
      else let j = minChild h i n in
           if \<not> eventLess (h ! j) (h ! i) then h else heapDown (swap h i j) j n)"
  by pat_completeness auto
termination
  by (relation "measure (\<lambda>(h, i, n). n - i)") (auto simp: minChild_def Let_def)

declare heapUp.simps [simp del] heapDown.simps [simp del]

lemma heapUp_stop: "j = 0 \<or> \<not> eventLess (h ! j) (h ! ((j - 1) div 2)) \<Longrightarrow> heapUp h j = h"
  by (subst heapUp.simps) (simp add: Let_def)

lemma heapDown_stop: "n \<le> 2 * i + 1 \<or> \<not> eventLess (h ! minChild h i n) (h ! i) \<Longrightarrow> heapDown h i n = h"
  by (subst heapDown.simps) (auto simp: Let_def)

definition heapPush :: "releaseEvent \<Rightarrow> releaseEvent list \<Rightarrow> releaseEvent list" where
  "heapPush x h = heapUp (h @ [x]) (length h)"

definition heapPop :: "releaseEvent list \<Rightarrow> releaseEvent \<times> releaseEvent list" where
  "heapPop h =
     (let n = length h - 1; h' = heapDown (swap h 0 n) 0 n in (h' ! n, take n h'))"

definition heapOps :: "releaseEvent list pqOps" where
  "heapOps = \<lparr>pqEmpty = [], pqPush = heapPush, pqPop = heapPop, pqTop = (\<lambda>h. h ! 0), pqLen = length\<rparr>"

text \<open>The heap order on the first \<open>n\<close> elements, except between \<open>x\<close> and its parent.\<close>

abbreviation tm :: "releaseEvent list \<Rightarrow> nat \<Rightarrow> time" where
  "tm h i \<equiv> getReleaseTime (h ! i)"

definition heapOk :: "releaseEvent list \<Rightarrow> nat \<Rightarrow> bool" where
  "heapOk h n = (\<forall>i < n. 0 < i \<longrightarrow> tm h ((i - 1) div 2) \<le> tm h i)"

definition upOk :: "releaseEvent list \<Rightarrow> nat \<Rightarrow> bool" where
  "upOk h j =
     ((\<forall>i < length h. 0 < i \<longrightarrow> i \<noteq> j \<longrightarrow> tm h ((i - 1) div 2) \<le> tm h i) \<and>
      (\<forall>i < length h. 0 < i \<longrightarrow> (i - 1) div 2 = j \<longrightarrow> 0 < j \<longrightarrow> tm h ((j - 1) div 2) \<le> tm h i))"

definition downOk :: "releaseEvent list \<Rightarrow> nat \<Rightarrow> nat \<Rightarrow> bool" where
  "downOk h x n =
     ((\<forall>i < n. 0 < i \<longrightarrow> (i - 1) div 2 \<noteq> x \<longrightarrow> tm h ((i - 1) div 2) \<le> tm h i) \<and>
      (\<forall>i < n. 0 < i \<longrightarrow> (i - 1) div 2 = x \<longrightarrow> 0 < x \<longrightarrow> tm h ((x - 1) div 2) \<le> tm h i))"

lemma length_swap [simp]: "length (swap h i j) = length h"
  by (simp add: swap_def)

lemma mset_swap: "i < length h \<Longrightarrow> j < length h \<Longrightarrow> mset (swap h i j) = mset h"
  by (simp add: swap_def mset_swap)

lemma nth_swap:
  "i < length h \<Longrightarrow> j < length h \<Longrightarrow> k < length h \<Longrightarrow>
     swap h i j ! k = (if k = j then h ! i else if k = i then h ! j else h ! k)"
  by (simp add: swap_def nth_list_update)

lemma heapUp_mset: "j < length h \<Longrightarrow> mset (heapUp h j) = mset h"
proof (induction h j rule: heapUp.induct)
  case (1 h j)
  then show ?case by (subst heapUp.simps) (simp add: Let_def mset_swap less_imp_diff_less)
qed

lemma upOk_swap:
  assumes j: "j < length h" "0 < j" and pdef: "p = (j - 1) div 2"
    and lt: "eventLess (h ! j) (h ! p)" and ok: "upOk h j"
  shows "upOk (swap h p j) p"
proof -
  have p: "p < length h" "p < j" using j pdef by auto
  have less: "tm h j < tm h p" using lt by (simp add: eventLess_def)
  have A: "i < length h \<Longrightarrow> 0 < i \<Longrightarrow> i \<noteq> j \<Longrightarrow> tm h ((i - 1) div 2) \<le> tm h i"
    and B: "i < length h \<Longrightarrow> 0 < i \<Longrightarrow> (i - 1) div 2 = j \<Longrightarrow> tm h p \<le> tm h i" for i
    using ok j by (auto simp: upOk_def pdef)
  note sw = nth_swap [OF p(1) j(1)]
  show ?thesis
    unfolding upOk_def length_swap
  proof (intro conjI allI impI)
    fix i assume i: "i < length h" "0 < i" "i \<noteq> p"
    define q where "q = (i - 1) div 2"
    have q: "q < length h" "q \<noteq> i" "i = j \<Longrightarrow> q = p" using i by (auto simp: q_def pdef)
    have "i \<noteq> j \<Longrightarrow> tm h q \<le> tm h i" "q = j \<Longrightarrow> tm h p \<le> tm h i"
      using A [of i] B [of i] i by (auto simp: q_def)
    with i q less p(2) show "tm (swap h p j) ((i - 1) div 2) \<le> tm (swap h p j) i"
      unfolding q_def [symmetric] by (auto simp: sw)
  next
    fix i assume i: "i < length h" "0 < i" "(i - 1) div 2 = p" "0 < p"
    define q where "q = (p - 1) div 2"
    have q: "q < length h" "q < p" using i p by (auto simp: q_def)
    have "tm h q \<le> tm h p" using A [of p] i p by (auto simp: q_def)
    moreover have "i \<noteq> j \<Longrightarrow> tm h p \<le> tm h i" using A [of i] i by auto
    moreover have "i \<noteq> p" using i by auto
    ultimately show "tm (swap h p j) ((p - 1) div 2) \<le> tm (swap h p j) i"
      unfolding q_def [symmetric] using i p q by (auto simp: sw)
  qed
qed

lemma heapUp_heapOk: "j < length h \<Longrightarrow> upOk h j \<Longrightarrow> heapOk (heapUp h j) (length h)"
proof (induction h j rule: heapUp.induct)
  case (1 h j)
  show ?case
  proof (cases "j = 0 \<or> \<not> eventLess (h ! j) (h ! ((j - 1) div 2))")
    case True
    with "1.prems" show ?thesis
      by (subst heapUp.simps) (auto simp: Let_def heapOk_def upOk_def eventLess_def)
  next
    case False
    with "1.prems" upOk_swap [of j h, OF _ _ refl] have "upOk (swap h ((j - 1) div 2) j) ((j - 1) div 2)" by simp
    with "1.IH" [OF refl False] "1.prems" False show ?thesis
      by (subst heapUp.simps) (simp add: Let_def less_imp_diff_less)
  qed
qed

lemma heapDown_mset: "n \<le> length h \<Longrightarrow> i < n \<Longrightarrow> mset (heapDown h i n) = mset h"
proof (induction h i n rule: heapDown.induct)
  case (1 h i n)
  then show ?case
    by (subst heapDown.simps) (auto simp: Let_def minChild_def mset_swap)
qed

lemma heapDown_length [simp]: "length (heapDown h i n) = length h"
proof (induction h i n rule: heapDown.induct)
  case (1 h i n)
  then show ?case by (subst heapDown.simps) (simp add: Let_def)
qed

lemma heapDown_beyond: "n \<le> length h \<Longrightarrow> i < n \<Longrightarrow> drop n (heapDown h i n) = drop n h"
proof (induction h i n rule: heapDown.induct)
  case (1 h i n)
  then show ?case
    by (subst heapDown.simps) (auto simp: Let_def minChild_def swap_def)
qed

lemma minChild_child:
  assumes "2 * i + 1 < n"
  shows "minChild h i n < n" "i < minChild h i n" "(minChild h i n - 1) div 2 = i"
  using assms by (auto simp: minChild_def Let_def)

lemma minChild_least:
  assumes "2 * i + 1 < n" and "c < n" and "0 < c" and "(c - 1) div 2 = i"
  shows "tm h (minChild h i n) \<le> tm h c"
proof -
  from assms(3,4) have "c = 2 * i + 1 \<or> c = 2 * i + 2" by linarith
  with assms(1,2) show ?thesis by (auto simp: minChild_def Let_def eventLess_def)
qed

lemma downOk_swap:
  assumes n: "n \<le> length h" and i: "2 * i + 1 < n" and jdef: "j = minChild h i n"
    and lt: "eventLess (h ! j) (h ! i)" and ok: "downOk h i n"
  shows "downOk (swap h i j) j n"
proof -
  have j: "j < n" "i < j" "(j - 1) div 2 = i" using minChild_child [OF i] by (auto simp: jdef)
  have less: "tm h j < tm h i" using lt by (simp add: eventLess_def)
  have A: "k < n \<Longrightarrow> 0 < k \<Longrightarrow> (k - 1) div 2 \<noteq> i \<Longrightarrow> tm h ((k - 1) div 2) \<le> tm h k"
    and B: "k < n \<Longrightarrow> 0 < k \<Longrightarrow> (k - 1) div 2 = i \<Longrightarrow> 0 < i \<Longrightarrow> tm h ((i - 1) div 2) \<le> tm h k" for k
    using ok by (auto simp: downOk_def)
  have C: "k < n \<Longrightarrow> 0 < k \<Longrightarrow> (k - 1) div 2 = i \<Longrightarrow> tm h j \<le> tm h k" for k
    using minChild_least [OF i] by (simp add: jdef)
  have il: "i < length h" "j < length h" using n i j by auto
  note sw = nth_swap [OF il]
  show ?thesis
    unfolding downOk_def
  proof (intro conjI allI impI)
    fix k assume k: "k < n" "0 < k" "(k - 1) div 2 \<noteq> j"
    define q where "q = (k - 1) div 2"
    have q: "q < n" "q \<noteq> k" "q \<noteq> j" "k = j \<Longrightarrow> q = i" using k j by (auto simp: q_def)
    have "q \<noteq> i \<Longrightarrow> tm h q \<le> tm h k" "q = i \<Longrightarrow> tm h j \<le> tm h k"
      "k = i \<Longrightarrow> tm h q \<le> tm h j"
      using A [of k] C [of k] B [of j] k j by (auto simp: q_def)
    with k q n less j show "tm (swap h i j) ((k - 1) div 2) \<le> tm (swap h i j) k"
      unfolding q_def [symmetric] by (auto simp: sw)
  next
    fix k assume k: "k < n" "0 < k" "(k - 1) div 2 = j" "0 < j"
    have "tm h j \<le> tm h k" using A [of k] k j by auto
    moreover have "k \<noteq> i" "k \<noteq> j" using k j by auto
    ultimately show "tm (swap h i j) ((j - 1) div 2) \<le> tm (swap h i j) k"
      unfolding j(3) using k j n by (auto simp: sw)
  qed
qed

lemma heapDown_heapOk: "n \<le> length h \<Longrightarrow> downOk h i n \<Longrightarrow> heapOk (heapDown h i n) n"
proof (induction h i n rule: heapDown.induct)
  case (1 h i n)
  show ?case
  proof (cases "2 * i + 1 \<ge> n")
    case True
    then have "(k - 1) div 2 \<noteq> i" if "k < n" "0 < k" for k using that by auto
    with True "1.prems" show ?thesis
      by (subst heapDown.simps) (auto simp: heapOk_def downOk_def)
  next
    case inner: False
    define j where "j = minChild h i n"
    show ?thesis
    proof (cases "eventLess (h ! j) (h ! i)")
      case True
      with downOk_swap [OF "1.prems"(1) _ j_def] inner "1.prems"(2)
      have "downOk (swap h i j) j n" by simp
      with "1.IH" [OF inner j_def] True "1.prems" inner show ?thesis
        by (subst heapDown.simps) (simp add: Let_def j_def)
    next
      case False
      have "tm h i \<le> tm h k" if "k < n" "0 < k" "(k - 1) div 2 = i" for k
        using minChild_least [of i n k h] inner that False by (simp add: eventLess_def j_def)
      with False inner "1.prems" show ?thesis
        by (subst heapDown.simps) (fastforce simp: Let_def j_def heapOk_def downOk_def)
    qed
  qed
qed

lemma heapOk_top_min: "heapOk h n \<Longrightarrow> i < n \<Longrightarrow> tm h 0 \<le> tm h i"
proof (induction i rule: less_induct)
  case (less i)
  show ?case
  proof (cases "i = 0")
    case False
    then have "tm h 0 \<le> tm h ((i - 1) div 2)" using less by auto
    also have "\<dots> \<le> tm h i" using less.prems False by (auto simp: heapOk_def)
    finally show ?thesis .
  qed simp
qed

lemma heapOk_cong: "(\<And>i. i < n \<Longrightarrow> h ! i = h' ! i) \<Longrightarrow> heapOk h n \<Longrightarrow> heapOk h' n"
  by (auto simp: heapOk_def)

lemma upOk_snoc: "heapOk h (length h) \<Longrightarrow> upOk (h @ [x]) (length h)"
  by (auto simp: upOk_def heapOk_def nth_append)

lemma heapPush_ok:
  assumes "heapOk h (length h)"
  shows "heapOk (heapPush x h) (length (heapPush x h))" "mset (heapPush x h) = add_mset x (mset h)"
proof -
  have m: "mset (heapPush x h) = add_mset x (mset h)"
    using heapUp_mset [of "length h" "h @ [x]"] by (simp add: heapPush_def)
  then have "length (heapPush x h) = Suc (length h)"
    by (metis size_add_mset size_mset)
  with heapUp_heapOk [of "length h" "h @ [x]"] upOk_snoc [OF assms, of x]
  show "heapOk (heapPush x h) (length (heapPush x h))" by (simp add: heapPush_def)
  show "mset (heapPush x h) = add_mset x (mset h)" by (rule m)
qed

lemma heapPop_ok:
  assumes ok: "heapOk h (length h)" and ne: "h \<noteq> []"
  shows "fst (heapPop h) = h ! 0" "heapOk (snd (heapPop h)) (length (snd (heapPop h)))"
    "mset h = add_mset (h ! 0) (mset (snd (heapPop h)))"
proof -
  define n where "n = length h - 1"
  define g where "g = heapDown (swap h 0 n) 0 n"
  have n: "n < length h" "length h = Suc n" using ne by (auto simp: n_def)
  have "downOk (swap h 0 n) 0 n"
    using ok n by (auto simp: downOk_def heapOk_def nth_swap)
  then have gok: "heapOk g n" using n heapDown_heapOk [of n "swap h 0 n" 0] by (simp add: g_def)
  have glen: "length g = Suc n" using n by (simp add: g_def)
  have gm: "mset g = mset h"
  proof (cases "n = 0")
    case True
    then show ?thesis using n by (simp add: g_def heapDown.simps [of _ 0 0] mset_swap)
  next
    case False
    then show ?thesis using n heapDown_mset [of n "swap h 0 n" 0] by (simp add: g_def mset_swap)
  qed
  have last: "g ! n = h ! 0"
  proof (cases "n = 0")
    case True
    then show ?thesis using n by (simp add: g_def heapDown.simps [of _ 0 0] nth_swap)
  next
    case False
    then have "drop n g = drop n (swap h 0 n)" using n heapDown_beyond by (simp add: g_def)
    then have "g ! n = swap h 0 n ! n" using n glen hd_drop_conv_nth [of n g] hd_drop_conv_nth [of n "swap h 0 n"] by simp
    then show ?thesis using n by (simp add: nth_swap)
  qed
  have pop: "heapPop h = (g ! n, take n g)" by (simp add: heapPop_def n_def g_def Let_def)
  show "fst (heapPop h) = h ! 0" by (simp add: pop last)
  show "heapOk (snd (heapPop h)) (length (snd (heapPop h)))"
    using gok glen by (auto simp: pop intro: heapOk_cong [of n g])
  have "g = take n g @ [g ! n]" using glen by (metis lessI order_refl take_Suc_conv_app_nth take_all)
  then have "mset g = add_mset (g ! n) (mset (take n g))"
    by (metis mset_append union_mset_add_mset_right mset.simps add.right_neutral)
  then show "mset h = add_mset (h ! 0) (mset (snd (heapPop h)))" by (simp add: pop last gm)
qed

interpretation heap: priority_queue heapOps mset "\<lambda>h. heapOk h (length h)"
proof unfold_locales
  fix q :: "releaseEvent list" and e
  assume "heapOk q (length q)" "e \<in># mset q"
  then show "\<not> eventLess e (pqTop heapOps q)"
    using heapOk_top_min [of q "length q"] by (auto simp: heapOps_def eventLess_def in_set_conv_nth not_less)
qed (auto simp: heapOps_def heapOk_def [of "[]"] heapPush_ok heapPop_ok)

end
