(* ===== verification/Subscription_Manager.thy ===== *)
theory Subscription_Manager
  imports Stateless_Data
begin

text \<open>
  \<open>subscription_manager.go\<close>: the applications that listen for accepted invoices. A callback is
  a value of a type parameter; calling it is left to the function that is folded over the
  subscribers. \<open>Time.Sub\<close> saturates at the bounds of a 64-bit duration.
\<close>

definition DefaultGracePeriodWithoutSubscribers :: duration where
  "DefaultGracePeriodWithoutSubscribers = 30 * second"

definition timeSub :: "time \<Rightarrow> time \<Rightarrow> duration" where
  "timeSub t u = max (- (2 ^ 63)) (min (2 ^ 63 - 1) (t - u))"

definition zeroTime :: time where
  "zeroTime = - unixToInternal * second"

record 'c subscriptionManager =
  acceptSubscriptions :: "(u64, 'c) gomap"
  nextSubscriberId :: u64
  lastSubscriberRemovedAt :: time
  gracePeriodWithoutSubscribers :: duration

definition newSubscriptionManager :: "duration \<Rightarrow> 'c subscriptionManager" where
  "newSubscriptionManager grace =
     \<lparr>acceptSubscriptions = [], nextSubscriberId = 0, lastSubscriberRemovedAt = zeroTime,
      gracePeriodWithoutSubscribers = grace\<rparr>"

definition addAcceptSubscription :: "u64 \<Rightarrow> 'c \<Rightarrow> 'c subscriptionManager \<Rightarrow> 'c subscriptionManager" where
  "addAcceptSubscription sid callback s =
     s\<lparr>acceptSubscriptions := gm_put sid callback (acceptSubscriptions s)\<rparr>"

definition deleteAcceptSubscription :: "time \<Rightarrow> u64 \<Rightarrow> 'c subscriptionManager \<Rightarrow> 'c subscriptionManager" where
  "deleteAcceptSubscription now sid s =
     (if gm_get (acceptSubscriptions s) sid = None then s
      else s\<lparr>acceptSubscriptions := gm_del sid (acceptSubscriptions s), lastSubscriberRemovedAt := now\<rparr>)"

definition generateSubscriptionId :: "'c subscriptionManager \<Rightarrow> u64 \<times> 'c subscriptionManager" where
  "generateSubscriptionId s =
     (nextSubscriberId s + 1, s\<lparr>nextSubscriberId := nextSubscriberId s + 1\<rparr>)"

definition notifySubscribers :: "('c \<Rightarrow> 'w \<Rightarrow> 'w) \<Rightarrow> 'c subscriptionManager \<Rightarrow> 'w \<Rightarrow> 'w" where
  "notifySubscribers call s w = fold (\<lambda>(_, subscriber). call subscriber) (acceptSubscriptions s) w"

definition hasRecentSubscribers :: "time \<Rightarrow> 'c subscriptionManager \<Rightarrow> bool" where
  "hasRecentSubscribers now s =
     (length (acceptSubscriptions s) > 0 \<or>
      timeSub now (lastSubscriberRemovedAt s) \<le> gracePeriodWithoutSubscribers s)"

lemma hasRecentSubscribers_subscribed:
  "gm_get (acceptSubscriptions s) sid = Some c \<Longrightarrow> hasRecentSubscribers now s"
  by (cases "acceptSubscriptions s") (auto simp: hasRecentSubscribers_def)

text \<open>
  When the last subscriber leaves, new HTLC sets keep being accepted during the grace period
  and are refused after it, until a subscriber returns; a manager that never had a subscriber
  refuses them from the start.
\<close>

lemma grace_period:
  assumes "acceptSubscriptions s = [(sid, c)]" and "0 \<le> gracePeriodWithoutSubscribers s"
    and "gracePeriodWithoutSubscribers s < 2 ^ 63 - 1" and "t \<le> now" and "0 \<le> now"
  shows "(hasRecentSubscribers now (deleteAcceptSubscription t sid s) \<longleftrightarrow>
            now - t \<le> gracePeriodWithoutSubscribers s) \<and>
         hasRecentSubscribers now (addAcceptSubscription sid' c' (deleteAcceptSubscription t sid s)) \<and>
         \<not> hasRecentSubscribers now (newSubscriptionManager (gracePeriodWithoutSubscribers s))"
proof (intro conjI)
  have "gm_del sid [(sid, c)] = []" by (simp add: gm_del_def)
  then show "hasRecentSubscribers now (deleteAcceptSubscription t sid s) \<longleftrightarrow>
           now - t \<le> gracePeriodWithoutSubscribers s"
    using assms by (auto simp: hasRecentSubscribers_def deleteAcceptSubscription_def timeSub_def)
  show "hasRecentSubscribers now (addAcceptSubscription sid' c' (deleteAcceptSubscription t sid s))"
    by (rule hasRecentSubscribers_subscribed [of _ sid' c']) (simp add: addAcceptSubscription_def)
  show "\<not> hasRecentSubscribers now (newSubscriptionManager (gracePeriodWithoutSubscribers s))"
    using assms
    by (auto simp: hasRecentSubscribers_def newSubscriptionManager_def timeSub_def zeroTime_def unixToInternal_def)
qed

end
