(* ===== verification/Persistence.thy ===== *)
theory Persistence
  imports Stateless_Data
begin

text \<open>
  \<open>persistence/pg.go\<close> on the schema of \<open>persistence/migrations\<close>: the tables are lists of rows,
  the queries of each operation are written out, and a transaction that returns an error leaves
  the tables as they were. Every statement of a transaction can fail (connection, deadlock,
  cancelled context): which ones do is an argument of the operation, a predicate over the
  statements. Row locks make the transactions on one invoice atomic, so each operation is one step.
\<close>

section \<open>Tables\<close>

record dbInvoice =
  diSequenceNum :: nat
  diHash :: hash
  diPreimage :: preimage
  diAmountMsat :: u64
  diSettleRequestedAt :: time
  diFinalizedAt :: "time option"
  diStatus :: InvoiceStatus

record dbHtlc =
  dhKey :: HtlcKey
  dhHash :: hash
  dhAmountMsat :: u64
  dhSettleRequestedAt :: time
  dhFinalizedAt :: "time option"
  dhStatus :: HtlcStatus

record database =
  invoiceTable :: "dbInvoice list"
  htlcTable :: "dbHtlc list"
  nextSeq :: nat

definition emptyDb :: database where
  "emptyDb = \<lparr>invoiceTable = [], htlcTable = [], nextSeq = 1\<rparr>"

datatype dbCall =
    TxBegin | SelectInvoice | SelectHtlcs | SelectHtlc | InsertInvoice | InsertHtlc HtlcKey
  | UpdateHtlc | UpdateInvoice | CountHtlcs | TxCommit

type_synonym faults = "dbCall \<Rightarrow> bool"

datatype dbError =
    ErrDb dbCall | ErrConstraint string | ErrInvoiceNotFound | ErrHtlcNotFound | ErrHtlcAlreadyFinal
  | ErrHtlcReceivedButInvoiceAlreadySettled | ErrFinalizationFailed

text \<open>
  \<open>RunInTransaction\<close>: the body runs on the tables and its changes are kept only if it returns
  no error and the commit succeeds. Sequence numbers that a rolled-back insert drew are lost,
  as for every Postgres sequence.
\<close>

definition runInTransaction ::
    "faults \<Rightarrow> (database \<Rightarrow> (dbError, 'a) outcome \<times> database) \<Rightarrow> database \<Rightarrow> (dbError, 'a) outcome \<times> database" where
  "runInTransaction f body db =
     (if f TxBegin then (Err (ErrDb TxBegin), db)
      else case body db of
             (Ok a, db') \<Rightarrow> if f TxCommit then (Err (ErrDb TxCommit), db\<lparr>nextSeq := nextSeq db'\<rparr>) else (Ok a, db')
           | (r, db') \<Rightarrow> (r, db\<lparr>nextSeq := nextSeq db'\<rparr>))"

section \<open>Reading\<close>

record Invoice =
  invCreation :: InvoiceCreationData
  invSequenceNum :: nat
  invSettleRequestedAt :: time
  invFinalizedAt :: "time option"
  invStatus :: InvoiceStatus

definition unmarshallDbInvoice :: "dbInvoice \<Rightarrow> Invoice" where
  "unmarshallDbInvoice i =
     \<lparr>invCreation = \<lparr>PaymentPreimage = diPreimage i, Value = diAmountMsat i, PaymentAddr = replicate 32 0\<rparr>,
      invSequenceNum = diSequenceNum i, invSettleRequestedAt = diSettleRequestedAt i,
      invFinalizedAt = diFinalizedAt i, invStatus = diStatus i\<rparr>"

definition findInvoice :: "hash \<Rightarrow> database \<Rightarrow> dbInvoice option" where
  "findInvoice hash db = find (\<lambda>i. diHash i = hash) (invoiceTable db)"

definition htlcsOf :: "hash \<Rightarrow> database \<Rightarrow> dbHtlc list" where
  "htlcsOf hash db = filter (\<lambda>h. dhHash h = hash) (htlcTable db)"

definition findHtlc :: "HtlcKey \<Rightarrow> database \<Rightarrow> dbHtlc option" where
  "findHtlc key db = find (\<lambda>h. dhKey h = key) (htlcTable db)"

definition Get ::
    "faults \<Rightarrow> hash \<Rightarrow> database \<Rightarrow> (dbError, Invoice \<times> (HtlcKey, u64) gomap) outcome" where
  "Get f hash db =
     fst (runInTransaction f (\<lambda>tx.
       if f SelectInvoice then (Err (ErrDb SelectInvoice), tx)
       else case findInvoice hash tx of
              None \<Rightarrow> (Err ErrInvoiceNotFound, tx)
            | Some i \<Rightarrow>
                if f SelectHtlcs then (Err (ErrDb SelectHtlcs), tx)
                else (Ok (unmarshallDbInvoice i,
                          fold (\<lambda>h m. gm_put (dhKey h) (dhAmountMsat h) m) (htlcsOf hash tx) []), tx)) db)"

text \<open>\<open>limitRows\<close> is the \<open>Limit\<close> of the query builder (go-pg): it gets the number, which is signed, and the rows.\<close>

definition GetInvoices ::
    "(int \<Rightarrow> dbInvoice list \<Rightarrow> dbInvoice list) \<Rightarrow> faults \<Rightarrow> int \<Rightarrow> int \<Rightarrow> database \<Rightarrow> (dbError, Invoice list) outcome" where
  "GetInvoices limitRows f maxInvoicesCount sequenceStart db =
     (if f SelectInvoice then Err (ErrDb SelectInvoice)
      else let dbInvoices = limitRows maxInvoicesCount
                 (sort_key diSequenceNum (filter (\<lambda>i. sequenceStart \<le> int (diSequenceNum i)) (invoiceTable db)))
           in Ok (map unmarshallDbInvoice dbInvoices))"

definition GetPendingHtlcs :: "faults \<Rightarrow> pubkey \<Rightarrow> database \<Rightarrow> (dbError, CircuitKey list) outcome" where
  "GetPendingHtlcs f node db =
     fst (runInTransaction f (\<lambda>tx.
       if f SelectHtlcs then (Err (ErrDb SelectHtlcs), tx)
       else (Ok (remdups (map (\<lambda>h. CircuitKey (ChanID (dhKey h)) (HtlcID (dhKey h)))
               (filter (\<lambda>h. Node (dhKey h) = node \<and> dhStatus h = HtlcStatusSettleRequested) (htlcTable tx)))), tx)) db)"

section \<open>Requesting settlement\<close>

text \<open>
  The constraints of the schema: primary keys, the unique preimage, lengths, positive amounts
  (\<open>BIGINT CHECK (amount_msat > 0)\<close>) and the foreign key of the HTLCs.
\<close>

definition insertInvoice :: "dbInvoice \<Rightarrow> database \<Rightarrow> (dbError, unit) outcome \<times> database" where
  "insertInvoice i tx =
     (let tx' = tx\<lparr>nextSeq := Suc (nextSeq tx)\<rparr> in
      if length (diHash i) \<noteq> 32 \<or> length (diPreimage i) \<noteq> 32 then (Err (ErrConstraint ''length''), tx')
      else if \<not> sint (diAmountMsat i) > 0 then (Err (ErrConstraint ''invoices_amount_msat_check''), tx')
      else if findInvoice (diHash i) tx \<noteq> None then (Err (ErrConstraint ''invoices_pkey''), tx')
      else if \<exists>j \<in> set (invoiceTable tx). diPreimage j = diPreimage i
        then (Err (ErrConstraint ''invoices_preimage_key''), tx')
      else (Ok (), tx'\<lparr>invoiceTable := invoiceTable tx @ [i\<lparr>diSequenceNum := nextSeq tx\<rparr>]\<rparr>))"

definition insertHtlc :: "dbHtlc \<Rightarrow> database \<Rightarrow> (dbError, unit) outcome \<times> database" where
  "insertHtlc h tx =
     (if length (Node (dhKey h)) \<noteq> 33 \<or> length (dhHash h) \<noteq> 32 then (Err (ErrConstraint ''length''), tx)
      else if \<not> sint (dhAmountMsat h) > 0 then (Err (ErrConstraint ''htlcs_amount_msat_check''), tx)
      else if findHtlc (dhKey h) tx \<noteq> None then (Err (ErrConstraint ''htlcs_pkey''), tx)
      else if findInvoice (dhHash h) tx = None then (Err (ErrConstraint ''fk_hash''), tx)
      else (Ok (), tx\<lparr>htlcTable := htlcTable tx @ [h]\<rparr>))"

fun insertHtlcs ::
    "faults \<Rightarrow> time \<Rightarrow> hash \<Rightarrow> (HtlcKey, u64) gomap \<Rightarrow> database \<Rightarrow> (dbError, unit) outcome \<times> database" where
  "insertHtlcs f now hash [] tx = (Ok (), tx)"
| "insertHtlcs f now hash ((key, amt) # hs) tx =
     (if f (InsertHtlc key) then (Err (ErrDb (InsertHtlc key)), tx)
      else case insertHtlc \<lparr>dhKey = key, dhHash = hash, dhAmountMsat = amt, dhSettleRequestedAt = now,
                            dhFinalizedAt = None, dhStatus = HtlcStatusSettleRequested\<rparr> tx of
             (Ok _, tx') \<Rightarrow> insertHtlcs f now hash hs tx'
           | r \<Rightarrow> r)"

definition RequestSettle ::
    "crypto \<Rightarrow> faults \<Rightarrow> time \<Rightarrow> InvoiceCreationData \<Rightarrow> (HtlcKey, u64) gomap \<Rightarrow> database
     \<Rightarrow> (dbError, unit) outcome \<times> database" where
  "RequestSettle cr f now invoice htlcMap db =
     runInTransaction f (\<lambda>tx.
       let hash = preimageHash cr (PaymentPreimage invoice) in
       if f InsertInvoice then (Err (ErrDb InsertInvoice), tx)
       else case insertInvoice
              \<lparr>diSequenceNum = 0, diHash = hash, diPreimage = PaymentPreimage invoice,
               diAmountMsat = Value invoice, diSettleRequestedAt = now, diFinalizedAt = None,
               diStatus = InvoiceStatusSettleRequested\<rparr> tx of
              (Ok _, tx') \<Rightarrow> insertHtlcs f now hash htlcMap tx'
            | r \<Rightarrow> r) db"

section \<open>Final resolutions\<close>

definition getHtlcHash :: "faults \<Rightarrow> HtlcKey \<Rightarrow> database \<Rightarrow> (dbError, hash) outcome" where
  "getHtlcHash f key tx =
     (if f SelectHtlc then Err (ErrDb SelectHtlc)
      else case findHtlc key tx of None \<Rightarrow> Err ErrHtlcNotFound | Some h \<Rightarrow> Ok (dhHash h))"

definition selectInvoiceForUpdate :: "faults \<Rightarrow> HtlcKey \<Rightarrow> database \<Rightarrow> (dbError, dbInvoice) outcome" where
  "selectInvoiceForUpdate f key tx =
     (case getHtlcHash f key tx of
        Err e \<Rightarrow> Err e
      | Panic m \<Rightarrow> Panic m
      | Ok hash \<Rightarrow>
          if f SelectInvoice then Err (ErrDb SelectInvoice)
          else case findInvoice hash tx of None \<Rightarrow> Err ErrInvoiceNotFound | Some i \<Rightarrow> Ok i)"

definition finalizeHTLC ::
    "faults \<Rightarrow> HtlcKey \<Rightarrow> bool \<Rightarrow> time \<Rightarrow> database \<Rightarrow> (dbError, unit) outcome \<times> database" where
  "finalizeHTLC f key settled finalizedAt tx =
     (let htlcFinalStatus = (if settled then HtlcStatusSettled else HtlcStatusFailed);
          hit = (\<lambda>h. dhKey h = key \<and> dhStatus h = HtlcStatusSettleRequested)
      in if f UpdateHtlc then (Err (ErrDb UpdateHtlc), tx)
         else if filter hit (htlcTable tx) = [] then (Err ErrHtlcAlreadyFinal, tx)
         else (Ok (), tx\<lparr>htlcTable := map (\<lambda>h. if hit h
                   then h\<lparr>dhStatus := htlcFinalStatus, dhFinalizedAt := Some finalizedAt\<rparr> else h) (htlcTable tx)\<rparr>))"

definition finalizeInvoice ::
    "faults \<Rightarrow> hash \<Rightarrow> bool \<Rightarrow> time \<Rightarrow> database \<Rightarrow> (dbError, unit) outcome \<times> database" where
  "finalizeInvoice f hash settled finalizedAt tx =
     (let invoiceFinalStatus = (if settled then InvoiceStatusSettled else InvoiceStatusFailed);
          hit = (\<lambda>i. diHash i = hash \<and> diStatus i = InvoiceStatusSettleRequested)
      in if f UpdateInvoice then (Err (ErrDb UpdateInvoice), tx)
         else if filter hit (invoiceTable tx) = [] then (Err ErrFinalizationFailed, tx)
         else (Ok (), tx\<lparr>invoiceTable := map (\<lambda>i. if hit i
                   then i\<lparr>diStatus := invoiceFinalStatus, diFinalizedAt := Some finalizedAt\<rparr> else i) (invoiceTable tx)\<rparr>))"

definition allHtlcsAreSettled :: "faults \<Rightarrow> hash \<Rightarrow> database \<Rightarrow> (dbError, bool) outcome" where
  "allHtlcsAreSettled f hash tx =
     (if f CountHtlcs then Err (ErrDb CountHtlcs)
      else Ok (length (filter (\<lambda>h. dhHash h = hash \<and> dhStatus h = HtlcStatusSettleRequested) (htlcTable tx)) = 0))"

definition MarkHtlcFinal ::
    "faults \<Rightarrow> time \<Rightarrow> HtlcKey \<Rightarrow> bool \<Rightarrow> database \<Rightarrow> (dbError, hash option) outcome \<times> database" where
  "MarkHtlcFinal f now key settled db =
     runInTransaction f (\<lambda>tx.
       case selectInvoiceForUpdate f key tx of
         Err e \<Rightarrow> (Err e, tx)
       | Panic m \<Rightarrow> (Panic m, tx)
       | Ok invoice \<Rightarrow>
           if diStatus invoice = InvoiceStatusSettled
           then (Err ErrHtlcReceivedButInvoiceAlreadySettled, tx)
           else (case finalizeHTLC f key settled now tx of
                   (Err e, tx') \<Rightarrow> (Err e, tx')
                 | (Panic m, tx') \<Rightarrow> (Panic m, tx')
                 | (Ok _, tx') \<Rightarrow>
                     if diStatus invoice = InvoiceStatusFailed then (Ok None, tx')
                     else let finish = (case finalizeInvoice f (diHash invoice) settled now tx' of
                                          (Ok _, tx'') \<Rightarrow> (Ok (Some (diHash invoice)), tx'')
                                        | (Err e, tx'') \<Rightarrow> (Err e, tx'')
                                        | (Panic m, tx'') \<Rightarrow> (Panic m, tx''))
                          in if settled
                             then (case allHtlcsAreSettled f (diHash invoice) tx' of
                                     Err e \<Rightarrow> (Err e, tx')
                                   | Panic m \<Rightarrow> (Panic m, tx')
                                   | Ok allHtlcsSettled \<Rightarrow>
                                       if \<not> allHtlcsSettled then (Ok None, tx') else finish)
                             else finish)) db"

section \<open>Outcomes of the transactions\<close>

definition sameTables :: "database \<Rightarrow> database \<Rightarrow> bool" where
  "sameTables db db' = (invoiceTable db' = invoiceTable db \<and> htlcTable db' = htlcTable db \<and> nextSeq db \<le> nextSeq db')"

lemma sameTables_find [simp]:
  "sameTables db db' \<Longrightarrow> findInvoice h db' = findInvoice h db"
  "sameTables db db' \<Longrightarrow> findHtlc k db' = findHtlc k db"
  "sameTables db db' \<Longrightarrow> htlcsOf h db' = htlcsOf h db"
  by (simp_all add: sameTables_def findInvoice_def findHtlc_def htlcsOf_def)

lemma runInTransaction_Ok:
  "runInTransaction f body db = (Ok a, db') \<Longrightarrow> body db = (Ok a, db') \<and> \<not> f TxBegin \<and> \<not> f TxCommit"
  by (auto simp: runInTransaction_def split: if_splits outcome.splits prod.splits)

lemma runInTransaction_not_Ok:
  "runInTransaction f body db = (r, db') \<Longrightarrow> (\<And>a. r \<noteq> Ok a) \<Longrightarrow>
     (\<And>r' db''. body db = (r', db'') \<Longrightarrow> nextSeq db \<le> nextSeq db'') \<Longrightarrow> sameTables db db'"
  by (auto simp: runInTransaction_def sameTables_def split: if_splits outcome.splits prod.splits)

abbreviation noFaults :: faults where
  "noFaults \<equiv> \<lambda>_. False"

lemma insertHtlc_Ok:
  "insertHtlc h tx = (Ok u, tx') \<longleftrightarrow>
     length (Node (dhKey h)) = 33 \<and> length (dhHash h) = 32 \<and> sint (dhAmountMsat h) > 0 \<and>
     findHtlc (dhKey h) tx = None \<and> findInvoice (dhHash h) tx \<noteq> None \<and>
     tx' = tx\<lparr>htlcTable := htlcTable tx @ [h]\<rparr>"
  by (auto simp: insertHtlc_def)

lemma insertHtlc_seq: "insertHtlc h tx = (r, tx') \<Longrightarrow> nextSeq tx' = nextSeq tx"
  by (auto simp: insertHtlc_def split: if_splits)

lemma insertHtlcs_seq: "insertHtlcs f now hash hs tx = (r, tx') \<Longrightarrow> nextSeq tx' = nextSeq tx"
  by (induction f now hash hs tx arbitrary: tx' rule: insertHtlcs.induct)
    (auto dest: insertHtlc_seq split: if_splits prod.splits outcome.splits)

lemma findHtlc_append_None: "find P (xs @ ys) = None \<longleftrightarrow> find P xs = None \<and> find P ys = None"
  by (auto simp: find_None_iff)

definition newHtlcRow :: "time \<Rightarrow> hash \<Rightarrow> HtlcKey \<times> u64 \<Rightarrow> dbHtlc" where
  "newHtlcRow now hash ka =
     \<lparr>dhKey = fst ka, dhHash = hash, dhAmountMsat = snd ka, dhSettleRequestedAt = now,
      dhFinalizedAt = None, dhStatus = HtlcStatusSettleRequested\<rparr>"

lemma newHtlcRow_sel [simp]:
  "dhKey (newHtlcRow now hash ka) = fst ka" "dhHash (newHtlcRow now hash ka) = hash"
  "dhAmountMsat (newHtlcRow now hash ka) = snd ka" "dhFinalizedAt (newHtlcRow now hash ka) = None"
  "dhStatus (newHtlcRow now hash ka) = HtlcStatusSettleRequested"
  by (simp_all add: newHtlcRow_def)

text \<open>The rows a settle request may insert: what the constraints of the schema ask of them.\<close>

definition htlcsInsertable :: "(HtlcKey, u64) gomap \<Rightarrow> database \<Rightarrow> bool" where
  "htlcsInsertable hs db =
     (distinct (map fst hs) \<and>
      (\<forall>(k, a) \<in> set hs. length (Node k) = 33 \<and> sint a > 0 \<and> findHtlc k db = None))"

lemma insertHtlcs_Ok:
  assumes "length hash = 32" and "findInvoice hash tx \<noteq> None"
  shows "insertHtlcs f now hash hs tx = (Ok u, tx') \<longleftrightarrow>
    (\<forall>k \<in> fst ` set hs. \<not> f (InsertHtlc k)) \<and> htlcsInsertable hs tx \<and>
    tx' = tx\<lparr>htlcTable := htlcTable tx @ map (newHtlcRow now hash) hs\<rparr>"
  using assms(2)
proof (induction hs arbitrary: tx)
  case (Cons ka hs)
  obtain k a where ka: "ka = (k, a)" by (cases ka)
  let ?tx = "tx\<lparr>htlcTable := htlcTable tx @ [newHtlcRow now hash ka]\<rparr>"
  have inv: "findInvoice hash ?tx \<noteq> None" using Cons.prems by (simp add: findInvoice_def)
  have fresh: "htlcsInsertable hs ?tx \<longleftrightarrow> htlcsInsertable hs tx \<and> k \<notin> fst ` set hs"
    by (force simp: htlcsInsertable_def findHtlc_def findHtlc_append_None ka)
  have step: "insertHtlcs f now hash (ka # hs) tx = (Ok u, tx') \<longleftrightarrow>
      \<not> f (InsertHtlc k) \<and> length (Node k) = 33 \<and> sint a > 0 \<and> findHtlc k tx = None \<and>
      insertHtlcs f now hash hs ?tx = (Ok u, tx')"
    using Cons.prems assms(1)
    by (auto simp: ka newHtlcRow_def insertHtlc_Ok insertHtlc_def split: outcome.splits prod.splits)
  show ?case
    unfolding step Cons.IH [OF inv] fresh by (simp add: ka htlcsInsertable_def) blast
qed (auto simp: htlcsInsertable_def)

definition newInvoiceRow :: "crypto \<Rightarrow> time \<Rightarrow> nat \<Rightarrow> InvoiceCreationData \<Rightarrow> dbInvoice" where
  "newInvoiceRow cr now seq invoice =
     \<lparr>diSequenceNum = seq, diHash = preimageHash cr (PaymentPreimage invoice),
      diPreimage = PaymentPreimage invoice, diAmountMsat = Value invoice,
      diSettleRequestedAt = now, diFinalizedAt = None, diStatus = InvoiceStatusSettleRequested\<rparr>"

lemma newInvoiceRow_sel [simp]:
  "diHash (newInvoiceRow cr now seq invoice) = preimageHash cr (PaymentPreimage invoice)"
  "diPreimage (newInvoiceRow cr now seq invoice) = PaymentPreimage invoice"
  "diAmountMsat (newInvoiceRow cr now seq invoice) = Value invoice"
  "diSequenceNum (newInvoiceRow cr now seq invoice) = seq"
  "diStatus (newInvoiceRow cr now seq invoice) = InvoiceStatusSettleRequested"
  by (simp_all add: newInvoiceRow_def)

lemma find_snoc: "P y \<Longrightarrow> find P (xs @ [y]) \<noteq> None"
  by (induction xs) auto

definition invoiceInsertable :: "crypto \<Rightarrow> InvoiceCreationData \<Rightarrow> database \<Rightarrow> bool" where
  "invoiceInsertable cr invoice db =
     (length (preimageHash cr (PaymentPreimage invoice)) = 32 \<and> length (PaymentPreimage invoice) = 32 \<and>
      sint (Value invoice) > 0 \<and> findInvoice (preimageHash cr (PaymentPreimage invoice)) db = None \<and>
      (\<forall>j \<in> set (invoiceTable db). diPreimage j \<noteq> PaymentPreimage invoice))"

definition settledDb :: "crypto \<Rightarrow> time \<Rightarrow> InvoiceCreationData \<Rightarrow> (HtlcKey, u64) gomap \<Rightarrow> database \<Rightarrow> database" where
  "settledDb cr now invoice hs db =
     db\<lparr>invoiceTable := invoiceTable db @ [newInvoiceRow cr now (nextSeq db) invoice],
        htlcTable := htlcTable db @ map (newHtlcRow now (preimageHash cr (PaymentPreimage invoice))) hs,
        nextSeq := Suc (nextSeq db)\<rparr>"

lemma insertInvoice_insertable:
  "invoiceInsertable cr invoice db \<Longrightarrow> insertInvoice (newInvoiceRow cr now 0 invoice) db =
     (Ok (), db\<lparr>nextSeq := Suc (nextSeq db),
        invoiceTable := invoiceTable db @ [newInvoiceRow cr now (nextSeq db) invoice]\<rparr>)"
  unfolding insertInvoice_def invoiceInsertable_def newInvoiceRow_def Let_def by simp

lemma insertInvoice_refused:
  "\<not> invoiceInsertable cr invoice db \<Longrightarrow> \<exists>e tx. insertInvoice (newInvoiceRow cr now 0 invoice) db = (Err e, tx)"
  unfolding insertInvoice_def invoiceInsertable_def newInvoiceRow_def Let_def by (simp, metis not_Some_eq)

lemma RequestSettle_Ok:
  "RequestSettle cr f now invoice hs db = (Ok u, db') \<longleftrightarrow>
     \<not> f TxBegin \<and> \<not> f InsertInvoice \<and> (\<forall>k \<in> fst ` set hs. \<not> f (InsertHtlc k)) \<and> \<not> f TxCommit \<and>
     invoiceInsertable cr invoice db \<and> htlcsInsertable hs db \<and> db' = settledDb cr now invoice hs db"
proof -
  let ?hash = "preimageHash cr (PaymentPreimage invoice)"
  let ?tx = "db\<lparr>nextSeq := Suc (nextSeq db), invoiceTable := invoiceTable db @ [newInvoiceRow cr now (nextSeq db) invoice]\<rparr>"
  let ?body = "\<lambda>tx. if f InsertInvoice then (Err (ErrDb InsertInvoice), tx)
       else case insertInvoice (newInvoiceRow cr now 0 invoice) tx of
              (Ok _, tx') \<Rightarrow> insertHtlcs f now ?hash hs tx' | r \<Rightarrow> r"
  have find: "findInvoice ?hash ?tx \<noteq> None" by (simp add: findInvoice_def find_snoc)
  have same: "htlcsInsertable hs ?tx = htlcsInsertable hs db" by (simp add: htlcsInsertable_def findHtlc_def)
  have body: "?body db = (Ok u, db') \<longleftrightarrow> \<not> f InsertInvoice \<and> invoiceInsertable cr invoice db \<and>
      insertHtlcs f now ?hash hs ?tx = (Ok u, db')"
    using insertInvoice_insertable [of cr invoice db now] insertInvoice_refused [of cr invoice db now]
    by (cases "invoiceInsertable cr invoice db") auto
  have "RequestSettle cr f now invoice hs db = runInTransaction f ?body db"
    unfolding RequestSettle_def newInvoiceRow_def Let_def by (rule refl)
  moreover have "runInTransaction f ?body db = (Ok u, db') \<longleftrightarrow> \<not> f TxBegin \<and> \<not> f TxCommit \<and> ?body db = (Ok u, db')"
    by (auto simp: runInTransaction_def split: outcome.splits prod.splits if_splits)
  moreover have "invoiceInsertable cr invoice db \<Longrightarrow> length ?hash = 32" by (simp add: invoiceInsertable_def)
  ultimately show ?thesis
    unfolding body using insertHtlcs_Ok [OF _ find, of f now hs u db'] same
    by (auto simp: settledDb_def)
qed

lemma RequestSettle_not_Ok:
  assumes "RequestSettle cr f now invoice hs db = (r, db')" and "\<And>u. r \<noteq> Ok u"
  shows "sameTables db db'"
proof (rule runInTransaction_not_Ok [OF assms(1) [unfolded RequestSettle_def] assms(2)])
qed (auto simp: insertInvoice_def Let_def dest: insertHtlcs_seq split: if_splits outcome.splits prod.splits)

end
