(* ===== verification/Registry.thy ===== *)
theory Registry
  imports Htlc_Sets Release_Queue Subscription_Manager Persistence
begin

text \<open>
  \<open>invoiceregistry.go\<close>: the registry that holds incoming HTLCs until the set that pays an invoice
  is complete, and settles or fails them. The state is the Go struct with the database it uses;
  \<open>calls\<close> is the sequence of callbacks the registry made, in order. Callbacks are values: a
  resolver of type \<open>'r\<close> for every HTLC, an accept callback of type \<open>'c\<close> for every subscriber.
  The cryptographic functions, the priority queue and the configuration are the environment. The
  times that \<open>time.Now()\<close> returns and the database statements that fail during one iteration of the
  event loop are its inputs.
\<close>

section \<open>Types\<close>

record RegistryConfig =
  FinalCltvRejectDelta :: u32
  HtlcHoldDuration :: duration
  AcceptTimeout :: duration
  PrivKey :: bytes
  AutoSettle :: bool
  GracePeriodWithoutSubscribers :: duration

definition DefaultHtlcHoldDuration :: duration where
  "DefaultHtlcHoldDuration = 120 * second"

record 'q registryEnv =
  crypt :: crypto
  heapOf :: "'q pqOps"
  cfg :: RegistryConfig

text \<open>The MPP record of the onion payload, as \<open>Payload.MultiPath()\<close> returns it.\<close>

record mppRecord =
  mppPaymentAddr :: bytes
  mppTotalMsat :: u64

record 'r registryHtlc =
  rHash :: hash
  amtPaid :: u64
  htlcExpiry :: u32
  currentHeight :: u32
  circuitKey :: HtlcKey
  multiPath :: "mppRecord option"
  resolve :: 'r

datatype ('r, 'c) call =
    CallResolve 'r HtlcResolution
  | CallAccept 'c hash bytes

record ('r, 'c, 'q) InvoiceRegistry =
  cdb :: database
  hodlSubscriptions :: "(HtlcKey, 'r list) gomap"
  sets :: htlcSetsImpl
  autoReleaseHeap :: 'q
  subscriptions :: "'c subscriptionManager"
  calls :: "('r, 'c) call list"

text \<open>
  The inputs of one iteration: the readings of the clock at the expiry check, at the subscriber
  check, when a hold timer or an accept timer is started, when a subscriber is removed and when the
  settle request is stored, and the statements of \<open>Get\<close> and of \<open>RequestSettle\<close> that fail.
\<close>

record inputs =
  nowExpiry :: time
  nowSubscribers :: time
  nowHold :: time
  nowAccept :: time
  nowRemoved :: time
  nowSettle :: time
  getFaults :: faults
  settleFaults :: faults

datatype registryError =
    RegistryDb dbError | SettleRequestDb dbError | ErrUnexpectedUnsettled | RegistryStateless stateless_error
  | RegistryCanceled

datatype requestError = ReqInvoiceNotFound | ErrSettleRequested | ErrAutoSettling

definition NewRegistry :: "'q registryEnv \<Rightarrow> database \<Rightarrow> ('r, 'c, 'q) InvoiceRegistry" where
  "NewRegistry env db =
     \<lparr>cdb = db, hodlSubscriptions = [], sets = newHtlcSets, autoReleaseHeap = pqEmpty (heapOf env),
      subscriptions = newSubscriptionManager (GracePeriodWithoutSubscribers (cfg env)), calls = []\<rparr>"

section \<open>Callbacks\<close>

definition callResolve :: "'r \<Rightarrow> HtlcResolution \<Rightarrow> ('r, 'c, 'q) InvoiceRegistry \<Rightarrow> ('r, 'c, 'q) InvoiceRegistry" where
  "callResolve r res s = s\<lparr>calls := calls s @ [CallResolve r res]\<rparr>"

definition callAccept :: "hash \<Rightarrow> bytes \<Rightarrow> 'c \<Rightarrow> ('r, 'c, 'q) InvoiceRegistry \<Rightarrow> ('r, 'c, 'q) InvoiceRegistry" where
  "callAccept hash setID cb s = s\<lparr>calls := calls s @ [CallAccept cb hash setID]\<rparr>"

definition notifyHodlSubscribers ::
    "HtlcKey \<Rightarrow> HtlcResolution \<Rightarrow> ('r, 'c, 'q) InvoiceRegistry \<Rightarrow> ('r, 'c, 'q) InvoiceRegistry" where
  "notifyHodlSubscribers key htlcResolution s =
     (case gm_get (hodlSubscriptions s) key of
        None \<Rightarrow> s
      | Some subscribers \<Rightarrow>
          let s' = fold (\<lambda>subscriber. callResolve subscriber htlcResolution) subscribers s
          in s'\<lparr>hodlSubscriptions := gm_del key (hodlSubscriptions s')\<rparr>)"

definition hodlSubscribe :: "'r \<Rightarrow> HtlcKey \<Rightarrow> ('r, 'c, 'q) InvoiceRegistry \<Rightarrow> ('r, 'c, 'q) InvoiceRegistry" where
  "hodlSubscribe subscriber key s =
     (let subs = (case gm_get (hodlSubscriptions s) key of None \<Rightarrow> [] | Some l \<Rightarrow> l)
      in s\<lparr>hodlSubscriptions := gm_put key (subs @ [subscriber]) (hodlSubscriptions s)\<rparr>)"

section \<open>Timers\<close>

definition startAcceptTimer ::
    "'q registryEnv \<Rightarrow> time \<Rightarrow> hash \<Rightarrow> ('r, 'c, 'q) InvoiceRegistry \<Rightarrow> ('r, 'c, 'q) InvoiceRegistry" where
  "startAcceptTimer env now hash s =
     s\<lparr>autoReleaseHeap := pqPush (heapOf env) (AcceptTimeoutEvent hash (now + AcceptTimeout (cfg env))) (autoReleaseHeap s)\<rparr>"

definition startHtlcTimer ::
    "'q registryEnv \<Rightarrow> hash \<Rightarrow> HtlcKey \<Rightarrow> time \<Rightarrow> ('r, 'c, 'q) InvoiceRegistry \<Rightarrow> ('r, 'c, 'q) InvoiceRegistry" where
  "startHtlcTimer env hash key releaseTime s =
     s\<lparr>autoReleaseHeap := pqPush (heapOf env) (HtlcReleaseEvent hash releaseTime key) (autoReleaseHeap s)\<rparr>"

section \<open>Releasing HTLCs\<close>

text \<open>\<open>set.deleteAll\<close> with the callback that every caller passes: notify the subscribers of the HTLC.\<close>

definition resolveAll ::
    "'q registryEnv \<Rightarrow> htlcSetImpl \<Rightarrow> HtlcResolution \<Rightarrow> ('r, 'c, 'q) InvoiceRegistry
     \<Rightarrow> (registryError, unit) outcome \<times> ('r, 'c, 'q) InvoiceRegistry" where
  "resolveAll env st resolution s =
     (case deleteAll (crypt env) st (\<lambda>key. notifyHodlSubscribers key resolution) s (sets s) of
        (s', Ok sts) \<Rightarrow> (Ok (), s'\<lparr>sets := sts\<rparr>)
      | (s', Err _) \<Rightarrow> (Ok (), s')
      | (s', Panic m) \<Rightarrow> (Panic m, s'))"

definition cancelSingleHtlc ::
    "'q registryEnv \<Rightarrow> hash \<Rightarrow> HtlcKey \<Rightarrow> FailResolutionResult \<Rightarrow> ('r, 'c, 'q) InvoiceRegistry
     \<Rightarrow> (registryError, unit) outcome \<times> ('r, 'c, 'q) InvoiceRegistry" where
  "cancelSingleHtlc env hash key result s =
     (case setsGet (sets s) hash of
        None \<Rightarrow> (Ok (), s)
      | Some st \<Rightarrow>
          if isComplete (crypt env) st \<noteq> None then (Ok (), s)
          else (case deleteHtlc (crypt env) hash st key (sets s) of
                  Ok sts \<Rightarrow> (Ok (), notifyHodlSubscribers key (NewFailResolution result) (s\<lparr>sets := sts\<rparr>))
                | Err _ \<Rightarrow> (Ok (), s)
                | Panic m \<Rightarrow> (Panic m, s)))"

definition failInvoice ::
    "'q registryEnv \<Rightarrow> hash \<Rightarrow> ('r, 'c, 'q) InvoiceRegistry \<Rightarrow> (registryError, unit) outcome \<times> ('r, 'c, 'q) InvoiceRegistry" where
  "failInvoice env hash s =
     (case setsGet (sets s) hash of
        None \<Rightarrow> (Ok (), s)
      | Some st \<Rightarrow> resolveAll env st (NewFailResolution ResultAcceptTimeout) s)"

section \<open>Settling\<close>

definition requestSettle ::
    "'q registryEnv \<Rightarrow> htlcSetImpl \<Rightarrow> ('r, 'c, 'q) InvoiceRegistry
     \<Rightarrow> (registryError, unit) outcome \<times> ('r, 'c, 'q) InvoiceRegistry" where
  "requestSettle env st s =
     resolveAll env st (NewSettleResolution (setPreimage (params st)) ResultSettled) s"

definition markSettleRequested ::
    "'q registryEnv \<Rightarrow> inputs \<Rightarrow> htlcSetImpl \<Rightarrow> ('r, 'c, 'q) InvoiceRegistry
     \<Rightarrow> (registryError, unit) outcome \<times> ('r, 'c, 'q) InvoiceRegistry" where
  "markSettleRequested env inp st s =
     (let htlcMap = getHtlcMap st;
          invoice = \<lparr>PaymentPreimage = setPreimage (params st), Value = setValue (params st),
                     PaymentAddr = setPaymentAddr (params st)\<rparr>
      in case RequestSettle (crypt env) (settleFaults inp) (nowSettle inp) invoice htlcMap (cdb s) of
           (Ok _, db') \<Rightarrow> (Ok (), s\<lparr>cdb := db'\<rparr>)
         | (Err e, db') \<Rightarrow> (Err (SettleRequestDb e), s\<lparr>cdb := db'\<rparr>)
         | (Panic m, db') \<Rightarrow> (Panic m, s\<lparr>cdb := db'\<rparr>))"

text \<open>\<open>getAcceptedSet\<close> returns the set, a request error (\<open>Inl\<close>), or an error of the database.\<close>

definition getAcceptedSet ::
    "'q registryEnv \<Rightarrow> inputs \<Rightarrow> hash \<Rightarrow> bytes \<Rightarrow> ('r, 'c, 'q) InvoiceRegistry
     \<Rightarrow> (registryError, requestError + htlcSetImpl) outcome" where
  "getAcceptedSet env inp hash setID s =
     (case setsGet (sets s) hash of
        None \<Rightarrow>
          (case Get (getFaults inp) hash (cdb s) of
             Err e \<Rightarrow> if e = ErrInvoiceNotFound then Ok (Inl ReqInvoiceNotFound) else Err (RegistryDb e)
           | Panic m \<Rightarrow> Panic m
           | Ok (_, hs) \<Rightarrow>
               let dbSetID = newSetID (sha256 (crypt env)) (gm_keys hs)
               in if setID \<noteq> dbSetID then Ok (Inl ReqInvoiceNotFound) else Ok (Inl ErrSettleRequested))
      | Some st \<Rightarrow>
          (case isComplete (crypt env) st of
             None \<Rightarrow> Ok (Inl ReqInvoiceNotFound)
           | Some completeID \<Rightarrow> if completeID \<noteq> setID then Ok (Inl ReqInvoiceNotFound) else Ok (Inr st)))"

text \<open>The two handlers return the answer for the caller, and an error that ends the event loop.\<close>

definition handleCancelRequest ::
    "'q registryEnv \<Rightarrow> inputs \<Rightarrow> hash \<Rightarrow> bytes \<Rightarrow> ('r, 'c, 'q) InvoiceRegistry
     \<Rightarrow> (registryError, requestError option) outcome \<times> ('r, 'c, 'q) InvoiceRegistry" where
  "handleCancelRequest env inp hash setID s =
     (case getAcceptedSet env inp hash setID s of
        Err e \<Rightarrow> (Err e, s)
      | Panic m \<Rightarrow> (Panic m, s)
      | Ok (Inl requestErr) \<Rightarrow> (Ok (Some requestErr), s)
      | Ok (Inr st) \<Rightarrow>
          (case resolveAll env st (NewFailResolution ResultInvoiceNotOpen) s of
             (Ok _, s') \<Rightarrow> (Ok None, s')
           | (Err e, s') \<Rightarrow> (Err e, s')
           | (Panic m, s') \<Rightarrow> (Panic m, s')))"

definition handleSettleRequest ::
    "'q registryEnv \<Rightarrow> inputs \<Rightarrow> hash \<Rightarrow> bytes \<Rightarrow> ('r, 'c, 'q) InvoiceRegistry
     \<Rightarrow> (registryError, requestError option) outcome \<times> ('r, 'c, 'q) InvoiceRegistry" where
  "handleSettleRequest env inp hash setID s =
     (case getAcceptedSet env inp hash setID s of
        Err e \<Rightarrow> (Err e, s)
      | Panic m \<Rightarrow> (Panic m, s)
      | Ok (Inl requestErr) \<Rightarrow>
          if requestErr = ErrSettleRequested then (Ok None, s) else (Ok (Some requestErr), s)
      | Ok (Inr st) \<Rightarrow>
          if AutoSettle (cfg env) then (Ok (Some ErrAutoSettling), s)
          else (case markSettleRequested env inp st s of
                  (Err e, s') \<Rightarrow> (Err e, s')
                | (Panic m, s') \<Rightarrow> (Panic m, s')
                | (Ok _, s') \<Rightarrow>
                    (case requestSettle env st s' of
                       (Ok _, s'') \<Rightarrow> (Ok None, s'')
                     | (Err e, s'') \<Rightarrow> (Err e, s'')
                     | (Panic m, s'') \<Rightarrow> (Panic m, s''))))"

definition addAcceptSubscriber ::
    "'q registryEnv \<Rightarrow> u64 \<Rightarrow> 'c \<Rightarrow> ('r, 'c, 'q) InvoiceRegistry \<Rightarrow> ('r, 'c, 'q) InvoiceRegistry" where
  "addAcceptSubscriber env sid callback s =
     (let s' = s\<lparr>subscriptions := addAcceptSubscription sid callback (subscriptions s)\<rparr>
      in setsForEach (\<lambda>st w.
           case isComplete (crypt env) st of
             None \<Rightarrow> w
           | Some setID \<Rightarrow> callAccept (setHash (crypt env) st) setID callback w) (sets s) s')"

section \<open>Processing an HTLC\<close>

text \<open>The first result says whether the HTLC was resolved from the database.\<close>

definition resolveViaDb ::
    "inputs \<Rightarrow> 'r registryHtlc \<Rightarrow> ('r, 'c, 'q) InvoiceRegistry
     \<Rightarrow> (registryError, bool) outcome \<times> ('r, 'c, 'q) InvoiceRegistry" where
  "resolveViaDb inp h s =
     (case Get (getFaults inp) (rHash h) (cdb s) of
        Err e \<Rightarrow> if e = ErrInvoiceNotFound then (Ok False, s) else (Err (RegistryDb e), s)
      | Panic m \<Rightarrow> (Panic m, s)
      | Ok (dbInv, hs) \<Rightarrow>
          if length hs = 0 then (Err ErrUnexpectedUnsettled, s)
          else if gm_get hs (circuitKey h) \<noteq> None
            then (Ok True, callResolve (resolve h)
                    (NewSettleResolution (PaymentPreimage (invCreation dbInv)) ResultReplayToSettled) s)
          else (Ok True, callResolve (resolve h) (NewFailResolution ResultInvoiceNotOpen) s))"

text \<open>
  \<open>process\<close> is one function of the source; it is written as three that call each other in the same
  order. The last part (from the subscriber check on) accepts the HTLC: it gets the set in which the
  HTLC was recorded, subscribes, starts a timer and settles in auto-settle mode.
\<close>

definition processAccepted ::
    "'q registryEnv \<Rightarrow> inputs \<Rightarrow> 'r registryHtlc \<Rightarrow> statelessData \<Rightarrow> htlcSetImpl \<Rightarrow> ('r, 'c, 'q) InvoiceRegistry
     \<Rightarrow> (registryError, unit) outcome \<times> ('r, 'c, 'q) InvoiceRegistry" where
  "processAccepted env inp h sd st s =
     (let s1 = hodlSubscribe (resolve h) (circuitKey h) s in
      case isComplete (crypt env) st of
        None \<Rightarrow>
          let releaseTime = nowHold inp + HtlcHoldDuration (cfg env);
              releaseTime' = (if releaseTime > sdExpiry sd then sdExpiry sd else releaseTime)
          in (Ok (), startHtlcTimer env (rHash h) (circuitKey h) releaseTime' s1)
      | Some setID \<Rightarrow>
          let s2 = startAcceptTimer env (nowAccept inp) (rHash h) s1;
              s3 = notifySubscribers (callAccept (rHash h) setID) (subscriptions s2) s2
          in if AutoSettle (cfg env)
             then (case markSettleRequested env inp st s3 of
                     (Ok _, s4) \<Rightarrow> requestSettle env st s4
                   | (Err e, s4) \<Rightarrow> (Err e, s4)
                   | (Panic m, s4) \<Rightarrow> (Panic m, s4))
             else (Ok (), s3))"

definition processOpen ::
    "'q registryEnv \<Rightarrow> inputs \<Rightarrow> 'r registryHtlc \<Rightarrow> mppRecord \<Rightarrow> statelessData \<Rightarrow> ('r, 'c, 'q) InvoiceRegistry
     \<Rightarrow> (registryError, unit) outcome \<times> ('r, 'c, 'q) InvoiceRegistry" where
  "processOpen env inp h mpp sd s =
     (let found = setsGet (sets s) (rHash h);
          setTotal = (case found of None \<Rightarrow> 0 | Some st \<Rightarrow> totalSetAmt st);
          newSetTotal = setTotal + amtPaid h;
          fail = (\<lambda>reason. (Ok (), callResolve (resolve h) (NewFailResolution reason) s))
      in if (case found of None \<Rightarrow> False | Some st \<Rightarrow> accepted st (circuitKey h))
           then (Ok (), hodlSubscribe (resolve h) (circuitKey h) s)
         else if sdExpiry sd < nowExpiry inp then fail ResultInvoiceExpired
         else if newSetTotal > mppTotalMsat mpp then fail ResultHtlcSetOverpayment
         else if htlcExpiry h < currentHeight h + FinalCltvRejectDelta (cfg env) then fail ResultExpiryTooSoon
         else (case found of
                 None \<Rightarrow>
                   if \<not> AutoSettle (cfg env) \<and> \<not> hasRecentSubscribers (nowSubscribers inp) (subscriptions s)
                   then fail ResultNoAcceptSubscriber
                   else (case setsAdd (crypt env)
                                \<lparr>setPreimage = sdPreimage sd, setValue = sdAmtMsat sd, setPaymentAddr = mppPaymentAddr mpp\<rparr>
                                (circuitKey h) (amtPaid h) (sets s) of
                           Ok (sts, st) \<Rightarrow> processAccepted env inp h sd st (s\<lparr>sets := sts\<rparr>)
                         | Err _ \<Rightarrow> (Ok (), s)
                         | Panic m \<Rightarrow> (Panic m, s))
               | Some st \<Rightarrow>
                   (case addHtlc (circuitKey h) (amtPaid h) st of
                      Ok st' \<Rightarrow> processAccepted env inp h sd st' (s\<lparr>sets := gm_put (rHash h) st' (sets s)\<rparr>)
                    | Err _ \<Rightarrow> (Ok (), s)
                    | Panic m \<Rightarrow> (Panic m, s))))"

definition process ::
    "'q registryEnv \<Rightarrow> inputs \<Rightarrow> 'r registryHtlc \<Rightarrow> ('r, 'c, 'q) InvoiceRegistry
     \<Rightarrow> (registryError, unit) outcome \<times> ('r, 'c, 'q) InvoiceRegistry" where
  "process env inp h s =
     (case resolveViaDb inp h s of
        (Err e, s') \<Rightarrow> (Err e, s')
      | (Panic m, s') \<Rightarrow> (Panic m, s')
      | (Ok True, s') \<Rightarrow> (Ok (), s')
      | (Ok False, s') \<Rightarrow>
          let fail = (\<lambda>reason. (Ok (), callResolve (resolve h) (NewFailResolution reason) s'))
          in case multiPath h of
               None \<Rightarrow> fail ResultHtlcInvoiceTypeMismatch
             | Some mpp \<Rightarrow>
                 if mppTotalMsat mpp = 0 then fail ResultHtlcSetTotalTooLow
                 else (case decodeStatelessData (crypt env) (PrivKey (cfg env)) (mppPaymentAddr mpp) of
                         Err e \<Rightarrow> (Err (RegistryStateless e), s')
                       | Panic m \<Rightarrow> (Panic m, s')
                       | Ok sd \<Rightarrow>
                           if preimageHash (crypt env) (sdPreimage sd) \<noteq> rHash h then fail ResultAddressMismatch
                           else if mppTotalMsat mpp \<noteq> sdAmtMsat sd then fail ResultHtlcSetTotalMismatch
                           else processOpen env inp h mpp sd s'))"

section \<open>The event loop\<close>

text \<open>
  What the \<open>select\<close> of \<open>invoiceEventLoop\<close> can receive. A release tick can fire only when the heap is
  not empty (a nil channel otherwise) and the time of its top has come.
\<close>

datatype ('r, 'c) event =
    ReleaseTick time
  | NewHtlc "'r registryHtlc"
  | NewSubscription u64 'c
  | CancelSubscription u64
  | SettleReq hash bytes
  | CancelReq hash bytes
  | ContextDone

datatype loopResult =
    Continue "requestError option option"
  | Return "registryError option"
  | Crash string

definition canReceive :: "'q registryEnv \<Rightarrow> ('r, 'c) event \<Rightarrow> ('r, 'c, 'q) InvoiceRegistry \<Rightarrow> bool" where
  "canReceive env ev s =
     (case ev of
        ReleaseTick now \<Rightarrow>
          0 < pqLen (heapOf env) (autoReleaseHeap s) \<and> getReleaseTime (pqTop (heapOf env) (autoReleaseHeap s)) \<le> now
      | _ \<Rightarrow> True)"

definition handleTick ::
    "'q registryEnv \<Rightarrow> ('r, 'c, 'q) InvoiceRegistry \<Rightarrow> (registryError, unit) outcome \<times> ('r, 'c, 'q) InvoiceRegistry" where
  "handleTick env s =
     (let (head, heap') = pqPop (heapOf env) (autoReleaseHeap s);
          s' = s\<lparr>autoReleaseHeap := heap'\<rparr>
      in case head of
           HtlcReleaseEvent hash _ key \<Rightarrow> cancelSingleHtlc env hash key ResultMppTimeout s'
         | AcceptTimeoutEvent hash _ \<Rightarrow> failInvoice env hash s')"

fun invoiceEventLoop_step ::
    "'q registryEnv \<Rightarrow> inputs \<Rightarrow> ('r, 'c) event \<Rightarrow> ('r, 'c, 'q) InvoiceRegistry
     \<Rightarrow> loopResult \<times> ('r, 'c, 'q) InvoiceRegistry" where
  "invoiceEventLoop_step env inp (ReleaseTick _) s =
     (case handleTick env s of
        (Ok _, s') \<Rightarrow> (Continue None, s') | (Err e, s') \<Rightarrow> (Return (Some e), s') | (Panic m, s') \<Rightarrow> (Crash m, s'))"
| "invoiceEventLoop_step env inp (NewHtlc h) s =
     (case process env inp h s of
        (Ok _, s') \<Rightarrow> (Continue None, s') | (Err e, s') \<Rightarrow> (Continue None, s') | (Panic m, s') \<Rightarrow> (Crash m, s'))"
| "invoiceEventLoop_step env inp (NewSubscription sid cb) s =
     (Continue None, addAcceptSubscriber env sid cb s)"
| "invoiceEventLoop_step env inp (CancelSubscription sid) s =
     (Continue None, s\<lparr>subscriptions := deleteAcceptSubscription (nowRemoved inp) sid (subscriptions s)\<rparr>)"
| "invoiceEventLoop_step env inp (SettleReq hash setID) s =
     (case handleSettleRequest env inp hash setID s of
        (Ok r, s') \<Rightarrow> (Continue (Some r), s') | (Err e, s') \<Rightarrow> (Return (Some e), s') | (Panic m, s') \<Rightarrow> (Crash m, s'))"
| "invoiceEventLoop_step env inp (CancelReq hash setID) s =
     (case handleCancelRequest env inp hash setID s of
        (Ok r, s') \<Rightarrow> (Continue (Some r), s') | (Err e, s') \<Rightarrow> (Return (Some e), s') | (Panic m, s') \<Rightarrow> (Crash m, s'))"
| "invoiceEventLoop_step env inp ContextDone s = (Return (Some RegistryCanceled), s)"

text \<open>
  \<open>SubscribeAccept\<close> draws the subscriber's id before the loop receives it. The requests that other
  goroutines send are answered by the loop, or with \<open>ErrShuttingDown\<close> once \<open>quit\<close> is closed: the
  argument says whether the loop received the request, and what it answered.
\<close>

definition SubscribeAccept ::
    "('r, 'c, 'q) InvoiceRegistry \<Rightarrow> u64 \<times> ('r, 'c, 'q) InvoiceRegistry" where
  "SubscribeAccept s =
     (let (sid, m) = generateSubscriptionId (subscriptions s) in (sid, s\<lparr>subscriptions := m\<rparr>))"

datatype apiError = ApiRequest requestError | ErrShuttingDown

definition awaitAnswer :: "bool \<Rightarrow> requestError option option \<Rightarrow> (apiError, unit) outcome" where
  "awaitAnswer received answer =
     (if \<not> received then Err ErrShuttingDown
      else case answer of
             None \<Rightarrow> Err ErrShuttingDown
           | Some None \<Rightarrow> Ok ()
           | Some (Some e) \<Rightarrow> Err (ApiRequest e))"

end
