(* ===== verification/Sha256.thy ===== *)
theory Sha256
  imports Stateless_Data
begin

text \<open>
  SHA-256 (FIPS 180-4) and HMAC (RFC 2104), as \<open>crypto/sha256\<close> and \<open>crypto/hmac\<close> of the Go
  standard library compute them, and the instance \<open>goCrypto\<close> of the functions the program calls.
  The interpretation shows that the instance has the properties the other theories rely on.
\<close>

section \<open>SHA-256\<close>

text \<open>
  The constants are fractional bits of roots of the first primes: \<open>rootBits k b n r\<close> searches bit by bit,
  from bit \<open>b\<close> down, for the largest number whose \<open>k\<close>-th power is at most \<open>n\<close>.
\<close>

fun rootBits :: "nat \<Rightarrow> nat \<Rightarrow> nat \<Rightarrow> nat \<Rightarrow> nat" where
  "rootBits k 0 n r = r"
| "rootBits k (Suc b) n r = rootBits k b n (if (r + 2 ^ b) ^ k \<le> n then r + 2 ^ b else r)"

definition rootFraction :: "nat \<Rightarrow> nat \<Rightarrow> u32" where
  "rootFraction k p = of_nat (rootBits k 40 (p * 2 ^ (32 * k)) 0)"

definition firstPrimes :: "nat list" where
  "firstPrimes = filter (\<lambda>p. \<forall>d \<in> set [2..<p]. p mod d \<noteq> 0) [2..<312]"

definition shaK :: "u32 list" where
  "shaK = map (rootFraction 3) firstPrimes"

type_synonym shaState = "u32 \<times> u32 \<times> u32 \<times> u32 \<times> u32 \<times> u32 \<times> u32 \<times> u32"

definition shaInit :: shaState where
  "shaInit = (rootFraction 2 2, rootFraction 2 3, rootFraction 2 5, rootFraction 2 7, rootFraction 2 11, rootFraction 2 13,
     rootFraction 2 17, rootFraction 2 19)"

definition rotr :: "nat \<Rightarrow> u32 \<Rightarrow> u32" where
  "rotr n x = drop_bit n x OR push_bit (32 - n) x"

definition bigSigma0 :: "u32 \<Rightarrow> u32" where
  "bigSigma0 x = rotr 2 x XOR rotr 13 x XOR rotr 22 x"

definition bigSigma1 :: "u32 \<Rightarrow> u32" where
  "bigSigma1 x = rotr 6 x XOR rotr 11 x XOR rotr 25 x"

definition smallSigma0 :: "u32 \<Rightarrow> u32" where
  "smallSigma0 x = rotr 7 x XOR rotr 18 x XOR drop_bit 3 x"

definition smallSigma1 :: "u32 \<Rightarrow> u32" where
  "smallSigma1 x = rotr 17 x XOR rotr 19 x XOR drop_bit 10 x"

definition shaCh :: "u32 \<Rightarrow> u32 \<Rightarrow> u32 \<Rightarrow> u32" where
  "shaCh x y z = (x AND y) XOR (NOT x AND z)"

definition shaMaj :: "u32 \<Rightarrow> u32 \<Rightarrow> u32 \<Rightarrow> u32" where
  "shaMaj x y z = (x AND y) XOR (x AND z) XOR (y AND z)"

text \<open>
  The message schedule keeps the last sixteen words; each step emits the first and appends the
  next one.
\<close>

fun shaSchedule :: "nat \<Rightarrow> u32 list \<Rightarrow> u32 list" where
  "shaSchedule 0 ws = ws"
| "shaSchedule (Suc n) ws =
     hd ws # shaSchedule n (tl ws @ [smallSigma1 (ws ! 14) + ws ! 9 + smallSigma0 (ws ! 1) + ws ! 0])"

fun shaRound :: "shaState \<Rightarrow> u32 \<times> u32 \<Rightarrow> shaState" where
  "shaRound (a, b, c, d, e, f, g, h) (k, w) =
     (let t1 = h + bigSigma1 e + shaCh e f g + k + w;
          t2 = bigSigma0 a + shaMaj a b c
      in (t1 + t2, a, b, c, d + t1, e, f, g))"

fun shaAdd :: "shaState \<Rightarrow> shaState \<Rightarrow> shaState" where
  "shaAdd (a, b, c, d, e, f, g, h) (a', b', c', d', e', f', g', h') =
     (a + a', b + b', c + c', d + d', e + e', f + f', g + g', h + h')"

fun shaWords :: "bytes \<Rightarrow> u32 list" where
  "shaWords (b0 # b1 # b2 # b3 # bs) =
     (push_bit 24 (ucast b0) OR push_bit 16 (ucast b1) OR push_bit 8 (ucast b2) OR ucast b3) # shaWords bs"
| "shaWords _ = []"

definition shaBlock :: "shaState \<Rightarrow> bytes \<Rightarrow> shaState" where
  "shaBlock s block = shaAdd s (foldl shaRound s (zip shaK (shaSchedule 48 (shaWords block))))"

definition shaPad :: "bytes \<Rightarrow> bytes" where
  "shaPad b = b @ [0x80] @ replicate ((119 - length b mod 64) mod 64) 0 @ put_uint64 (of_nat (8 * length b))"

function shaBlocks :: "shaState \<Rightarrow> bytes \<Rightarrow> shaState" where
  "shaBlocks s b = (if b = [] then s else shaBlocks (shaBlock s (take 64 b)) (drop 64 b))"
  by pat_completeness auto
termination
  by (relation "measure (\<lambda>(s, b). length b)") auto

declare shaBlocks.simps [simp del]

definition wordBytes :: "u32 \<Rightarrow> bytes" where
  "wordBytes w = [ucast (drop_bit 24 w), ucast (drop_bit 16 w), ucast (drop_bit 8 w), ucast w]"

fun shaOut :: "shaState \<Rightarrow> bytes" where
  "shaOut (a, b, c, d, e, f, g, h) =
     wordBytes a @ wordBytes b @ wordBytes c @ wordBytes d @ wordBytes e @ wordBytes f @ wordBytes g @ wordBytes h"

definition goSha256 :: "bytes \<Rightarrow> bytes" where
  "goSha256 b = shaOut (shaBlocks shaInit (shaPad b))"

lemma length_shaOut [simp]: "length (shaOut s) = 32"
  by (cases s rule: shaOut.cases) (simp add: wordBytes_def)

lemma length_goSha256 [simp]: "length (goSha256 b) = 32"
  by (simp add: goSha256_def)

section \<open>HMAC\<close>

definition hmacKey :: "bytes \<Rightarrow> bytes" where
  "hmacKey k = (let k' = (if length k > 64 then goSha256 k else k) in k' @ replicate (64 - length k') 0)"

definition goHmac :: "bytes \<Rightarrow> bytes \<Rightarrow> bytes" where
  "goHmac k b =
     goSha256 (map (\<lambda>x. x XOR 0x5c) (hmacKey k) @ goSha256 (map (\<lambda>x. x XOR 0x36) (hmacKey k) @ b))"

section \<open>The instance\<close>

definition goCrypto :: crypto where
  "goCrypto = \<lparr>sha256 = goSha256, hmac = goHmac, preimageHash = goSha256,
     makePreimage = (\<lambda>b. if length b = 32 then Some b else None),
     makeHash = (\<lambda>b. if length b = 32 then Some b else None)\<rparr>"

interpretation go: crypto_laws goCrypto
  by unfold_locales (simp_all add: goCrypto_def goHmac_def)

end
