(* ===== verification/Invoice_Lifecycle.thy ===== *)
theory Invoice_Lifecycle
  imports Persistence Sha256
begin

text \<open>
  The life of a stored invoice. The abstract specification is the function \<open>lifecycle\<close>: the
  status of an invoice is determined by the statuses of its HTLCs. The invariant of the tables
  says that the stored status is that function's value; the operations of \<open>persistence/pg.go\<close>
  keep it, and an invoice reaches its final status once.
\<close>

section \<open>What \<open>MarkHtlcFinal\<close> does\<close>

definition updHtlc :: "HtlcKey \<Rightarrow> bool \<Rightarrow> time \<Rightarrow> dbHtlc \<Rightarrow> dbHtlc" where
  "updHtlc key settled now h =
     (if dhKey h = key \<and> dhStatus h = HtlcStatusSettleRequested
      then h\<lparr>dhStatus := (if settled then HtlcStatusSettled else HtlcStatusFailed), dhFinalizedAt := Some now\<rparr>
      else h)"

definition updInvoice :: "hash \<Rightarrow> bool \<Rightarrow> time \<Rightarrow> dbInvoice \<Rightarrow> dbInvoice" where
  "updInvoice hash settled now i =
     (if diHash i = hash \<and> diStatus i = InvoiceStatusSettleRequested
      then i\<lparr>diStatus := (if settled then InvoiceStatusSettled else InvoiceStatusFailed), diFinalizedAt := Some now\<rparr>
      else i)"

definition pendingIn :: "hash \<Rightarrow> dbHtlc list \<Rightarrow> bool" where
  "pendingIn hash hs = (\<exists>h \<in> set hs. dhHash h = hash \<and> dhStatus h = HtlcStatusSettleRequested)"

lemma updHtlc_sel [simp]:
  "dhKey (updHtlc key settled now h) = dhKey h" "dhHash (updHtlc key settled now h) = dhHash h"
  "dhAmountMsat (updHtlc key settled now h) = dhAmountMsat h"
  by (simp_all add: updHtlc_def)

lemma updInvoice_sel [simp]:
  "diHash (updInvoice hash settled now i) = diHash i" "diPreimage (updInvoice hash settled now i) = diPreimage i"
  "diAmountMsat (updInvoice hash settled now i) = diAmountMsat i"
  "diSequenceNum (updInvoice hash settled now i) = diSequenceNum i"
  by (simp_all add: updInvoice_def)

lemma finalizeHTLC_Ok:
  "finalizeHTLC f key settled now tx = (Ok u, tx') \<longleftrightarrow>
     \<not> f UpdateHtlc \<and> (\<exists>h \<in> set (htlcTable tx). dhKey h = key \<and> dhStatus h = HtlcStatusSettleRequested) \<and>
     tx' = tx\<lparr>htlcTable := map (updHtlc key settled now) (htlcTable tx)\<rparr>"
  unfolding finalizeHTLC_def Let_def updHtlc_def by (auto simp: filter_empty_conv)

lemma finalizeInvoice_Ok:
  "finalizeInvoice f hash settled now tx = (Ok u, tx') \<longleftrightarrow>
     \<not> f UpdateInvoice \<and> (\<exists>i \<in> set (invoiceTable tx). diHash i = hash \<and> diStatus i = InvoiceStatusSettleRequested) \<and>
     tx' = tx\<lparr>invoiceTable := map (updInvoice hash settled now) (invoiceTable tx)\<rparr>"
  unfolding finalizeInvoice_def Let_def updInvoice_def by (auto simp: filter_empty_conv)

lemma allHtlcsAreSettled_Ok:
  "allHtlcsAreSettled f hash tx = Ok b \<longleftrightarrow> \<not> f CountHtlcs \<and> b = (\<not> pendingIn hash (htlcTable tx))"
  by (auto simp: allHtlcsAreSettled_def pendingIn_def filter_empty_conv)

lemma selectInvoiceForUpdate_Ok:
  "selectInvoiceForUpdate f key tx = Ok i \<longleftrightarrow>
     \<not> f SelectHtlc \<and> \<not> f SelectInvoice \<and> (\<exists>h. findHtlc key tx = Some h \<and> findInvoice (dhHash h) tx = Some i)"
  by (auto simp: selectInvoiceForUpdate_def getHtlcHash_def split: option.splits outcome.splits)

lemma findInvoice_hash: "findInvoice hash db = Some i \<Longrightarrow> diHash i = hash \<and> i \<in> set (invoiceTable db)"
  by (auto simp: findInvoice_def find_Some_iff)

lemma findHtlc_key: "findHtlc key db = Some h \<Longrightarrow> dhKey h = key \<and> h \<in> set (htlcTable db)"
  by (auto simp: findHtlc_def find_Some_iff)

lemma MarkHtlcFinal_Ok:
  assumes "MarkHtlcFinal f now key settled db = (Ok r, db')"
  shows "\<exists>h i. findHtlc key db = Some h \<and> findInvoice (dhHash h) db = Some i \<and>
    diStatus i \<noteq> InvoiceStatusSettled \<and>
    (\<exists>x \<in> set (htlcTable db). dhKey x = key \<and> dhStatus x = HtlcStatusSettleRequested) \<and>
    htlcTable db' = map (updHtlc key settled now) (htlcTable db) \<and> nextSeq db' = nextSeq db \<and>
    (if diStatus i = InvoiceStatusFailed \<or> settled \<and> pendingIn (dhHash h) (htlcTable db')
     then r = None \<and> invoiceTable db' = invoiceTable db
     else r = Some (dhHash h) \<and> invoiceTable db' = map (updInvoice (dhHash h) settled now) (invoiceTable db))"
proof -
  note body = runInTransaction_Ok [OF assms [unfolded MarkHtlcFinal_def], THEN conjunct1]
  then obtain i where sel: "selectInvoiceForUpdate f key db = Ok i"
    by (auto split: outcome.splits)
  then obtain h where h: "findHtlc key db = Some h" "findInvoice (dhHash h) db = Some i"
    by (auto simp: selectInvoiceForUpdate_Ok)
  note hash = findInvoice_hash [OF h(2)]
  from body sel have st: "diStatus i \<noteq> InvoiceStatusSettled" by (auto split: if_splits)
  with body sel obtain u tx where fin: "finalizeHTLC f key settled now db = (Ok u, tx)"
    by (auto split: if_splits outcome.splits prod.splits)
  note tx = fin [unfolded finalizeHTLC_Ok]
  show ?thesis
  proof (cases "diStatus i = InvoiceStatusFailed \<or> settled \<and> pendingIn (dhHash h) (htlcTable tx)")
    case True
    with body sel st fin hash have "r = None \<and> db' = tx"
      by (auto simp: Let_def allHtlcsAreSettled_Ok split: if_splits outcome.splits)
    with h st tx True show ?thesis by simp
  next
    case False
    with body sel st fin hash obtain u'
      where "finalizeInvoice f (dhHash h) settled now tx = (Ok u', db')" and "r = Some (dhHash h)"
      by (cases settled) (auto simp: Let_def allHtlcsAreSettled_Ok split: if_splits outcome.splits prod.splits)
    with h st tx False show ?thesis by (auto simp: finalizeInvoice_Ok)
  qed
qed

lemma MarkHtlcFinal_not_Ok:
  assumes "MarkHtlcFinal f now key settled db = (r, db')" and "\<And>u. r \<noteq> Ok u"
  shows "sameTables db db'"
proof (rule runInTransaction_not_Ok [OF assms(1) [unfolded MarkHtlcFinal_def] assms(2)])
qed (auto simp: Let_def finalizeHTLC_def finalizeInvoice_def split: if_splits outcome.splits prod.splits)

section \<open>The status as a function of the HTLCs\<close>

definition lifecycle :: "HtlcStatus list \<Rightarrow> InvoiceStatus" where
  "lifecycle sts =
     (if HtlcStatusFailed \<in> set sts then InvoiceStatusFailed
      else if HtlcStatusSettleRequested \<in> set sts then InvoiceStatusSettleRequested
      else InvoiceStatusSettled)"

definition invoiceOk :: "crypto \<Rightarrow> database \<Rightarrow> dbInvoice \<Rightarrow> bool" where
  "invoiceOk cr db i =
     (preimageHash cr (diPreimage i) = diHash i \<and> htlcsOf (diHash i) db \<noteq> [] \<and>
      diStatus i = lifecycle (map dhStatus (htlcsOf (diHash i) db)) \<and> diSequenceNum i < nextSeq db)"

definition db_inv :: "crypto \<Rightarrow> database \<Rightarrow> bool" where
  "db_inv cr db =
     (distinct (map diHash (invoiceTable db)) \<and> distinct (map diSequenceNum (invoiceTable db)) \<and>
      distinct (map dhKey (htlcTable db)) \<and>
      (\<forall>h \<in> set (htlcTable db). dhHash h \<in> diHash ` set (invoiceTable db)) \<and>
      (\<forall>i \<in> set (invoiceTable db). invoiceOk cr db i))"

lemma db_inv_empty: "db_inv cr emptyDb"
  by (simp add: db_inv_def emptyDb_def)

lemma db_inv_same: "db_inv cr db \<Longrightarrow> sameTables db db' \<Longrightarrow> db_inv cr db'"
  by (auto simp: db_inv_def sameTables_def invoiceOk_def htlcsOf_def)

lemma db_inv_invoice_unique:
  "db_inv cr db \<Longrightarrow> i \<in> set (invoiceTable db) \<Longrightarrow> j \<in> set (invoiceTable db) \<Longrightarrow> diHash i = diHash j \<Longrightarrow> i = j"
  by (simp add: db_inv_def distinct_map inj_on_def)

lemma db_inv_htlc_unique:
  "db_inv cr db \<Longrightarrow> x \<in> set (htlcTable db) \<Longrightarrow> y \<in> set (htlcTable db) \<Longrightarrow> dhKey x = dhKey y \<Longrightarrow> x = y"
  by (simp add: db_inv_def distinct_map inj_on_def)

lemma findInvoice_None: "findInvoice hash db = None \<longleftrightarrow> hash \<notin> diHash ` set (invoiceTable db)"
  by (auto simp: findInvoice_def find_None_iff)

lemma findHtlc_None: "findHtlc key db = None \<longleftrightarrow> key \<notin> dhKey ` set (htlcTable db)"
  by (auto simp: findHtlc_def find_None_iff)

lemma settledDb_sel:
  "nextSeq (settledDb cr now invoice hs db) = Suc (nextSeq db)"
  "invoiceTable (settledDb cr now invoice hs db) = invoiceTable db @ [newInvoiceRow cr now (nextSeq db) invoice]"
  "htlcTable (settledDb cr now invoice hs db) =
     htlcTable db @ map (newHtlcRow now (preimageHash cr (PaymentPreimage invoice))) hs"
  by (simp_all add: settledDb_def)

lemma lifecycle_new: "hs \<noteq> [] \<Longrightarrow> lifecycle (map dhStatus (map (newHtlcRow now hash) hs)) = InvoiceStatusSettleRequested"
  by (cases hs) (auto simp: lifecycle_def)

lemma htlcsOf_settledDb:
  assumes "db_inv cr db" and "invoiceInsertable cr invoice db"
  shows "htlcsOf hash (settledDb cr now invoice hs db) =
    (if hash = preimageHash cr (PaymentPreimage invoice) then map (newHtlcRow now hash) hs else htlcsOf hash db)"
proof -
  let ?h = "preimageHash cr (PaymentPreimage invoice)"
  have "?h \<notin> diHash ` set (invoiceTable db)"
    using assms(2) by (auto simp: invoiceInsertable_def findInvoice_None)
  then have old: "filter (\<lambda>h. dhHash h = ?h) (htlcTable db) = []"
    using assms(1) by (simp add: db_inv_def filter_empty_conv) metis
  have new: "filter (\<lambda>h. dhHash h = hash) (map (newHtlcRow now ?h) hs) =
      (if hash = ?h then map (newHtlcRow now hash) hs else [])"
    by (induction hs) auto
  show ?thesis using old new by (auto simp: htlcsOf_def settledDb_def)
qed

lemma db_inv_settledDb:
  assumes inv: "db_inv cr db" and ii: "invoiceInsertable cr invoice db" and hi: "htlcsInsertable hs db"
    and ne: "hs \<noteq> []"
  shows "db_inv cr (settledDb cr now invoice hs db)"
proof -
  let ?h = "preimageHash cr (PaymentPreimage invoice)"
  let ?db = "settledDb cr now invoice hs db"
  note of = htlcsOf_settledDb [OF inv ii, of _ now hs]
  have h: "?h \<notin> diHash ` set (invoiceTable db)"
    using ii by (auto simp: invoiceInsertable_def findInvoice_None)
  have keys: "distinct (map dhKey (htlcTable ?db))"
  proof -
    have "set (map dhKey (htlcTable db)) \<inter> fst ` set hs = {}"
      using hi by (fastforce simp: htlcsInsertable_def findHtlc_None)
    with inv hi show ?thesis
      by (simp add: db_inv_def settledDb_def htlcsInsertable_def comp_def)
  qed
  have seqs: "nextSeq db \<notin> diSequenceNum ` set (invoiceTable db)"
    using inv by (auto simp: db_inv_def invoiceOk_def)
  have "invoiceOk cr ?db (newInvoiceRow cr now (nextSeq db) invoice)"
    using ne lifecycle_new [OF ne] by (simp add: invoiceOk_def of settledDb_sel)
  moreover have "invoiceOk cr ?db i" if "i \<in> set (invoiceTable db)" for i
  proof -
    have "invoiceOk cr db i" using inv that by (simp add: db_inv_def)
    moreover have "diHash i \<noteq> ?h" using that h by (metis image_eqI)
    ultimately show ?thesis by (simp add: invoiceOk_def of settledDb_sel)
  qed
  ultimately show ?thesis
    using inv h keys seqs by (auto simp: db_inv_def settledDb_sel)
qed

text \<open>A settle request with at least one HTLC keeps the invariant, whatever fails.\<close>

lemma RequestSettle_inv:
  assumes "db_inv cr db" and "hs \<noteq> []" and "RequestSettle cr f now invoice hs db = (r, db')"
  shows "db_inv cr db'"
proof (cases "\<exists>u. r = Ok u")
  case True
  with assms db_inv_settledDb show ?thesis by (auto simp: RequestSettle_Ok)
next
  case False
  with assms RequestSettle_not_Ok db_inv_same show ?thesis by metis
qed

lemma htlcsOf_upd:
  "htlcTable db' = map (updHtlc key settled now) (htlcTable db) \<Longrightarrow>
     htlcsOf hash db' = map (updHtlc key settled now) (htlcsOf hash db)"
  by (auto simp: htlcsOf_def filter_map comp_def)

lemma pendingIn_htlcsOf: "pendingIn hash (htlcTable db) \<longleftrightarrow> HtlcStatusSettleRequested \<in> dhStatus ` set (htlcsOf hash db)"
  by (force simp: pendingIn_def htlcsOf_def)

lemma htlcsOf_key: "h \<in> set (htlcsOf hash db) \<longleftrightarrow> h \<in> set (htlcTable db) \<and> dhHash h = hash"
  by (auto simp: htlcsOf_def)

lemma updHtlc_other:
  "db_inv cr db \<Longrightarrow> findHtlc key db = Some h \<Longrightarrow> hash \<noteq> dhHash h \<Longrightarrow>
     map (updHtlc key settled now) (htlcsOf hash db) = htlcsOf hash db"
proof (rule map_idI)
  fix x assume inv: "db_inv cr db" and h: "findHtlc key db = Some h" "hash \<noteq> dhHash h" and x: "x \<in> set (htlcsOf hash db)"
  have "dhKey x \<noteq> key"
  proof
    assume "dhKey x = key"
    with findHtlc_key [OF h(1)] x have "x = h"
      using db_inv_htlc_unique [OF inv] by (auto simp: htlcsOf_key)
    with x h(2) show False by (simp add: htlcsOf_key)
  qed
  then show "updHtlc key settled now x = x" by (simp add: updHtlc_def)
qed

lemma lifecycle_upd:
  assumes inv: "db_inv cr db" and h: "findHtlc key db = Some h" and i: "findInvoice (dhHash h) db = Some i"
    and ok: "(\<exists>x \<in> set (htlcTable db). dhKey x = key \<and> dhStatus x = HtlcStatusSettleRequested)"
    and st: "diStatus i \<noteq> InvoiceStatusSettled"
  shows "lifecycle (map dhStatus (map (updHtlc key settled now) (htlcsOf (dhHash h) db))) =
    (if diStatus i = InvoiceStatusFailed then InvoiceStatusFailed
     else if \<not> settled then InvoiceStatusFailed
     else if HtlcStatusSettleRequested \<in> dhStatus ` updHtlc key settled now ` set (htlcsOf (dhHash h) db)
       then InvoiceStatusSettleRequested
     else InvoiceStatusSettled)"
proof -
  let ?hs = "htlcsOf (dhHash h) db"
  have life: "diStatus i = lifecycle (map dhStatus ?hs)"
    using inv i findInvoice_hash [OF i] by (auto simp: db_inv_def invoiceOk_def)
  have mem: "h \<in> set ?hs" "dhKey h = key" "h \<in> set (htlcTable db)"
    using findHtlc_key [OF h] by (auto simp: htlcsOf_key)
  from ok mem inv have pend: "dhStatus h = HtlcStatusSettleRequested"
    using db_inv_htlc_unique [OF inv] by metis
  have upd: "dhStatus (updHtlc key settled now x) =
      (if dhKey x = key \<and> dhStatus x = HtlcStatusSettleRequested
       then (if settled then HtlcStatusSettled else HtlcStatusFailed) else dhStatus x)" for x
    by (simp add: updHtlc_def)
  have failed: "HtlcStatusFailed \<in> set (map dhStatus (map (updHtlc key settled now) ?hs)) \<longleftrightarrow>
      HtlcStatusFailed \<in> set (map dhStatus ?hs) \<or> \<not> settled"
    using mem pend by (auto simp: upd image_iff split: if_splits)
  show ?thesis
    using failed life st by (auto simp: lifecycle_def image_image split: if_splits)
qed

text \<open>Recording the final resolution of an HTLC keeps the invariant, whatever fails.\<close>

lemma MarkHtlcFinal_inv_Ok:
  assumes inv: "db_inv cr db" and op: "MarkHtlcFinal f now key settled db = (Ok r, db')"
  shows "db_inv cr db'"
proof -
  from MarkHtlcFinal_Ok [OF op] obtain h i where
    h: "findHtlc key db = Some h" and i: "findInvoice (dhHash h) db = Some i" and
    st: "diStatus i \<noteq> InvoiceStatusSettled" and
    pend: "\<exists>x \<in> set (htlcTable db). dhKey x = key \<and> dhStatus x = HtlcStatusSettleRequested" and
    ht: "htlcTable db' = map (updHtlc key settled now) (htlcTable db)" and sq: "nextSeq db' = nextSeq db" and
    res: "if diStatus i = InvoiceStatusFailed \<or> settled \<and> pendingIn (dhHash h) (htlcTable db')
     then r = None \<and> invoiceTable db' = invoiceTable db
     else r = Some (dhHash h) \<and> invoiceTable db' = map (updInvoice (dhHash h) settled now) (invoiceTable db)"
    by blast
  note upd = lifecycle_upd [OF inv h i pend st, of settled now]
  have pi: "pendingIn (dhHash h) (htlcTable db') \<longleftrightarrow>
      HtlcStatusSettleRequested \<in> dhStatus ` updHtlc key settled now ` set (htlcsOf (dhHash h) db)"
    by (simp add: pendingIn_htlcsOf htlcsOf_upd [OF ht])
  let ?g = "if r = None then id else updInvoice (dhHash h) settled now"
  have it: "invoiceTable db' = map ?g (invoiceTable db)" using res by (auto split: if_splits)
  have sel: "diHash (?g j) = diHash j" "diSequenceNum (?g j) = diSequenceNum j" "diPreimage (?g j) = diPreimage j" for j
    by simp_all
  have ok: "invoiceOk cr db' (?g j)" if j: "j \<in> set (invoiceTable db)" for j
  proof (cases "diHash j = dhHash h")
    case True
    then have ji: "j = i" using j findInvoice_hash [OF i] db_inv_invoice_unique [OF inv] by metis
    have jok: "invoiceOk cr db j" using inv j by (simp add: db_inv_def)
    have "diStatus (?g i) = lifecycle (map dhStatus (htlcsOf (dhHash h) db'))"
    proof (cases "diStatus i = InvoiceStatusFailed \<or> settled \<and> pendingIn (dhHash h) (htlcTable db')")
      case True
      with res have "?g i = i" by simp
      with True st show ?thesis unfolding htlcsOf_upd [OF ht] upd pi by (cases "diStatus i") auto
    next
      case False
      with res st have "diStatus (?g i) = (if settled then InvoiceStatusSettled else InvoiceStatusFailed)"
        using findInvoice_hash [OF i] by (cases "diStatus i") (auto simp: updInvoice_def)
      with False show ?thesis unfolding htlcsOf_upd [OF ht] upd pi by simp
    qed
    with jok True ji show ?thesis by (auto simp: invoiceOk_def sq htlcsOf_upd [OF ht] sel)
  next
    case False
    have "htlcsOf (diHash j) db' = htlcsOf (diHash j) db"
      unfolding htlcsOf_upd [OF ht] by (rule updHtlc_other [OF inv h False])
    moreover have "invoiceOk cr db j" using inv j by (simp add: db_inv_def)
    moreover have "?g j = j" using False by (simp add: updInvoice_def)
    ultimately show ?thesis by (simp add: invoiceOk_def sq)
  qed
  show ?thesis
    using inv ok unfolding db_inv_def it ht
    by (auto simp: comp_def sel image_image)
qed

lemma MarkHtlcFinal_inv:
  assumes "db_inv cr db" and "MarkHtlcFinal f now key settled db = (r, db')"
  shows "db_inv cr db'"
  using assms MarkHtlcFinal_inv_Ok MarkHtlcFinal_not_Ok db_inv_same by (cases r) blast+

section \<open>Rows are permanent\<close>

text \<open>
  No operation deletes a row, changes what was recorded of it, or leaves a final status again.
\<close>

definition db_le :: "database \<Rightarrow> database \<Rightarrow> bool" where
  "db_le db db' =
     ((\<forall>hash i. findInvoice hash db = Some i \<longrightarrow>
        (\<exists>i'. findInvoice hash db' = Some i' \<and> diPreimage i' = diPreimage i \<and> diAmountMsat i' = diAmountMsat i \<and>
              diSequenceNum i' = diSequenceNum i \<and> (IsFinal (diStatus i) \<longrightarrow> i' = i))) \<and>
      (\<forall>key x. findHtlc key db = Some x \<longrightarrow>
        (\<exists>x'. findHtlc key db' = Some x' \<and> dhHash x' = dhHash x \<and> dhAmountMsat x' = dhAmountMsat x \<and>
              (dhStatus x \<noteq> HtlcStatusSettleRequested \<longrightarrow> x' = x))))"

lemma db_le_refl [simp]: "db_le db db"
  by (simp add: db_le_def)

lemma db_le_trans:
  assumes "db_le a b" and "db_le b c"
  shows "db_le a c"
  unfolding db_le_def
proof (intro conjI allI impI)
  fix hash i assume "findInvoice hash a = Some i"
  with assms(1) obtain j where j: "findInvoice hash b = Some j" "diPreimage j = diPreimage i"
    "diAmountMsat j = diAmountMsat i" "diSequenceNum j = diSequenceNum i" "IsFinal (diStatus i) \<longrightarrow> j = i"
    unfolding db_le_def by blast
  with assms(2) show "\<exists>i'. findInvoice hash c = Some i' \<and> diPreimage i' = diPreimage i \<and>
      diAmountMsat i' = diAmountMsat i \<and> diSequenceNum i' = diSequenceNum i \<and> (IsFinal (diStatus i) \<longrightarrow> i' = i)"
    unfolding db_le_def by fastforce
next
  fix key x assume "findHtlc key a = Some x"
  with assms(1) obtain y where y: "findHtlc key b = Some y" "dhHash y = dhHash x"
    "dhAmountMsat y = dhAmountMsat x" "dhStatus x \<noteq> HtlcStatusSettleRequested \<longrightarrow> y = x"
    unfolding db_le_def by blast
  with assms(2) show "\<exists>x'. findHtlc key c = Some x' \<and> dhHash x' = dhHash x \<and>
      dhAmountMsat x' = dhAmountMsat x \<and> (dhStatus x \<noteq> HtlcStatusSettleRequested \<longrightarrow> x' = x)"
    unfolding db_le_def by fastforce
qed

lemma sameTables_le: "sameTables db db' \<Longrightarrow> db_le db db'"
  by (simp add: db_le_def)

lemma find_append: "find P (xs @ ys) = (case find P xs of None \<Rightarrow> find P ys | Some x \<Rightarrow> Some x)"
  by (induction xs) auto

lemma find_append_Some: "find P xs = Some x \<Longrightarrow> find P (xs @ ys) = Some x"
  by (simp add: find_append)

lemma findInvoice_settledDb:
  "invoiceInsertable cr invoice db \<Longrightarrow> findInvoice hash (settledDb cr now invoice hs db) =
     (if hash = preimageHash cr (PaymentPreimage invoice) then Some (newInvoiceRow cr now (nextSeq db) invoice)
      else findInvoice hash db)"
  by (auto simp: invoiceInsertable_def findInvoice_def settledDb_sel find_append split: option.splits)

lemma find_map_same: "(\<And>x. P (g x) = P x) \<Longrightarrow> find P (map g xs) = map_option g (find P xs)"
  by (induction xs) auto

lemma RequestSettle_le: "RequestSettle cr f now invoice hs db = (r, db') \<Longrightarrow> db_le db db'"
proof (cases r)
  case (Ok u)
  assume "RequestSettle cr f now invoice hs db = (r, db')"
  with Ok have "db' = settledDb cr now invoice hs db" by (simp add: RequestSettle_Ok)
  then show ?thesis
    by (simp add: db_le_def findInvoice_def findHtlc_def settledDb_sel find_append_Some)
qed (auto intro!: sameTables_le dest: RequestSettle_not_Ok)

lemma MarkHtlcFinal_le: "MarkHtlcFinal f now key settled db = (r, db') \<Longrightarrow> db_le db db'"
proof (cases r)
  case (Ok u)
  assume "MarkHtlcFinal f now key settled db = (r, db')"
  then have "MarkHtlcFinal f now key settled db = (Ok u, db')" by (simp only: Ok)
  from MarkHtlcFinal_Ok [OF this] obtain h :: dbHtlc and i :: dbInvoice where
    ht: "htlcTable db' = map (updHtlc key settled now) (htlcTable db)" and
    res: "if diStatus i = InvoiceStatusFailed \<or> settled \<and> pendingIn (dhHash h) (htlcTable db')
     then u = None \<and> invoiceTable db' = invoiceTable db
     else u = Some (dhHash h) \<and> invoiceTable db' = map (updInvoice (dhHash h) settled now) (invoiceTable db)"
    by blast
  have it: "invoiceTable db' = invoiceTable db \<or> invoiceTable db' = map (updInvoice (dhHash h) settled now) (invoiceTable db)"
    using res by (simp split: if_splits)
  have hs: "findHtlc k db' = map_option (updHtlc key settled now) (findHtlc k db)" for k
    by (simp add: findHtlc_def ht find_map_same)
  have ivs: "findInvoice hash db' = findInvoice hash db \<or>
      findInvoice hash db' = map_option (updInvoice (dhHash h) settled now) (findInvoice hash db)" for hash
    using it by (auto simp: findInvoice_def find_map_same)
  show ?thesis
    unfolding db_le_def
  proof (intro conjI allI impI)
    fix hash i assume "findInvoice hash db = Some i"
    with ivs [of hash] show "\<exists>i'. findInvoice hash db' = Some i' \<and> diPreimage i' = diPreimage i \<and>
      diAmountMsat i' = diAmountMsat i \<and> diSequenceNum i' = diSequenceNum i \<and> (IsFinal (diStatus i) \<longrightarrow> i' = i)"
      by (auto simp: updInvoice_def)
  qed (simp add: hs updHtlc_def)
qed (auto intro!: sameTables_le dest: MarkHtlcFinal_not_Ok)

section \<open>The store as a step system\<close>

datatype dbEvent =
    EvRequestSettle "(dbError, unit) outcome"
  | EvMarkFinal HtlcKey bool "(dbError, hash option) outcome"

inductive dbStep :: "crypto \<Rightarrow> database \<Rightarrow> dbEvent \<Rightarrow> database \<Rightarrow> bool" for cr where
  request: "RequestSettle cr f now invoice hs db = (r, db') \<Longrightarrow> hs \<noteq> [] \<Longrightarrow> dbStep cr db (EvRequestSettle r) db'"
| final: "MarkHtlcFinal f now key settled db = (r, db') \<Longrightarrow> dbStep cr db (EvMarkFinal key settled r) db'"

inductive_cases dbStep_requestE: "dbStep cr db (EvRequestSettle r) db'"
inductive_cases dbStep_finalE: "dbStep cr db (EvMarkFinal key settled r) db'"

lemma dbStep_inv: "db_inv cr db \<Longrightarrow> dbStep cr db e db' \<Longrightarrow> db_inv cr db'"
  by (auto elim!: dbStep.cases intro: RequestSettle_inv MarkHtlcFinal_inv)

lemma dbStep_le: "dbStep cr db e db' \<Longrightarrow> db_le db db'"
  by (auto elim!: dbStep.cases intro: RequestSettle_le MarkHtlcFinal_le)

interpretation store: inv_system "\<lambda>db. db = emptyDb" "dbStep cr" "db_inv cr" for cr
  by unfold_locales (auto intro: db_inv_empty dbStep_inv)

section \<open>Properties of the store\<close>

lemma fold_put_rows:
  "distinct (map dhKey hs) \<Longrightarrow>
     fold (\<lambda>h m. gm_put (dhKey h) (dhAmountMsat h) m) hs [] = map (\<lambda>h. (dhKey h, dhAmountMsat h)) hs"
  using fold_gm_put [of "[]" "map (\<lambda>h. (dhKey h, dhAmountMsat h)) hs"]
  by (simp add: fold_map comp_def gm_wf_def)

lemma distinct_htlcsOf: "db_inv cr db \<Longrightarrow> distinct (map dhKey (htlcsOf hash db))"
  by (simp add: db_inv_def htlcsOf_def distinct_map_filter)

lemma Get_eq:
  assumes "db_inv cr db"
  shows "Get f hash db =
    (if f TxBegin then Err (ErrDb TxBegin) else if f SelectInvoice then Err (ErrDb SelectInvoice)
     else case findInvoice hash db of
       None \<Rightarrow> Err ErrInvoiceNotFound
     | Some i \<Rightarrow> if f SelectHtlcs then Err (ErrDb SelectHtlcs)
                 else if f TxCommit then Err (ErrDb TxCommit)
                 else Ok (unmarshallDbInvoice i, map (\<lambda>h. (dhKey h, dhAmountMsat h)) (htlcsOf hash db)))"
  by (simp add: Get_def runInTransaction_def fold_put_rows [OF distinct_htlcsOf [OF assms]] split: option.splits)

text \<open>
  C19: a settle request is atomic and readable. If it succeeds, reading the invoice back gives the
  preimage, the amount, the status \<open>SETTLE_REQUESTED\<close> and exactly the HTLCs of the request, and
  every other invoice reads as before; if any statement or constraint fails, every invoice reads
  as before.
\<close>

theorem settle_request_roundtrip:
  assumes "db_inv cr db" and "hs \<noteq> []" and "RequestSettle cr f now invoice hs db = (r, db')"
  shows "Get noFaults hash db' =
    (if r = Ok () \<and> hash = preimageHash cr (PaymentPreimage invoice)
     then Ok (\<lparr>invCreation = \<lparr>PaymentPreimage = PaymentPreimage invoice, Value = Value invoice,
                 PaymentAddr = replicate 32 0\<rparr>,
               invSequenceNum = nextSeq db, invSettleRequestedAt = now, invFinalizedAt = None,
               invStatus = InvoiceStatusSettleRequested\<rparr>, hs)
     else Get noFaults hash db)"
proof (cases "r = Ok ()")
  case True
  with assms(3) have ii: "invoiceInsertable cr invoice db" and db': "db' = settledDb cr now invoice hs db"
    by (auto simp: RequestSettle_Ok)
  have inv': "db_inv cr db'" using RequestSettle_inv [OF assms] .
  show ?thesis
    unfolding Get_eq [OF inv'] Get_eq [OF assms(1)]
    by (auto simp: True db' findInvoice_settledDb [OF ii] htlcsOf_settledDb [OF assms(1) ii] unmarshallDbInvoice_def newInvoiceRow_def
        comp_def split: option.splits)
next
  case False
  with assms(3) have same: "sameTables db db'" by (intro RequestSettle_not_Ok) auto
  show ?thesis
    unfolding Get_eq [OF RequestSettle_inv [OF assms]] Get_eq [OF assms(1)]
      sameTables_find(1) [OF same] sameTables_find(3) [OF same] using False by simp
qed

interpretation rows: growing_system "dbStep cr" db_le for cr
  by unfold_locales (auto intro: db_le_trans dbStep_le)

text \<open>
  C17: in every state the store can reach, the status of an invoice is a function of the statuses of
  its HTLCs: failed as soon as one of them failed, settled when all of them settled, otherwise
  settle-requested. Every stored invoice has HTLCs, and its hash is the hash of its preimage.
\<close>

theorem stored_status_lifecycle:
  assumes "reach (\<lambda>db. db = emptyDb) (dbStep cr) db" and "findInvoice hash db = Some i"
  shows "diStatus i = lifecycle (map dhStatus (htlcsOf hash db)) \<and> htlcsOf hash db \<noteq> [] \<and>
    preimageHash cr (diPreimage i) = hash"
  using store.reach_inv [OF assms(1)] findInvoice_hash [OF assms(2)]
  by (auto simp: db_inv_def invoiceOk_def)

section \<open>A concrete run\<close>

text \<open>One invoice of 500 msat paid by one HTLC, requested to be settled and then settled.\<close>

definition demoInvoice :: InvoiceCreationData where
  "demoInvoice = \<lparr>PaymentPreimage = replicate 32 1, Value = 500, PaymentAddr = []\<rparr>"

definition demoKey :: HtlcKey where
  "demoKey = HtlcKey (replicate 33 2) 1 2"

definition demoHash :: hash where
  "demoHash = preimageHash goCrypto (replicate 32 1)"

definition demoDb :: "database" where
  "demoDb = \<lparr>invoiceTable = [\<lparr>diSequenceNum = 1, diHash = demoHash, diPreimage = replicate 32 1,
       diAmountMsat = 500, diSettleRequestedAt = 7, diFinalizedAt = None, diStatus = InvoiceStatusSettleRequested\<rparr>],
     htlcTable = [\<lparr>dhKey = demoKey, dhHash = demoHash, dhAmountMsat = 500, dhSettleRequestedAt = 7,
       dhFinalizedAt = None, dhStatus = HtlcStatusSettleRequested\<rparr>], nextSeq = 2\<rparr>"

lemma demo_request: "RequestSettle goCrypto noFaults 7 demoInvoice [(demoKey, 500)] emptyDb = (Ok (), demoDb)"
  by (simp add: RequestSettle_Ok invoiceInsertable_def htlcsInsertable_def findInvoice_def findHtlc_def
      settledDb_def newInvoiceRow_def newHtlcRow_def demoInvoice_def demoKey_def demoDb_def demoHash_def
      emptyDb_def go.preimageHash_length)

definition demoFinal :: "bool \<Rightarrow> (dbError, hash option) outcome \<times> database" where
  "demoFinal settled = MarkHtlcFinal noFaults 9 demoKey settled demoDb"

lemma demo_final: "fst (demoFinal settled) = Ok (Some demoHash)"
  by (simp add: demoFinal_def MarkHtlcFinal_def runInTransaction_def selectInvoiceForUpdate_def getHtlcHash_def
      findHtlc_def findInvoice_def finalizeHTLC_def finalizeInvoice_def allHtlcsAreSettled_def demoDb_def Let_def)

lemma demo_step1: "dbStep goCrypto emptyDb (EvRequestSettle (Ok ())) demoDb"
  using dbStep.request [OF demo_request] by simp

lemma demo_step2: "dbStep goCrypto demoDb (EvMarkFinal demoKey settled (Ok (Some demoHash))) (snd (demoFinal settled))"
  using dbStep.final [of noFaults 9 demoKey settled demoDb "Ok (Some demoHash)" "snd (demoFinal settled)"] demo_final [of settled]
  by (simp add: demoFinal_def prod_eq_iff)

theorem settle_request_roundtrip_witness:
  "fst (RequestSettle goCrypto noFaults 7 demoInvoice [(demoKey, 500)] emptyDb) = Ok () \<and>
   Get noFaults demoHash demoDb =
     Ok (\<lparr>invCreation = \<lparr>PaymentPreimage = replicate 32 1, Value = 500, PaymentAddr = replicate 32 0\<rparr>,
          invSequenceNum = 1, invSettleRequestedAt = 7, invFinalizedAt = None,
          invStatus = InvoiceStatusSettleRequested\<rparr>, [(demoKey, 500)])"
  using settle_request_roundtrip [OF db_inv_empty _ demo_request, of demoHash] demo_request
  by (simp add: demoInvoice_def demoHash_def emptyDb_def)

theorem stored_status_lifecycle_witness:
  "\<exists>i. findInvoice demoHash demoDb = Some i \<and> diStatus i = lifecycle (map dhStatus (htlcsOf demoHash demoDb))"
proof -
  have r: "reach (\<lambda>db. db = emptyDb) (dbStep goCrypto) demoDb"
    by (rule reach_step [where step = "dbStep goCrypto", OF _ demo_step1]) (simp add: reach_init)
  obtain i where "findInvoice demoHash demoDb = Some i" by (simp add: findInvoice_def demoDb_def)
  with stored_status_lifecycle [OF r this] show ?thesis by blast
qed

end
