(* ===== verification/Registry_Facts.thy ===== *)
theory Registry_Facts
  imports Registry Invoice_Lifecycle
begin

text \<open>
  What each operation of the registry does, on every branch: the lemmas the invariants of the
  registry are proved from.
\<close>

section \<open>Notifying subscribers\<close>

definition subsOf :: "('r, 'c, 'q) InvoiceRegistry \<Rightarrow> HtlcKey \<Rightarrow> 'r list" where
  "subsOf s k = (case gm_get (hodlSubscriptions s) k of None \<Rightarrow> [] | Some l \<Rightarrow> l)"

lemma fold_callResolve:
  "fold (\<lambda>r. callResolve r res) rs s = s\<lparr>calls := calls s @ map (\<lambda>r. CallResolve r res) rs\<rparr>"
  by (induction rs arbitrary: s) (simp_all add: callResolve_def)

lemma gm_del_missing: "gm_get m k = None \<Longrightarrow> gm_del k m = m"
  by (simp add: gm_defs map_of_eq_None_iff)

lemma notifyHodlSubscribers_eq:
  "notifyHodlSubscribers k res s =
     s\<lparr>hodlSubscriptions := gm_del k (hodlSubscriptions s),
       calls := calls s @ map (\<lambda>r. CallResolve r res) (subsOf s k)\<rparr>"
  by (simp add: notifyHodlSubscribers_def subsOf_def fold_callResolve gm_del_missing split: option.splits)

lemma subsOf_notify: "k' \<noteq> k \<Longrightarrow> subsOf (notifyHodlSubscribers k res s) k' = subsOf s k'"
  by (simp add: subsOf_def notifyHodlSubscribers_eq)

definition resolutions :: "HtlcResolution \<Rightarrow> ('r, 'c, 'q) InvoiceRegistry \<Rightarrow> HtlcKey list \<Rightarrow> ('r, 'c) call list" where
  "resolutions res s ks = concat (map (\<lambda>k. map (\<lambda>r. CallResolve r res) (subsOf s k)) ks)"

lemma fold_notify:
  "distinct ks \<Longrightarrow> fold (\<lambda>k. notifyHodlSubscribers k res) ks s =
     s\<lparr>hodlSubscriptions := fold gm_del ks (hodlSubscriptions s), calls := calls s @ resolutions res s ks\<rparr>"
proof (induction ks arbitrary: s)
  case (Cons k ks)
  then have "map (subsOf (notifyHodlSubscribers k res s)) ks = map (subsOf s) ks"
    by (intro map_cong [OF refl] subsOf_notify) auto
  then have "resolutions res (notifyHodlSubscribers k res s) ks = resolutions res s ks"
    by (simp add: resolutions_def cong: map_cong)
  with Cons show ?case
    by (simp add: notifyHodlSubscribers_eq) (simp add: resolutions_def)
qed (simp add: resolutions_def)

lemma gm_get_fold_del: "gm_get (fold gm_del ks m) k = (if k \<in> set ks then None else gm_get m k)"
  by (induction ks arbitrary: m) auto

lemma gm_wf_fold_del [simp]: "gm_wf m \<Longrightarrow> gm_wf (fold gm_del ks m)"
  by (induction ks arbitrary: m) auto

text \<open>Resolving a whole set: every subscriber of every HTLC is called, and the set is gone.\<close>

definition releasedState ::
    "hash \<Rightarrow> htlcSetImpl \<Rightarrow> HtlcResolution \<Rightarrow> ('r, 'c, 'q) InvoiceRegistry \<Rightarrow> ('r, 'c, 'q) InvoiceRegistry" where
  "releasedState hash st res s =
     s\<lparr>hodlSubscriptions := fold gm_del (gm_keys (htlcs st)) (hodlSubscriptions s),
       sets := gm_del hash (sets s),
       calls := calls s @ resolutions res s (gm_keys (htlcs st))\<rparr>"

lemma resolveAll_eq:
  assumes "gm_get (sets s) hash = Some st" and "wf_set (crypt env) hash st"
  shows "resolveAll env st res s = (Ok (), releasedState hash st res s)"
  using assms
  by (simp add: resolveAll_def deleteAll_def setsDelete_def wf_set_def fold_notify releasedState_def)

lemma requestSettle_eq:
  assumes "gm_get (sets s) hash = Some st" and "wf_set (crypt env) hash st"
  shows "requestSettle env st s =
    (Ok (), releasedState hash st (HtlcSettleResolution (setPreimage (params st)) ResultSettled) s)"
  using resolveAll_eq [OF assms] by (simp add: requestSettle_def)

lemma failInvoice_eq:
  assumes "wf_sets (crypt env) (sets s)"
  shows "failInvoice env hash s =
    (Ok (), case gm_get (sets s) hash of None \<Rightarrow> s
            | Some st \<Rightarrow> releasedState hash st (HtlcFailResolution ResultAcceptTimeout) s)"
  using resolveAll_eq wf_setsD [OF assms] by (fastforce simp: failInvoice_def setsGet_def split: option.splits)

section \<open>Releasing one HTLC\<close>

definition droppedSets :: "hash \<Rightarrow> htlcSetImpl \<Rightarrow> HtlcKey \<Rightarrow> htlcSetsImpl \<Rightarrow> htlcSetsImpl" where
  "droppedSets hash st key sts =
     (let st' = st\<lparr>htlcs := gm_del key (htlcs st)\<rparr> in
      if htlcs st' = [] then gm_del hash sts else gm_put hash st' sts)"

lemma gm_del_put: "gm_wf m \<Longrightarrow> gm_del k (gm_put k v m) = gm_del k m"
  by (induction m) (auto simp: gm_defs)

lemma deleteHtlc_eq:
  assumes "gm_wf sts" and "wf_set cr hash st"
  shows "deleteHtlc cr hash st key sts =
    (if key \<in> set (gm_keys (htlcs st)) then Ok (droppedSets hash st key sts) else Panic ''htlc not found'')"
  using assms gm_keys_none [of key "htlcs st"]
  by (auto simp: deleteHtlc_def droppedSets_def wf_set_def setHash_def setsDelete_def Let_def gm_del_put)

lemma cancelSingleHtlc_eq:
  assumes "wf_sets (crypt env) (sets s)"
  shows "cancelSingleHtlc env hash key result s =
    (case gm_get (sets s) hash of
       None \<Rightarrow> (Ok (), s)
     | Some st \<Rightarrow>
         if isComplete (crypt env) st \<noteq> None then (Ok (), s)
         else if key \<in> set (gm_keys (htlcs st))
           then (Ok (), notifyHodlSubscribers key (HtlcFailResolution result) (s\<lparr>sets := droppedSets hash st key (sets s)\<rparr>))
         else (Panic ''htlc not found'', s))"
proof (cases "gm_get (sets s) hash")
  case (Some st)
  with assms have "wf_set (crypt env) hash st" "gm_wf (sets s)" by (auto simp: wf_sets_def)
  with Some show ?thesis by (simp add: cancelSingleHtlc_def setsGet_def deleteHtlc_eq)
qed (simp add: cancelSingleHtlc_def setsGet_def)

lemma gm_del_Nil_keys: "gm_wf m \<Longrightarrow> gm_del k m = [] \<Longrightarrow> set (gm_keys m) \<subseteq> {k}"
  using gm.keys_del [of k m] gm.keys_empty by fastforce

section \<open>Storing a settle request\<close>

definition settleData :: "htlcSetImpl \<Rightarrow> InvoiceCreationData" where
  "settleData st = \<lparr>PaymentPreimage = setPreimage (params st), Value = setValue (params st),
                    PaymentAddr = setPaymentAddr (params st)\<rparr>"

lemma settleData_sel [simp]:
  "PaymentPreimage (settleData st) = setPreimage (params st)" "Value (settleData st) = setValue (params st)"
  by (simp_all add: settleData_def)

lemma RequestSettle_no_panic: "fst (RequestSettle cr f now invoice hs db) \<noteq> Panic m"
proof -
  have "fst (insertHtlcs f now hash hs tx) \<noteq> Panic m" for hash tx
    by (induction f now hash hs tx rule: insertHtlcs.induct)
      (auto simp: insertHtlc_def split: prod.splits outcome.splits)
  then show ?thesis
    by (auto simp: RequestSettle_def runInTransaction_def insertInvoice_def Let_def
        split: prod.splits outcome.splits if_splits) (metis fst_conv)+
qed

lemma markSettleRequested_cases:
  assumes "markSettleRequested env inp st s = (r, s')" and "gm_wf (htlcs st)"
  obtains (stored) db' where "r = Ok ()" "s' = s\<lparr>cdb := db'\<rparr>"
      "RequestSettle (crypt env) (settleFaults inp) (nowSettle inp) (settleData st) (htlcs st) (cdb s) = (Ok (), db')"
  | (refused) e db' where "r = Err (SettleRequestDb e)" "s' = s\<lparr>cdb := db'\<rparr>" "sameTables (cdb s) db'"
      "RequestSettle (crypt env) (settleFaults inp) (nowSettle inp) (settleData st) (htlcs st) (cdb s) = (Err e, db')"
proof -
  obtain q db' where q: "RequestSettle (crypt env) (settleFaults inp) (nowSettle inp) (settleData st) (htlcs st) (cdb s) = (q, db')"
    by fastforce
  with assms have e: "markSettleRequested env inp st s =
      (case q of Ok _ \<Rightarrow> (Ok (), s\<lparr>cdb := db'\<rparr>) | Err e \<Rightarrow> (Err (SettleRequestDb e), s\<lparr>cdb := db'\<rparr>)
       | Panic m \<Rightarrow> (Panic m, s\<lparr>cdb := db'\<rparr>))"
    by (simp add: markSettleRequested_def settleData_def getHtlcMap_eq Let_def)
  show thesis
  proof (cases q)
    case (Ok u)
    with e q assms(1) that(1) show thesis by simp
  next
    case (Err e')
    with q have "sameTables (cdb s) db'" by (intro RequestSettle_not_Ok) auto
    with Err e q assms(1) that(2) show thesis by simp
  next
    case (Panic m)
    with q RequestSettle_no_panic show thesis by (metis fst_conv)
  qed
qed

section \<open>Requests\<close>

lemma Get_no_panic: "Get f hash db \<noteq> Panic m"
  by (auto simp: Get_def runInTransaction_def split: option.splits)

lemma getAcceptedSet_Inr:
  "getAcceptedSet env inp hash setID s = Ok (Inr st) \<longleftrightarrow>
     gm_get (sets s) hash = Some st \<and> isComplete (crypt env) st = Some setID"
  by (auto simp: getAcceptedSet_def setsGet_def Let_def split: option.splits outcome.splits if_splits)

lemma getAcceptedSet_no_panic: "getAcceptedSet env inp hash setID s \<noteq> Panic m"
  using Get_no_panic by (auto simp: getAcceptedSet_def Let_def split: option.splits outcome.splits if_splits)

lemma handleCancelRequest_cases:
  assumes "handleCancelRequest env inp hash setID s = (r, s')" and "wf_sets (crypt env) (sets s)"
  obtains (nothing) "s' = s" "r \<noteq> Ok None" "\<not> is_panic r"
  | (cancelled) st where "r = Ok None" "gm_get (sets s) hash = Some st" "isComplete (crypt env) st = Some setID"
      "s' = releasedState hash st (HtlcFailResolution ResultInvoiceNotOpen) s"
proof (cases "\<exists>st. getAcceptedSet env inp hash setID s = Ok (Inr st)")
  case True
  then obtain st where g: "getAcceptedSet env inp hash setID s = Ok (Inr st)" by blast
  then have st: "gm_get (sets s) hash = Some st" "isComplete (crypt env) st = Some setID"
    by (auto simp: getAcceptedSet_Inr)
  with assms g resolveAll_eq [OF st(1) wf_setsD [OF assms(2) st(1)], of "HtlcFailResolution ResultInvoiceNotOpen"]
  show thesis by (intro that(2)) (auto simp: handleCancelRequest_def)
next
  case False
  with assms(1) getAcceptedSet_no_panic [of env inp hash setID s] show thesis
    by (intro that(1)) (auto simp: handleCancelRequest_def split: outcome.splits sum.splits)
qed

lemma handleSettleRequest_cases:
  assumes "handleSettleRequest env inp hash setID s = (r, s')" and wf: "wf_sets (crypt env) (sets s)"
  obtains (answered) "s' = s" "\<not> is_panic r"
      "r = Ok None \<Longrightarrow> getAcceptedSet env inp hash setID s = Ok (Inl ErrSettleRequested)"
  | (refused) st e db' where "gm_get (sets s) hash = Some st" "isComplete (crypt env) st = Some setID"
      "r = Err (SettleRequestDb e)" "s' = s\<lparr>cdb := db'\<rparr>" "sameTables (cdb s) db'"
  | (settled) st db' where "r = Ok None" "gm_get (sets s) hash = Some st" "isComplete (crypt env) st = Some setID"
      "\<not> AutoSettle (cfg env)"
      "RequestSettle (crypt env) (settleFaults inp) (nowSettle inp) (settleData st) (htlcs st) (cdb s) = (Ok (), db')"
      "s' = releasedState hash st (HtlcSettleResolution (setPreimage (params st)) ResultSettled) (s\<lparr>cdb := db'\<rparr>)"
proof (cases "\<exists>st. getAcceptedSet env inp hash setID s = Ok (Inr st)")
  case True
  then obtain st where g: "getAcceptedSet env inp hash setID s = Ok (Inr st)" by blast
  then have st: "gm_get (sets s) hash = Some st" "isComplete (crypt env) st = Some setID"
    by (auto simp: getAcceptedSet_Inr)
  with wf have ws: "wf_set (crypt env) hash st" and gw: "gm_wf (htlcs st)" by (auto simp: wf_set_def)
  show thesis
  proof (cases "AutoSettle (cfg env)")
    case True
    with assms g show thesis by (intro that(1)) (auto simp: handleSettleRequest_def)
  next
    case False
    obtain q s1 where m: "markSettleRequested env inp st s = (q, s1)" by fastforce
    show thesis
      using m gw
    proof (cases rule: markSettleRequested_cases)
      case (stored db')
      have "requestSettle env st s1 = (Ok (), releasedState hash st
          (HtlcSettleResolution (setPreimage (params st)) ResultSettled) (s\<lparr>cdb := db'\<rparr>))"
        using requestSettle_eq [of s1 hash st env] stored ws st by simp
      with assms(1) g False m stored that(3) [OF _ st(1,2) False stored(3)] show thesis
        by (simp add: handleSettleRequest_def)
    next
      case (refused e db')
      with assms(1) g False m that(2) [OF st(1,2), of e db'] show thesis
        by (simp add: handleSettleRequest_def)
    qed
  qed
next
  case False
  with assms(1) getAcceptedSet_no_panic [of env inp hash setID s] show thesis
    by (intro that(1)) (auto simp: handleSettleRequest_def split: outcome.splits sum.splits if_splits)
qed

section \<open>One iteration of the event loop\<close>

text \<open>The operation that an iteration runs, by the event it received.\<close>

lemma loop_cases [consumes 1, case_names tick htlc subscribe unsubscribe settle cancel finished]:
  assumes "invoiceEventLoop_step env inp ev s = (r, s')"
  obtains now q where "ev = ReleaseTick now" "handleTick env s = (q, s')" "\<And>a. r = Continue a \<Longrightarrow> \<not> is_panic q"
  | h q where "ev = NewHtlc h" "process env inp h s = (q, s')"
  | sid cb where "ev = NewSubscription sid cb" "s' = addAcceptSubscriber env sid cb s"
  | sid where "ev = CancelSubscription sid"
      "s' = s\<lparr>subscriptions := deleteAcceptSubscription (nowRemoved inp) sid (subscriptions s)\<rparr>"
  | hash setID q where "ev = SettleReq hash setID" "handleSettleRequest env inp hash setID s = (q, s')"
  | hash setID q where "ev = CancelReq hash setID" "handleCancelRequest env inp hash setID s = (q, s')"
  | "ev = ContextDone" "s' = s"
proof (cases ev)
  case (ReleaseTick now)
  obtain q s1 where "handleTick env s = (q, s1)" by fastforce
  with assms ReleaseTick show thesis by (intro that(1) [of now q]) (auto split: outcome.splits)
next
  case (NewHtlc h)
  obtain q s1 where "process env inp h s = (q, s1)" by fastforce
  with assms NewHtlc show thesis by (intro that(2) [of h q]) (auto split: outcome.splits)
next
  case (SettleReq hash setID)
  obtain q s1 where "handleSettleRequest env inp hash setID s = (q, s1)" by fastforce
  with assms SettleReq show thesis by (intro that(5) [of hash setID q]) (auto split: outcome.splits)
next
  case (CancelReq hash setID)
  obtain q s1 where "handleCancelRequest env inp hash setID s = (q, s1)" by fastforce
  with assms CancelReq show thesis by (intro that(6) [of hash setID q]) (auto split: outcome.splits)
qed (use assms that(3,4,7) in auto)

end
