(* ===== verification/Process_Facts.thy ===== *)
theory Process_Facts
  imports Registry_Facts
begin

text \<open>
  The branches of \<open>process\<close>: what can happen to an HTLC that the registry receives, with the
  conditions of each branch and the state it leaves.
\<close>

section \<open>Resolving from the database\<close>

lemma gm_get_rows:
  "gm_get (map (\<lambda>h. (dhKey h, dhAmountMsat h)) hs) k \<noteq> None \<longleftrightarrow> k \<in> dhKey ` set hs"
  by (auto simp: gm_get_def map_of_eq_None_iff image_iff)

lemma resolveViaDb_cases:
  assumes "resolveViaDb inp h s = (r, s')" and inv: "db_inv cr (cdb s)"
  obtains (error) e where "r = Err e" "s' = s"
  | (absent) "r = Ok False" "s' = s" "findInvoice (rHash h) (cdb s) = None"
  | (replay) i where "r = Ok True" "findInvoice (rHash h) (cdb s) = Some i"
      "circuitKey h \<in> dhKey ` set (htlcsOf (rHash h) (cdb s))"
      "s' = callResolve (resolve h) (HtlcSettleResolution (diPreimage i) ResultReplayToSettled) s"
  | (closed) i where "r = Ok True" "findInvoice (rHash h) (cdb s) = Some i"
      "circuitKey h \<notin> dhKey ` set (htlcsOf (rHash h) (cdb s))"
      "s' = callResolve (resolve h) (HtlcFailResolution ResultInvoiceNotOpen) s"
proof (cases "Get (getFaults inp) (rHash h) (cdb s)")
  case (Ok p)
  then obtain i where i: "findInvoice (rHash h) (cdb s) = Some i"
    and p: "p = (unmarshallDbInvoice i, map (\<lambda>h. (dhKey h, dhAmountMsat h)) (htlcsOf (rHash h) (cdb s)))"
    by (auto simp: Get_eq [OF inv] split: option.splits if_splits)
  let ?hs = "map (\<lambda>h. (dhKey h, dhAmountMsat h)) (htlcsOf (rHash h) (cdb s))"
  have e: "resolveViaDb inp h s =
      (if htlcsOf (rHash h) (cdb s) = [] then (Err ErrUnexpectedUnsettled, s)
       else if circuitKey h \<in> dhKey ` set (htlcsOf (rHash h) (cdb s))
         then (Ok True, callResolve (resolve h) (HtlcSettleResolution (diPreimage i) ResultReplayToSettled) s)
       else (Ok True, callResolve (resolve h) (HtlcFailResolution ResultInvoiceNotOpen) s))"
    unfolding gm_get_rows [symmetric] by (simp add: resolveViaDb_def Ok p unmarshallDbInvoice_def)
  consider "htlcsOf (rHash h) (cdb s) = []"
    | "htlcsOf (rHash h) (cdb s) \<noteq> []" "circuitKey h \<in> dhKey ` set (htlcsOf (rHash h) (cdb s))"
    | "htlcsOf (rHash h) (cdb s) \<noteq> []" "circuitKey h \<notin> dhKey ` set (htlcsOf (rHash h) (cdb s))" by blast
  then show thesis
  proof cases
    case 1
    with assms(1) e show thesis by (intro that(1) [of ErrUnexpectedUnsettled]) simp_all
  next
    case 2
    with assms(1) e i show thesis by (intro that(3) [of i]) simp_all
  next
    case 3
    with assms(1) e i show thesis by (intro that(4) [of i]) simp_all
  qed
next
  case (Err e)
  show thesis
  proof (cases "e = ErrInvoiceNotFound")
    case True
    with Err have "findInvoice (rHash h) (cdb s) = None"
      by (auto simp: Get_eq [OF inv] split: option.splits if_splits)
    with True Err assms(1) show thesis by (intro that(2)) (simp_all add: resolveViaDb_def)
  next
    case False
    with Err assms(1) show thesis by (intro that(1) [of "RegistryDb e"]) (simp_all add: resolveViaDb_def)
  qed
next
  case (Panic m)
  then show thesis using Get_no_panic by metis
qed

section \<open>The set an accepted HTLC belongs to\<close>

definition nextSet :: "'r registryHtlc \<Rightarrow> mppRecord \<Rightarrow> statelessData \<Rightarrow> htlcSetImpl option \<Rightarrow> htlcSetImpl" where
  "nextSet h mpp sd found =
     (case found of
        None \<Rightarrow> \<lparr>params = \<lparr>setPreimage = sdPreimage sd, setValue = sdAmtMsat sd, setPaymentAddr = mppPaymentAddr mpp\<rparr>,
                 htlcs = [(circuitKey h, amtPaid h)]\<rparr>
      | Some st \<Rightarrow> st\<lparr>htlcs := htlcs st @ [(circuitKey h, amtPaid h)]\<rparr>)"

definition setTotalOf :: "htlcSetImpl option \<Rightarrow> u64" where
  "setTotalOf found = (case found of None \<Rightarrow> 0 | Some st \<Rightarrow> totalSetAmt st)"

definition keysOf :: "htlcSetImpl option \<Rightarrow> HtlcKey set" where
  "keysOf found = (case found of None \<Rightarrow> {} | Some st \<Rightarrow> set (gm_keys (htlcs st)))"

lemma nextSet_total: "totalSetAmt (nextSet h mpp sd found) = setTotalOf found + amtPaid h"
  by (simp add: nextSet_def totalSetAmt_def setTotalOf_def split: option.splits)

lemma nextSet_keys: "set (gm_keys (htlcs (nextSet h mpp sd found))) = insert (circuitKey h) (keysOf found)"
  by (auto simp: nextSet_def keysOf_def gm_keys_def split: option.splits)

lemma nextSet_params:
  "params (nextSet h mpp sd found) =
     (case found of None \<Rightarrow> \<lparr>setPreimage = sdPreimage sd, setValue = sdAmtMsat sd, setPaymentAddr = mppPaymentAddr mpp\<rparr>
      | Some st \<Rightarrow> params st)"
  by (simp add: nextSet_def split: option.splits)

lemma wf_set_nextSet:
  assumes "wf_sets cr sts" and "preimageHash cr (sdPreimage sd) = hash"
    and "circuitKey h \<notin> keysOf (gm_get sts hash)"
  shows "wf_set cr hash (nextSet h mpp sd (gm_get sts hash))"
proof (cases "gm_get sts hash")
  case None
  with assms(2) show ?thesis by (simp add: nextSet_def wf_set_def setHash_def gm_wf_def)
next
  case (Some st)
  with assms show ?thesis
    by (auto simp: nextSet_def wf_set_def setHash_def keysOf_def gm_wf_def gm_keys_def dest!: wf_setsD)
qed

section \<open>The branches of \<open>process\<close>\<close>

text \<open>The checks an HTLC passes when it is accepted.\<close>

definition admitted ::
    "'q registryEnv \<Rightarrow> inputs \<Rightarrow> 'r registryHtlc \<Rightarrow> mppRecord \<Rightarrow> statelessData \<Rightarrow> ('r, 'c, 'q) InvoiceRegistry \<Rightarrow> bool" where
  "admitted env inp h mpp sd s =
     (multiPath h = Some mpp \<and> mppTotalMsat mpp \<noteq> 0 \<and>
      decodeStatelessData (crypt env) (PrivKey (cfg env)) (mppPaymentAddr mpp) = Ok sd \<and>
      preimageHash (crypt env) (sdPreimage sd) = rHash h \<and> mppTotalMsat mpp = sdAmtMsat sd \<and>
      circuitKey h \<notin> keysOf (gm_get (sets s) (rHash h)) \<and> nowExpiry inp \<le> sdExpiry sd \<and>
      setTotalOf (gm_get (sets s) (rHash h)) + amtPaid h \<le> sdAmtMsat sd \<and>
      currentHeight h + FinalCltvRejectDelta (cfg env) \<le> htlcExpiry h \<and>
      (gm_get (sets s) (rHash h) = None \<longrightarrow>
        AutoSettle (cfg env) \<or> hasRecentSubscribers (nowSubscribers inp) (subscriptions s)))"

abbreviation afterAdd ::
    "'r registryHtlc \<Rightarrow> mppRecord \<Rightarrow> statelessData \<Rightarrow> ('r, 'c, 'q) InvoiceRegistry \<Rightarrow> htlcSetImpl" where
  "afterAdd h mpp sd s \<equiv> nextSet h mpp sd (gm_get (sets s) (rHash h))"

text \<open>An HTLC that passes all checks joins the set of its invoice.\<close>

lemma processOpen_admitted:
  assumes "admitted env inp h mpp sd s"
  shows "processOpen env inp h mpp sd s =
    processAccepted env inp h sd (afterAdd h mpp sd s) (s\<lparr>sets := gm_put (rHash h) (afterAdd h mpp sd s) (sets s)\<rparr>)"
proof -
  note adm = assms [unfolded admitted_def]
  have late: "\<not> htlcExpiry h < currentHeight h + FinalCltvRejectDelta (cfg env)" using adm by (simp add: not_less)
  show ?thesis
  proof (cases "gm_get (sets s) (rHash h)")
    case None
    have "setsAdd (crypt env) ps (circuitKey h) a (sets s) =
        Ok (gm_put (rHash h) \<lparr>params = ps, htlcs = [(circuitKey h, a)]\<rparr> (sets s), \<lparr>params = ps, htlcs = [(circuitKey h, a)]\<rparr>)"
      if "setPreimage ps = sdPreimage sd" for ps a
      using that None adm by (simp add: setsAdd_def addHtlc_new Let_def)
    with None adm late show ?thesis
      by (auto simp: processOpen_def setsGet_def setTotalOf_def nextSet_def not_less)
  next
    case (Some st)
    have fresh: "circuitKey h \<notin> set (gm_keys (htlcs st))" using adm Some by (simp add: keysOf_def)
    then have k: "\<not> accepted st (circuitKey h)"
      using gm_keys_none [of "circuitKey h" "htlcs st"] by (auto simp: accepted_def)
    with fresh have "addHtlc (circuitKey h) (amtPaid h) st = Ok (afterAdd h mpp sd s)"
      using Some gm_put_fresh [of "circuitKey h" "htlcs st"] by (auto simp: addHtlc_def accepted_def nextSet_def)
    with Some adm late k show ?thesis by (auto simp: processOpen_def setsGet_def setTotalOf_def not_less)
  qed
qed

lemma process_admitted:
  assumes "db_inv (crypt env) (cdb s)" and "getFaults inp = noFaults" and "findInvoice (rHash h) (cdb s) = None"
    and "admitted env inp h mpp sd s"
  shows "process env inp h s =
    processAccepted env inp h sd (afterAdd h mpp sd s) (s\<lparr>sets := gm_put (rHash h) (afterAdd h mpp sd s) (sets s)\<rparr>)"
proof -
  have "resolveViaDb inp h s = (Ok False, s)" using assms(1-3) by (simp add: resolveViaDb_def Get_eq)
  with processOpen_admitted [OF assms(4)] assms(4) [unfolded admitted_def] show ?thesis by (auto simp: process_def)
qed

lemma processOpen_cases:
  assumes "processOpen env inp h mpp sd s = (r, s')"
    and pre: "preimageHash (crypt env) (sdPreimage sd) = rHash h" and tot: "mppTotalMsat mpp = sdAmtMsat sd"
    and rest: "multiPath h = Some mpp" "mppTotalMsat mpp \<noteq> 0"
      "decodeStatelessData (crypt env) (PrivKey (cfg env)) (mppPaymentAddr mpp) = Ok sd"
  obtains (failed) reason where "r = Ok ()" "s' = callResolve (resolve h) (HtlcFailResolution reason) s"
      "reason \<in> {ResultInvoiceExpired, ResultHtlcSetOverpayment, ResultExpiryTooSoon, ResultNoAcceptSubscriber}"
  | (reaccept) st where "r = Ok ()" "gm_get (sets s) (rHash h) = Some st" "circuitKey h \<in> set (gm_keys (htlcs st))"
      "s' = hodlSubscribe (resolve h) (circuitKey h) s"
  | (accept) "admitted env inp h mpp sd s"
      "processAccepted env inp h sd (afterAdd h mpp sd s) (s\<lparr>sets := gm_put (rHash h) (afterAdd h mpp sd s) (sets s)\<rparr>) = (r, s')"
proof (cases "gm_get (sets s) (rHash h)")
  case None
  have add: "setsAdd (crypt env) ps k a (sets s) =
      Ok (gm_put (rHash h) \<lparr>params = ps, htlcs = [(k, a)]\<rparr> (sets s), \<lparr>params = ps, htlcs = [(k, a)]\<rparr>)"
    if "setPreimage ps = sdPreimage sd" for ps k a
    using that None pre by (simp add: setsAdd_def addHtlc_new Let_def)
  note body = processOpen_def [of env inp h mpp sd s, unfolded Let_def setsGet_def None option.case]
  show thesis
  proof (cases "admitted env inp h mpp sd s")
    case True
    with assms(1) show thesis by (intro that(3)) (simp_all add: processOpen_admitted)
  next
    case False
    with assms(1) None rest have "\<exists>reason \<in> {ResultInvoiceExpired, ResultHtlcSetOverpayment, ResultExpiryTooSoon, ResultNoAcceptSubscriber}.
        r = Ok () \<and> s' = callResolve (resolve h) (HtlcFailResolution reason) s"
      by (auto simp: body add admitted_def setTotalOf_def keysOf_def pre tot not_less split: if_splits)
    with that(1) show thesis by blast
  qed
next
  case (Some st)
  have k: "circuitKey h \<in> set (gm_keys (htlcs st)) \<longleftrightarrow> accepted st (circuitKey h)"
    using gm_keys_none [of "circuitKey h" "htlcs st"] by (auto simp: accepted_def)
  have add: "addHtlc (circuitKey h) (amtPaid h) st = Ok (afterAdd h mpp sd s)" if "\<not> accepted st (circuitKey h)"
    using that k Some gm_put_fresh [of "circuitKey h" "htlcs st"] by (auto simp: addHtlc_def accepted_def nextSet_def)
  note body = processOpen_def [of env inp h mpp sd s, unfolded Let_def setsGet_def Some option.case]
  show thesis
  proof (cases "accepted st (circuitKey h)")
    case True
    with assms(1) Some k show thesis by (intro that(2) [of st]) (auto simp: body)
  next
    case fresh: False
    show thesis
    proof (cases "admitted env inp h mpp sd s")
      case True
      with assms(1) show thesis by (intro that(3)) (simp_all add: processOpen_admitted)
    next
      case False
      with assms(1) Some fresh rest k have "\<exists>reason \<in> {ResultInvoiceExpired, ResultHtlcSetOverpayment, ResultExpiryTooSoon, ResultNoAcceptSubscriber}.
        r = Ok () \<and> s' = callResolve (resolve h) (HtlcFailResolution reason) s"
        by (auto simp: body add admitted_def setTotalOf_def keysOf_def pre tot not_less split: if_splits)
      with that(1) show thesis by blast
    qed
  qed
qed

text \<open>The branches for an invoice that is not stored, up to \<open>processOpen\<close>.\<close>

lemma process_absent_cases:
  assumes "process env inp h s = (r, s')" and q: "resolveViaDb inp h s = (Ok False, s)"
  obtains (error) e where "r = Err e" "s' = s"
  | (failed) reason where "r = Ok ()" "s' = callResolve (resolve h) (HtlcFailResolution reason) s"
  | (opened) mpp sd where "processOpen env inp h mpp sd s = (r, s')" "preimageHash (crypt env) (sdPreimage sd) = rHash h"
      "mppTotalMsat mpp = sdAmtMsat sd" "multiPath h = Some mpp" "mppTotalMsat mpp \<noteq> 0"
      "decodeStatelessData (crypt env) (PrivKey (cfg env)) (mppPaymentAddr mpp) = Ok sd"
proof (cases "multiPath h")
  case None
  with q assms(1) show thesis by (intro that(2)) (auto simp: process_def)
next
  case (Some mpp)
  show thesis
  proof (cases "decodeStatelessData (crypt env) (PrivKey (cfg env)) (mppPaymentAddr mpp)")
    case (Panic m)
    then show thesis by (simp add: decodeStatelessData_def split: option.splits)
  next
    case (Err e)
    with q Some assms(1) that(1,2) show thesis by (auto simp: process_def split: if_splits)
  next
    case (Ok sd)
    with q Some assms(1) that(2) that(3) [of mpp sd] show thesis by (auto simp: process_def split: if_splits)
  qed
qed

lemma process_cases:
  assumes "process env inp h s = (r, s')" and inv: "db_inv (crypt env) (cdb s)"
  obtains (error) e where "r = Err e" "s' = s"
  | (replay) i where "r = Ok ()" "findInvoice (rHash h) (cdb s) = Some i"
      "circuitKey h \<in> dhKey ` set (htlcsOf (rHash h) (cdb s))"
      "s' = callResolve (resolve h) (HtlcSettleResolution (diPreimage i) ResultReplayToSettled) s"
  | (closed) i where "r = Ok ()" "findInvoice (rHash h) (cdb s) = Some i"
      "circuitKey h \<notin> dhKey ` set (htlcsOf (rHash h) (cdb s))"
      "s' = callResolve (resolve h) (HtlcFailResolution ResultInvoiceNotOpen) s"
  | (failed) reason where "r = Ok ()" "s' = callResolve (resolve h) (HtlcFailResolution reason) s"
      "findInvoice (rHash h) (cdb s) = None"
  | (reaccept) st where "r = Ok ()" "gm_get (sets s) (rHash h) = Some st" "circuitKey h \<in> set (gm_keys (htlcs st))"
      "s' = hodlSubscribe (resolve h) (circuitKey h) s" "findInvoice (rHash h) (cdb s) = None"
  | (accept) mpp sd where "findInvoice (rHash h) (cdb s) = None" "admitted env inp h mpp sd s"
      "processAccepted env inp h sd (afterAdd h mpp sd s) (s\<lparr>sets := gm_put (rHash h) (afterAdd h mpp sd s) (sets s)\<rparr>) = (r, s')"
proof -
  obtain q s1 where q: "resolveViaDb inp h s = (q, s1)" by fastforce
  show thesis
    using q inv
  proof (cases rule: resolveViaDb_cases)
    case (error e)
    with q assms(1) show thesis by (intro that(1) [of e]) (simp_all add: process_def)
  next
    case (replay i)
    with q assms(1) that(2) [of i] show thesis by (simp add: process_def)
  next
    case (closed i)
    with q assms(1) that(3) [of i] show thesis by (simp add: process_def)
  next
    case absent
    with q have "resolveViaDb inp h s = (Ok False, s)" by simp
    with assms(1) show thesis
    proof (cases rule: process_absent_cases)
      case (error e)
      with that(1) show thesis by blast
    next
      case (failed reason)
      with absent that(4) show thesis by blast
    next
      case (opened mpp sd)
      then show thesis by (cases rule: processOpen_cases) (use absent that(4-6) in blast)+
    qed
  qed
qed

section \<open>Accepting\<close>

text \<open>The state in which the HTLC is recorded, its resolver is subscribed and its timer is set.\<close>

definition releaseTimeOf :: "'q registryEnv \<Rightarrow> inputs \<Rightarrow> statelessData \<Rightarrow> time" where
  "releaseTimeOf env inp sd = min (nowHold inp + HtlcHoldDuration (cfg env)) (sdExpiry sd)"

lemma fold_callAccept:
  "fold (\<lambda>(_, cb). callAccept hash setID cb) m s =
     s\<lparr>calls := calls s @ map (\<lambda>(_, cb). CallAccept cb hash setID) m\<rparr>"
  by (induction m arbitrary: s) (auto simp: callAccept_def)

definition announced :: "'r registryHtlc \<Rightarrow> bytes \<Rightarrow> ('r, 'c, 'q) InvoiceRegistry \<Rightarrow> ('r, 'c) call list" where
  "announced h setID s = map (\<lambda>(_, cb). CallAccept cb (rHash h) setID) (acceptSubscriptions (subscriptions s))"

definition acceptState ::
    "'q registryEnv \<Rightarrow> inputs \<Rightarrow> 'r registryHtlc \<Rightarrow> bytes \<Rightarrow> ('r, 'c, 'q) InvoiceRegistry \<Rightarrow> ('r, 'c, 'q) InvoiceRegistry" where
  "acceptState env inp h setID s =
     (let s1 = startAcceptTimer env (nowAccept inp) (rHash h) (hodlSubscribe (resolve h) (circuitKey h) s)
      in s1\<lparr>calls := calls s1 @ announced h setID s\<rparr>)"

lemma processAccepted_cases:
  assumes "processAccepted env inp h sd st s = (r, s')"
    and st: "gm_get (sets s) (rHash h) = Some st" and wf: "wf_set (crypt env) (rHash h) st"
  obtains (hold) "r = Ok ()" "isComplete (crypt env) st = None"
      "s' = startHtlcTimer env (rHash h) (circuitKey h) (releaseTimeOf env inp sd) (hodlSubscribe (resolve h) (circuitKey h) s)"
  | (complete) setID where "r = Ok ()" "isComplete (crypt env) st = Some setID" "\<not> AutoSettle (cfg env)"
      "s' = acceptState env inp h setID s"
  | (refused) setID e db' where "r = Err (SettleRequestDb e)" "isComplete (crypt env) st = Some setID" "AutoSettle (cfg env)"
      "s' = (acceptState env inp h setID s)\<lparr>cdb := db'\<rparr>" "sameTables (cdb s) db'"
      "RequestSettle (crypt env) (settleFaults inp) (nowSettle inp) (settleData st) (htlcs st) (cdb s) = (Err e, db')"
  | (settled) setID db' where "r = Ok ()" "isComplete (crypt env) st = Some setID" "AutoSettle (cfg env)"
      "RequestSettle (crypt env) (settleFaults inp) (nowSettle inp) (settleData st) (htlcs st) (cdb s) = (Ok (), db')"
      "s' = releasedState (rHash h) st (HtlcSettleResolution (setPreimage (params st)) ResultSettled)
              ((acceptState env inp h setID s)\<lparr>cdb := db'\<rparr>)"
proof (cases "isComplete (crypt env) st")
  case None
  with assms(1) that(1) show thesis
    by (auto simp: processAccepted_def releaseTimeOf_def min_def Let_def split: if_splits)
next
  case (Some setID)
  have sel: "sets (acceptState env inp h setID s) = sets s" "cdb (acceptState env inp h setID s) = cdb s"
    by (simp_all add: acceptState_def startAcceptTimer_def hodlSubscribe_def Let_def)
  have e: "processAccepted env inp h sd st s =
      (if AutoSettle (cfg env)
       then (case markSettleRequested env inp st (acceptState env inp h setID s) of
                     (Ok _, s4) \<Rightarrow> requestSettle env st s4
                   | (Err e, s4) \<Rightarrow> (Err e, s4)
                   | (Panic m, s4) \<Rightarrow> (Panic m, s4))
       else (Ok (), acceptState env inp h setID s))"
    using Some
    by (simp add: processAccepted_def notifySubscribers_def fold_callAccept acceptState_def announced_def Let_def
        startAcceptTimer_def hodlSubscribe_def)
  show thesis
  proof (cases "AutoSettle (cfg env)")
    case False
    with e assms(1) Some that(2) [of setID] show thesis by simp
  next
    case True
    obtain q s4 where m: "markSettleRequested env inp st (acceptState env inp h setID s) = (q, s4)" by fastforce
    from wf have gw: "gm_wf (htlcs st)" by (simp add: wf_set_def)
    show thesis
      using m gw
    proof (cases rule: markSettleRequested_cases)
      case (stored db')
      have "requestSettle env st s4 = (Ok (), releasedState (rHash h) st
          (HtlcSettleResolution (setPreimage (params st)) ResultSettled) s4)"
        using requestSettle_eq [of s4 "rHash h" st env] stored wf st sel by simp
      with e True m stored assms(1) Some sel that(4) [of setID db'] show thesis by simp
    next
      case (refused e' db')
      with e True m assms(1) Some sel that(3) [of e' setID db'] show thesis by simp
    qed
  qed
qed

end
