(* ===== verification/Registry_Invariant.thy ===== *)
theory Registry_Invariant
  imports Process_Facts
begin

text \<open>
  The invariant that ties the memory of the registry to the database, and the discipline of the
  resolutions it sends: an HTLC is told to settle only when the database records it, and to fail
  only when the database does not. \<open>keyOf\<close> gives the HTLC that a resolver belongs to and \<open>hashOf\<close> the
  payment hash of an HTLC; the node delivers an HTLC with the same hash whenever it replays it.
\<close>

section \<open>Invariants\<close>

definition paidAmount :: "hash \<Rightarrow> database \<Rightarrow> u64" where
  "paidAmount hash db = sum_list (map dhAmountMsat (htlcsOf hash db))"

definition storeInv :: "crypto \<Rightarrow> (HtlcKey \<Rightarrow> hash) \<Rightarrow> database \<Rightarrow> bool" where
  "storeInv cr hashOf db =
     (db_inv cr db \<and> (\<forall>x \<in> set (htlcTable db). dhHash x = hashOf (dhKey x) \<and> 0 < sint (dhAmountMsat x)) \<and>
      (\<forall>i \<in> set (invoiceTable db). paidAmount (diHash i) db = diAmountMsat i))"

definition heldIn :: "(HtlcKey \<Rightarrow> hash) \<Rightarrow> ('r, 'c, 'q) InvoiceRegistry \<Rightarrow> HtlcKey \<Rightarrow> bool" where
  "heldIn hashOf s k = (k \<in> keysOf (gm_get (sets s) (hashOf k)))"

definition memInv ::
    "crypto \<Rightarrow> ('r \<Rightarrow> HtlcKey) \<Rightarrow> (HtlcKey \<Rightarrow> hash) \<Rightarrow> ('r, 'c, 'q) InvoiceRegistry \<Rightarrow> bool" where
  "memInv cr keyOf hashOf s =
     (wf_sets cr (sets s) \<and>
      (\<forall>hash st. gm_get (sets s) hash = Some st \<longrightarrow>
         findInvoice hash (cdb s) = None \<and> (\<forall>k \<in> set (gm_keys (htlcs st)). hashOf k = hash)) \<and>
      (\<forall>k. subsOf s k \<noteq> [] \<longleftrightarrow> heldIn hashOf s k) \<and>
      (\<forall>k. \<forall>r \<in> set (subsOf s k). keyOf r = k))"

definition regInv ::
    "crypto \<Rightarrow> ('r \<Rightarrow> HtlcKey) \<Rightarrow> (HtlcKey \<Rightarrow> hash) \<Rightarrow> ('r, 'c, 'q) InvoiceRegistry \<Rightarrow> bool" where
  "regInv cr keyOf hashOf s = (storeInv cr hashOf (cdb s) \<and> memInv cr keyOf hashOf s)"

definition recorded :: "database \<Rightarrow> HtlcKey \<Rightarrow> preimage \<Rightarrow> bool" where
  "recorded db k p =
     (\<exists>x i. findHtlc k db = Some x \<and> findInvoice (dhHash x) db = Some i \<and> diPreimage i = p)"

text \<open>What a call of a resolver may say, in the database of the moment the event ends.\<close>

definition okCall :: "('r \<Rightarrow> HtlcKey) \<Rightarrow> database \<Rightarrow> ('r, 'c) call \<Rightarrow> bool" where
  "okCall keyOf db c =
     (case c of
        CallAccept _ _ _ \<Rightarrow> True
      | CallResolve r (HtlcSettleResolution p _) \<Rightarrow> recorded db (keyOf r) p
      | CallResolve r (HtlcFailResolution _) \<Rightarrow> findHtlc (keyOf r) db = None)"

definition goodStep ::
    "crypto \<Rightarrow> ('r \<Rightarrow> HtlcKey) \<Rightarrow> (HtlcKey \<Rightarrow> hash) \<Rightarrow> ('r, 'c, 'q) InvoiceRegistry \<Rightarrow> ('r, 'c, 'q) InvoiceRegistry \<Rightarrow> bool" where
  "goodStep cr keyOf hashOf s s' =
     (regInv cr keyOf hashOf s' \<and> db_le (cdb s) (cdb s') \<and>
      (\<exists>new. calls s' = calls s @ new \<and> (\<forall>c \<in> set new. okCall keyOf (cdb s') c)))"

lemma okCall_simps [simp]:
  "okCall keyOf db (CallAccept cb h i)"
  "okCall keyOf db (CallResolve r (HtlcSettleResolution p a)) = recorded db (keyOf r) p"
  "okCall keyOf db (CallResolve r (HtlcFailResolution f)) = (findHtlc (keyOf r) db = None)"
  by (simp_all add: okCall_def)

lemma db_le_same: "db_le db db'" if "sameTables db db'"
  using that by (rule sameTables_le)

lemma recorded_le: "recorded db k p \<Longrightarrow> db_le db db' \<Longrightarrow> recorded db' k p"
proof -
  assume r: "recorded db k p" and le: "db_le db db'"
  from r obtain x i where x: "findHtlc k db = Some x" "findInvoice (dhHash x) db = Some i" "diPreimage i = p"
    by (auto simp: recorded_def)
  with le obtain x' where x': "findHtlc k db' = Some x'" "dhHash x' = dhHash x" unfolding db_le_def by blast
  from le x(2) obtain i' where "findInvoice (dhHash x) db' = Some i'" "diPreimage i' = diPreimage i"
    unfolding db_le_def by blast
  with x x' show ?thesis by (auto simp: recorded_def)
qed

section \<open>The store\<close>

lemma storeInv_same: "storeInv cr hashOf db \<Longrightarrow> sameTables db db' \<Longrightarrow> storeInv cr hashOf db'"
  using db_inv_same by (auto simp: storeInv_def sameTables_def paidAmount_def htlcsOf_def)

lemma paidAmount_upd:
  "htlcTable db' = map (updHtlc key settled now) (htlcTable db) \<Longrightarrow> paidAmount hash db' = paidAmount hash db"
  by (simp add: paidAmount_def htlcsOf_upd comp_def)

lemma storeInv_final:
  assumes "storeInv cr hashOf db" and "MarkHtlcFinal f now key settled db = (r, db')"
  shows "storeInv cr hashOf db'"
proof (cases r)
  case (Ok u)
  then have ht: "htlcTable db' = map (updHtlc key settled now) (htlcTable db)"
    and "\<exists>hash. invoiceTable db' = invoiceTable db \<or> invoiceTable db' = map (updInvoice hash settled now) (invoiceTable db)"
    using MarkHtlcFinal_Ok [of f now key settled db u db'] assms(2) by (auto split: if_splits)
  then show ?thesis
    using assms MarkHtlcFinal_inv [of cr db f now key settled r db'] paidAmount_upd [OF ht]
    by (auto simp: storeInv_def)
qed (use assms MarkHtlcFinal_not_Ok [OF assms(2)] storeInv_same in auto)

lemma storeInv_settled:
  assumes "storeInv cr hashOf db" and "hs \<noteq> []"
    and "RequestSettle cr f now invoice hs db = (Ok u, db')"
    and "\<And>k. k \<in> set (gm_keys hs) \<Longrightarrow> hashOf k = preimageHash cr (PaymentPreimage invoice)"
    and "sum_list (map snd hs) = Value invoice"
  shows "storeInv cr hashOf db'"
proof -
  have k: "hashOf (fst p) = preimageHash cr (PaymentPreimage invoice)" if "p \<in> set hs" for p
    using that by (intro assms(4)) (simp add: gm_keys_def)
  from assms(3) have ii: "invoiceInsertable cr invoice db" and db': "db' = settledDb cr now invoice hs db"
    by (auto simp: RequestSettle_Ok)
  from assms(1) have inv: "db_inv cr db" by (simp add: storeInv_def)
  have fresh: "diHash i \<noteq> preimageHash cr (PaymentPreimage invoice)" if "i \<in> set (invoiceTable db)" for i
    using ii that by (auto simp: invoiceInsertable_def findInvoice_def find_None_iff)
  have "paidAmount (diHash i) db' = diAmountMsat i" if "i \<in> set (invoiceTable db')" for i
    using that assms(1,5) fresh
    by (auto simp: db' settledDb_sel paidAmount_def htlcsOf_settledDb [OF inv ii] storeInv_def newHtlcRow_def comp_def)
  with assms(1,3) k RequestSettle_inv [OF _ assms(2,3)] show ?thesis
    by (auto simp: storeInv_def RequestSettle_Ok settledDb_sel newHtlcRow_def htlcsInsertable_def)
qed

lemma findHtlc_None_hash:
  assumes "storeInv cr hashOf db" and "findInvoice (hashOf k) db = None"
  shows "findHtlc k db = None"
proof (cases "findHtlc k db")
  case (Some x)
  then have "x \<in> set (htlcTable db)" "dhKey x = k" using findHtlc_key by auto
  with assms have "hashOf k \<in> diHash ` set (invoiceTable db)" by (auto simp: storeInv_def db_inv_def)
  with assms(2) show ?thesis by (auto simp: findInvoice_def find_None_iff)
qed simp

lemma findHtlc_rows:
  assumes "storeInv cr hashOf db"
  shows "k \<in> dhKey ` set (htlcsOf (hashOf k) db) \<longleftrightarrow> findHtlc k db \<noteq> None"
proof
  assume "findHtlc k db \<noteq> None"
  then obtain x where "findHtlc k db = Some x" by blast
  with assms findHtlc_key show "k \<in> dhKey ` set (htlcsOf (hashOf k) db)"
    by (force simp: storeInv_def htlcsOf_key)
qed (auto simp: findHtlc_def find_None_iff htlcsOf_key)

lemma recorded_row:
  assumes "storeInv cr hashOf db" and "findHtlc k db \<noteq> None" and "findInvoice (hashOf k) db = Some i"
  shows "recorded db k (diPreimage i)"
proof -
  from assms(2) obtain x where x: "findHtlc k db = Some x" by blast
  with assms(1) have "dhHash x = hashOf k" using findHtlc_key [OF x] by (auto simp: storeInv_def)
  with x assms(3) show ?thesis by (auto simp: recorded_def)
qed

lemma recorded_settled:
  assumes "RequestSettle cr f now invoice hs db = (Ok u, db')" and "k \<in> set (gm_keys hs)"
  shows "recorded db' k (PaymentPreimage invoice)"
proof -
  let ?hash = "preimageHash cr (PaymentPreimage invoice)"
  from assms(1) have ii: "invoiceInsertable cr invoice db" and hi: "htlcsInsertable hs db"
    and db': "db' = settledDb cr now invoice hs db" by (auto simp: RequestSettle_Ok)
  from assms(2) obtain a where a: "(k, a) \<in> set hs" by (auto simp: gm_keys_def)
  with hi have "findHtlc k db = None" by (auto simp: htlcsInsertable_def)
  then have f: "findHtlc k db' = find (\<lambda>h. dhKey h = k) (map (newHtlcRow now ?hash) hs)"
    by (simp add: findHtlc_def db' settledDb_sel find_append)
  have "findHtlc k db' \<noteq> None"
    unfolding f find_None_iff using a by (auto simp: newHtlcRow_def intro!: bexI [of _ "(k, a)"])
  then obtain x where x: "findHtlc k db' = Some x" by blast
  then have "find (\<lambda>h. dhKey h = k) (map (newHtlcRow now ?hash) hs) = Some x" using f by simp
  then have "dhHash x = ?hash" by (auto simp: find_Some_iff newHtlcRow_def)
  with x findInvoice_settledDb [OF ii, of ?hash now hs] show ?thesis by (simp add: recorded_def db')
qed

section \<open>The memory\<close>

lemma memInv_cong:
  assumes "memInv cr keyOf hashOf s" and "sets s' = sets s" and "hodlSubscriptions s' = hodlSubscriptions s"
    and "\<And>hash. findInvoice hash (cdb s) = None \<Longrightarrow> findInvoice hash (cdb s') = None"
  shows "memInv cr keyOf hashOf s'"
  using assms unfolding memInv_def by (simp add: subsOf_def heldIn_def)

lemma memInv_wf: "memInv cr keyOf hashOf s \<Longrightarrow> wf_sets cr (sets s)"
  and memInv_open: "memInv cr keyOf hashOf s \<Longrightarrow> gm_get (sets s) hash = Some st \<Longrightarrow> findInvoice hash (cdb s) = None"
  and memInv_hash: "memInv cr keyOf hashOf s \<Longrightarrow> gm_get (sets s) hash = Some st \<Longrightarrow>
      k \<in> set (gm_keys (htlcs st)) \<Longrightarrow> hashOf k = hash"
  and memInv_held: "memInv cr keyOf hashOf s \<Longrightarrow> subsOf s k \<noteq> [] \<longleftrightarrow> heldIn hashOf s k"
  and memInv_key: "memInv cr keyOf hashOf s \<Longrightarrow> r \<in> set (subsOf s k) \<Longrightarrow> keyOf r = k"
  by (auto simp: memInv_def)

lemma subsOf_released:
  "subsOf (releasedState hash st res s) k = (if k \<in> set (gm_keys (htlcs st)) then [] else subsOf s k)"
  by (simp add: subsOf_def releasedState_def gm_get_fold_del)

lemma memInv_released:
  assumes inv: "memInv cr keyOf hashOf s" and st: "gm_get (sets s) hash = Some st"
    and db: "\<And>hash'. hash' \<noteq> hash \<Longrightarrow> findInvoice hash' (cdb s') = findInvoice hash' (cdb s)"
    and s': "sets s' = sets s" "hodlSubscriptions s' = hodlSubscriptions s"
  shows "memInv cr keyOf hashOf (releasedState hash st res s')"
  unfolding memInv_def
proof (intro conjI allI impI ballI)
  have sets': "sets (releasedState hash st res s') = gm_del hash (sets s)"
    and cdb': "cdb (releasedState hash st res s') = cdb s'"
    by (simp_all add: releasedState_def s')
  have subs: "subsOf (releasedState hash st res s') k = (if k \<in> set (gm_keys (htlcs st)) then [] else subsOf s k)" for k
    by (simp add: subsOf_released) (simp add: subsOf_def s')
  show "wf_sets cr (sets (releasedState hash st res s'))"
    using memInv_wf [OF inv] by (simp add: sets')
  fix hash' st' k r
  show "findInvoice hash' (cdb (releasedState hash st res s')) = None"
    if "gm_get (sets (releasedState hash st res s')) hash' = Some st'"
    using that memInv_open [OF inv, of hash' st'] db by (simp add: sets' cdb' split: if_splits)
  show "hashOf k = hash'"
    if "gm_get (sets (releasedState hash st res s')) hash' = Some st'" "k \<in> set (gm_keys (htlcs st'))"
    using that memInv_hash [OF inv] by (auto simp: sets' split: if_splits)
  show "subsOf (releasedState hash st res s') k \<noteq> [] \<longleftrightarrow> heldIn hashOf (releasedState hash st res s') k"
    using memInv_held [OF inv, of k] memInv_hash [OF inv st, of k] st
    by (auto simp: subs heldIn_def sets' keysOf_def split: option.splits)
  show "keyOf r = k" if "r \<in> set (subsOf (releasedState hash st res s') k)"
    using that memInv_key [OF inv] by (auto simp: subs split: if_splits)
qed

lemma subsOf_hodl:
  "subsOf (hodlSubscribe r key s) k = (if k = key then subsOf s key @ [r] else subsOf s k)"
  by (auto simp: subsOf_def hodlSubscribe_def Let_def split: option.splits)

lemma hodlSubscribe_sel [simp]:
  "sets (hodlSubscribe r k s) = sets s" "cdb (hodlSubscribe r k s) = cdb s"
  "calls (hodlSubscribe r k s) = calls s" "autoReleaseHeap (hodlSubscribe r k s) = autoReleaseHeap s"
  "subscriptions (hodlSubscribe r k s) = subscriptions s"
  by (simp_all add: hodlSubscribe_def Let_def)

lemma memInv_reaccept:
  assumes inv: "memInv cr keyOf hashOf s" and "gm_get (sets s) (hashOf (keyOf r)) = Some st"
    and "keyOf r \<in> set (gm_keys (htlcs st))"
  shows "memInv cr keyOf hashOf (hodlSubscribe r (keyOf r) s)"
    (is "memInv _ _ _ ?s'")
  unfolding memInv_def
proof (intro conjI allI impI ballI)
  show "wf_sets cr (sets ?s')" using memInv_wf [OF inv] by simp
  fix hash' st' k r'
  show "findInvoice hash' (cdb ?s') = None" if "gm_get (sets ?s') hash' = Some st'"
    using that memInv_open [OF inv, of hash' st'] by simp
  show "hashOf k = hash'" if "gm_get (sets ?s') hash' = Some st'" "k \<in> set (gm_keys (htlcs st'))"
    using that memInv_hash [OF inv] by simp
  have "heldIn hashOf s (keyOf r)" using assms(2,3) by (simp add: heldIn_def keysOf_def)
  then show "subsOf ?s' k \<noteq> [] \<longleftrightarrow> heldIn hashOf ?s' k"
    using memInv_held [OF inv, of k] by (auto simp: subsOf_hodl heldIn_def)
  show "keyOf r' = k" if "r' \<in> set (subsOf ?s' k)"
    using that memInv_key [OF inv] by (auto simp: subsOf_hodl split: if_splits)
qed

text \<open>Recording a new HTLC in its set and subscribing its resolver.\<close>

lemma memInv_added:
  assumes inv: "memInv cr keyOf hashOf s" and fresh: "keyOf r \<notin> keysOf (gm_get (sets s) hash)"
    and wf: "wf_set cr hash st" and hash: "hashOf (keyOf r) = hash" and none: "findInvoice hash (cdb s) = None"
    and keys: "set (gm_keys (htlcs st)) = insert (keyOf r) (keysOf (gm_get (sets s) hash))"
  shows "memInv cr keyOf hashOf (hodlSubscribe r (keyOf r) (s\<lparr>sets := gm_put hash st (sets s)\<rparr>))"
    (is "memInv _ _ _ ?s'")
  unfolding memInv_def
proof (intro conjI allI impI ballI)
  have subs: "subsOf ?s' k = (if k = keyOf r then subsOf s k @ [r] else subsOf s k)" for k
    by (simp add: subsOf_hodl) (simp add: subsOf_def)
  show "wf_sets cr (sets ?s')" using memInv_wf [OF inv] wf by simp
  fix hash' st' k r'
  show "findInvoice hash' (cdb ?s') = None" if "gm_get (sets ?s') hash' = Some st'"
    using that memInv_open [OF inv, of hash' st'] none by (auto split: if_splits)
  show "hashOf k = hash'" if "gm_get (sets ?s') hash' = Some st'" "k \<in> set (gm_keys (htlcs st'))"
    using that memInv_hash [OF inv] keys hash by (auto simp: keysOf_def split: if_splits option.splits)
  show "subsOf ?s' k \<noteq> [] \<longleftrightarrow> heldIn hashOf ?s' k"
    using memInv_held [OF inv, of k] hash keys by (auto simp: subs heldIn_def keysOf_def)
  show "keyOf r' = k" if "r' \<in> set (subsOf ?s' k)"
    using that memInv_key [OF inv] by (auto simp: subs split: if_splits)
qed

lemma droppedSets_get:
  "gm_get (droppedSets hash st key sts) hash' =
     (if hash' = hash then (if gm_del key (htlcs st) = [] then None else Some (st\<lparr>htlcs := gm_del key (htlcs st)\<rparr>))
      else gm_get sts hash')"
  by (simp add: droppedSets_def)

lemma memInv_dropped:
  assumes inv: "memInv cr keyOf hashOf s" and st: "gm_get (sets s) hash = Some st"
    and key: "key \<in> set (gm_keys (htlcs st))"
  shows "memInv cr keyOf hashOf (notifyHodlSubscribers key res (s\<lparr>sets := droppedSets hash st key (sets s)\<rparr>))"
    (is "memInv _ _ _ ?s'")
  unfolding memInv_def
proof (intro conjI allI impI ballI)
  have subs: "subsOf ?s' k = (if k = key then [] else subsOf s k)" for k
    by (simp add: notifyHodlSubscribers_eq subsOf_def)
  have sets': "sets ?s' = droppedSets hash st key (sets s)" and cdb': "cdb ?s' = cdb s"
    by (simp_all add: notifyHodlSubscribers_eq)
  have wst: "wf_set cr hash st" "gm_wf (sets s)" using memInv_wf [OF inv] st by (auto simp: wf_sets_def)
  then have "wf_sets cr (droppedSets hash st key (sets s))"
    using memInv_wf [OF inv] unfolding droppedSets_def Let_def
    by (auto intro!: wf_sets_put simp: wf_set_def setHash_def)
  then show "wf_sets cr (sets ?s')" by (simp only: sets')
  fix hash' st' k r
  show "findInvoice hash' (cdb ?s') = None" if "gm_get (sets ?s') hash' = Some st'"
    using that memInv_open [OF inv] st by (auto simp: sets' cdb' droppedSets_get split: if_splits)
  show "hashOf k = hash'" if "gm_get (sets ?s') hash' = Some st'" "k \<in> set (gm_keys (htlcs st'))"
    using that memInv_hash [OF inv] st by (auto simp: sets' droppedSets_get split: if_splits)
  have "hashOf k = hash \<Longrightarrow> k \<noteq> key \<Longrightarrow> gm_del key (htlcs st) = [] \<Longrightarrow> k \<notin> set (gm_keys (htlcs st))" for k
    using gm_del_Nil_keys [of "htlcs st" key] wst by (auto simp: wf_set_def)
  then show "subsOf ?s' k \<noteq> [] \<longleftrightarrow> heldIn hashOf ?s' k"
    using memInv_held [OF inv, of k] memInv_hash [OF inv st, of key] key st
    by (auto simp: subs heldIn_def sets' droppedSets_get keysOf_def split: option.splits if_splits)
  show "keyOf r = k" if "r \<in> set (subsOf ?s' k)"
    using that memInv_key [OF inv] by (auto simp: subs split: if_splits)
qed

end
