(* ===== verification/Registry_Steps.thy ===== *)
theory Registry_Steps
  imports Registry_Invariant
begin

text \<open>
  Every iteration of the event loop keeps the invariant of the registry, only lets the database grow,
  and sends only resolutions that agree with the database.
\<close>

section \<open>Callbacks\<close>

lemma callResolve_sel [simp]:
  "sets (callResolve r res s) = sets s" "cdb (callResolve r res s) = cdb s"
  "hodlSubscriptions (callResolve r res s) = hodlSubscriptions s"
  "calls (callResolve r res s) = calls s @ [CallResolve r res]"
  by (simp_all add: callResolve_def)

lemma goodStep_refl: "regInv cr keyOf hashOf s \<Longrightarrow> goodStep cr keyOf hashOf s s"
  by (simp add: goodStep_def)

lemma goodStep_callResolve:
  assumes "regInv cr keyOf hashOf s" and "okCall keyOf (cdb s) (CallResolve r res :: ('r, 'c) call)"
  shows "goodStep cr keyOf hashOf s (callResolve r res (s :: ('r, 'c, 'q) InvoiceRegistry))"
  using assms memInv_cong [of cr keyOf hashOf s "callResolve r res s"]
  by (auto simp: goodStep_def regInv_def)

lemma goodStep_same:
  assumes "regInv cr keyOf hashOf s" and "sets s' = sets s" and "hodlSubscriptions s' = hodlSubscriptions s"
    and "sameTables (cdb s) (cdb s')" and "calls s' = calls s @ new" and "\<forall>c \<in> set new. okCall keyOf (cdb s') c"
  shows "goodStep cr keyOf hashOf s s'"
proof -
  have "memInv cr keyOf hashOf s'"
    using assms(1-4) memInv_cong [of cr keyOf hashOf s s'] by (simp add: regInv_def)
  with assms storeInv_same db_le_same show ?thesis by (auto simp: goodStep_def regInv_def)
qed

lemma goodStep_then:
  assumes "goodStep cr keyOf hashOf s s'" and "goodStep cr keyOf hashOf s' s''" and "cdb s'' = cdb s'"
  shows "goodStep cr keyOf hashOf s s''"
proof -
  from assms(1) obtain n1 where n1: "calls s' = calls s @ n1" "\<forall>c \<in> set n1. okCall keyOf (cdb s') c" "db_le (cdb s) (cdb s')"
    by (auto simp: goodStep_def)
  from assms(2) obtain n2 where n2: "calls s'' = calls s' @ n2" "\<forall>c \<in> set n2. okCall keyOf (cdb s'') c" "regInv cr keyOf hashOf s''"
    by (auto simp: goodStep_def)
  have "calls s'' = calls s @ (n1 @ n2) \<and> (\<forall>c \<in> set (n1 @ n2). okCall keyOf (cdb s'') c)"
    using n1 n2 assms(3) by auto
  with n1(3) n2(3) assms(3) show ?thesis unfolding goodStep_def by metis
qed

section \<open>Releasing sets\<close>

lemma set_resolutions:
  "c \<in> set (resolutions res s ks) \<longleftrightarrow> (\<exists>k \<in> set ks. \<exists>r \<in> set (subsOf s k). c = CallResolve r res)"
  by (auto simp: resolutions_def)

lemma releasedState_sel [simp]:
  "cdb (releasedState hash st res s) = cdb s" "sets (releasedState hash st res s) = gm_del hash (sets s)"
  "calls (releasedState hash st res s) = calls s @ resolutions res s (gm_keys (htlcs st))"
  "autoReleaseHeap (releasedState hash st res s) = autoReleaseHeap s"
  "subscriptions (releasedState hash st res s) = subscriptions s"
  by (simp_all add: releasedState_def)

lemma held_unrecorded:
  assumes "regInv cr keyOf hashOf s" and "gm_get (sets s) hash = Some st" and "k \<in> set (gm_keys (htlcs st))"
  shows "findHtlc k (cdb s) = None"
proof (rule findHtlc_None_hash)
  show "storeInv cr hashOf (cdb s)" using assms(1) by (simp add: regInv_def)
  show "findInvoice (hashOf k) (cdb s) = None"
    using assms memInv_open memInv_hash by (fastforce simp: regInv_def)
qed

lemma goodStep_failAll:
  assumes inv: "regInv cr keyOf hashOf s" and st: "gm_get (sets s) hash = Some st"
  shows "goodStep cr keyOf hashOf s (releasedState hash st (HtlcFailResolution reason) s)"
proof -
  have mem: "memInv cr keyOf hashOf s" using inv by (simp add: regInv_def)
  have "okCall keyOf (cdb s) c" if c: "c \<in> set (resolutions (HtlcFailResolution reason) s (gm_keys (htlcs st)))" for c
    using c held_unrecorded [OF inv st] memInv_key [OF mem] by (auto simp: set_resolutions)
  with inv memInv_released [OF mem st, of s] show ?thesis by (auto simp: goodStep_def regInv_def)
qed

text \<open>Settling a set: the request is stored first, then every HTLC is told to settle.\<close>

lemma goodStep_settleAll:
  assumes inv: "regInv cr keyOf hashOf s" and st: "gm_get (sets s) hash = Some st" "isComplete cr st = Some setID"
    and op: "RequestSettle cr f now (settleData st) (htlcs st) (cdb s) = (Ok u, db')"
    and s': "sets s' = sets s" "hodlSubscriptions s' = hodlSubscriptions s" "cdb s' = db'"
      "calls s' = calls s @ new" "\<forall>c \<in> set new. okCall keyOf db' c"
  shows "goodStep cr keyOf hashOf s
    (releasedState hash st (HtlcSettleResolution (setPreimage (params st)) ResultSettled) s')"
proof -
  have mem: "memInv cr keyOf hashOf s" and sto: "storeInv cr hashOf (cdb s)" using inv by (simp_all add: regInv_def)
  have ws: "wf_set cr hash st" using memInv_wf [OF mem] st(1) by blast
  have hash: "hash = preimageHash cr (PaymentPreimage (settleData st))" using ws by (simp add: wf_set_def setHash_def)
  have "storeInv cr hashOf db'"
    using storeInv_settled [OF sto _ op] memInv_hash [OF mem st(1)] ws hash st(2)
    by (simp add: wf_set_def isComplete_def totalSetAmt_def split: if_splits)
  moreover from op have ii: "invoiceInsertable cr (settleData st) (cdb s)"
    and db': "db' = settledDb cr now (settleData st) (htlcs st) (cdb s)" by (auto simp: RequestSettle_Ok)
  have "memInv cr keyOf hashOf (releasedState hash st res s')" for res
    using memInv_released [OF mem st(1) _ s'(1,2), of res] findInvoice_settledDb [OF ii] hash s'(3) db' by simp
  moreover have "subsOf s' k = subsOf s k" for k by (simp add: subsOf_def s'(2))
  then have "okCall keyOf db' c"
    if c: "c \<in> set (resolutions (HtlcSettleResolution (setPreimage (params st)) ResultSettled) s' (gm_keys (htlcs st)))" for c
    using c memInv_key [OF mem] recorded_settled [OF op] by (fastforce simp: set_resolutions)
  ultimately show ?thesis
    using RequestSettle_le [OF op] s' by (auto simp: goodStep_def regInv_def intro!: exI [of _ "new @ _"])
qed

lemma goodStep_cancelSingle:
  assumes inv: "regInv (crypt env) keyOf hashOf s" and op: "cancelSingleHtlc env hash key reason s = (r, s')"
  shows "goodStep (crypt env) keyOf hashOf s s'"
proof -
  have mem: "memInv (crypt env) keyOf hashOf s" using inv by (simp add: regInv_def)
  note eq = cancelSingleHtlc_eq [OF memInv_wf [OF mem], of hash key reason]
  show ?thesis
  proof (cases "\<exists>st. gm_get (sets s) hash = Some st \<and> isComplete (crypt env) st = None \<and> key \<in> set (gm_keys (htlcs st))")
    case True
    then obtain st where st: "gm_get (sets s) hash = Some st" "isComplete (crypt env) st = None"
      "key \<in> set (gm_keys (htlcs st))" by blast
    with op eq have s': "s' = notifyHodlSubscribers key (HtlcFailResolution reason) (s\<lparr>sets := droppedSets hash st key (sets s)\<rparr>)"
      by simp
    have "\<forall>r \<in> set (subsOf s key). findHtlc (keyOf r) (cdb s) = None"
      using memInv_key [OF mem] held_unrecorded [OF inv st(1,3)] by blast
    with inv memInv_dropped [OF mem st(1,3), of "HtlcFailResolution reason"] show ?thesis
      unfolding s' by (auto simp: goodStep_def regInv_def notifyHodlSubscribers_eq subsOf_def)
  next
    case False
    with op eq have "s' = s" by (auto split: option.splits if_splits)
    with inv show ?thesis by (simp add: goodStep_refl)
  qed
qed

section \<open>Processing an HTLC\<close>

definition wfHtlc :: "('r \<Rightarrow> HtlcKey) \<Rightarrow> (HtlcKey \<Rightarrow> hash) \<Rightarrow> 'r registryHtlc \<Rightarrow> bool" where
  "wfHtlc keyOf hashOf h = (keyOf (resolve h) = circuitKey h \<and> rHash h = hashOf (circuitKey h))"

lemma acceptState_sel [simp]:
  "sets (acceptState env inp h setID s) = sets s" "cdb (acceptState env inp h setID s) = cdb s"
  "hodlSubscriptions (acceptState env inp h setID s) = hodlSubscriptions (hodlSubscribe (resolve h) (circuitKey h) s)"
  "calls (acceptState env inp h setID s) = calls s @ announced h setID s"
  by (simp_all add: acceptState_def startAcceptTimer_def Let_def)

lemma announced_ok: "\<forall>c \<in> set (announced h setID s). okCall keyOf db c"
  by (auto simp: announced_def)

lemma hodlSubscribe_cdb: "hodlSubscribe r k (s\<lparr>cdb := db\<rparr>) = (hodlSubscribe r k s)\<lparr>cdb := db\<rparr>"
  by (simp add: hodlSubscribe_def Let_def)

lemma goodStep_accepted:
  assumes inv: "regInv (crypt env) keyOf hashOf s" and h: "wfHtlc keyOf hashOf h"
    and none: "findInvoice (rHash h) (cdb s) = None" and ad: "admitted env inp h mpp sd s"
    and op: "processAccepted env inp h sd (afterAdd h mpp sd s) (s\<lparr>sets := gm_put (rHash h) (afterAdd h mpp sd s) (sets s)\<rparr>) = (r, s')"
  shows "goodStep (crypt env) keyOf hashOf s s'"
proof -
  let ?st = "afterAdd h mpp sd s"
  let ?s1 = "s\<lparr>sets := gm_put (rHash h) ?st (sets s)\<rparr>"
  let ?s2 = "hodlSubscribe (resolve h) (circuitKey h) ?s1"
  have mem: "memInv (crypt env) keyOf hashOf s" using inv by (simp add: regInv_def)
  have ws: "wf_set (crypt env) (rHash h) ?st"
    using wf_set_nextSet [OF memInv_wf [OF mem], of sd "rHash h" h mpp] ad by (simp add: admitted_def)
  have "memInv (crypt env) keyOf hashOf ?s2"
    using memInv_added [OF mem, of "resolve h" "rHash h" ?st] ad h none ws nextSet_keys [of h mpp sd]
    by (simp add: wfHtlc_def admitted_def)
  then have inv2: "regInv (crypt env) keyOf hashOf ?s2" using inv by (simp add: regInv_def)
  have step2: "goodStep (crypt env) keyOf hashOf s ?s2" using inv2 by (simp add: goodStep_def)
  have get: "gm_get (sets ?s1) (rHash h) = Some ?st" by simp
  show ?thesis
    using op get ws
  proof (cases rule: processAccepted_cases)
    case hold
    then have "goodStep (crypt env) keyOf hashOf ?s2 s'"
      by (intro goodStep_same [OF inv2, where new = "[]"]) (simp_all add: startHtlcTimer_def sameTables_def)
    with step2 hold show ?thesis by (intro goodStep_then [OF step2]) (simp_all add: startHtlcTimer_def)
  next
    case (complete setID)
    then have "goodStep (crypt env) keyOf hashOf ?s2 s'"
      by (intro goodStep_same [OF inv2, where new = "announced h setID ?s1"]) (simp_all add: sameTables_def announced_ok)
    with step2 complete show ?thesis by (intro goodStep_then [OF step2]) simp_all
  next
    case (refused setID e db')
    then have "goodStep (crypt env) keyOf hashOf ?s2 s'"
      by (intro goodStep_same [OF inv2, where new = "announced h setID ?s1"]) (simp_all add: announced_ok)
    then show ?thesis by (simp add: goodStep_def)
  next
    case (settled setID db')
    have "goodStep (crypt env) keyOf hashOf ?s2 s'"
      unfolding settled(5)
      by (rule goodStep_settleAll [OF inv2 _ settled(2), where new = "announced h setID ?s1"])
        (use settled(4) in \<open>simp_all add: announced_ok\<close>)
    then show ?thesis by (simp add: goodStep_def)
  qed
qed

lemma goodStep_process:
  assumes inv: "regInv (crypt env) keyOf hashOf s" and h: "wfHtlc keyOf hashOf h"
    and op: "process env inp h s = (r, s')"
  shows "goodStep (crypt env) keyOf hashOf s s'"
proof -
  have mem: "memInv (crypt env) keyOf hashOf s" and sto: "storeInv (crypt env) hashOf (cdb s)"
    using inv by (simp_all add: regInv_def)
  have dbi: "db_inv (crypt env) (cdb s)" using sto by (simp add: storeInv_def)
  have key: "keyOf (resolve h) = circuitKey h" and hash: "rHash h = hashOf (circuitKey h)"
    using h by (simp_all add: wfHtlc_def)
  show ?thesis
    using op dbi
  proof (cases rule: process_cases)
    case (error e)
    with inv show ?thesis by (simp add: goodStep_refl)
  next
    case (replay i)
    have "recorded (cdb s) (keyOf (resolve h)) (diPreimage i)"
      using replay recorded_row [OF sto] findHtlc_rows [OF sto] by (simp add: key hash)
    with inv replay show ?thesis by (simp add: goodStep_callResolve)
  next
    case (closed i)
    then have "findHtlc (keyOf (resolve h)) (cdb s) = None"
      using findHtlc_rows [OF sto, of "circuitKey h"] by (simp add: key hash)
    with inv closed show ?thesis by (simp add: goodStep_callResolve)
  next
    case (failed reason)
    then have "findHtlc (keyOf (resolve h)) (cdb s) = None"
      using findHtlc_None_hash [OF sto] by (simp add: key hash)
    with inv failed show ?thesis by (simp add: goodStep_callResolve)
  next
    case (reaccept st)
    with memInv_reaccept [OF mem, of "resolve h" st] inv show ?thesis
      by (simp add: goodStep_def regInv_def key hash)
  next
    case (accept mpp sd)
    with goodStep_accepted [OF inv h] show ?thesis by blast
  qed
qed

section \<open>The event loop\<close>

fun wfEvent :: "('r \<Rightarrow> HtlcKey) \<Rightarrow> (HtlcKey \<Rightarrow> hash) \<Rightarrow> ('r, 'c) event \<Rightarrow> bool" where
  "wfEvent keyOf hashOf (NewHtlc h) = wfHtlc keyOf hashOf h"
| "wfEvent keyOf hashOf _ = True"

definition acceptCalls :: "'q registryEnv \<Rightarrow> 'c \<Rightarrow> htlcSetsImpl \<Rightarrow> ('r, 'c) call list" where
  "acceptCalls env cb sts =
     concat (map (\<lambda>(_, st). case isComplete (crypt env) st of
       None \<Rightarrow> [] | Some setID \<Rightarrow> [CallAccept cb (setHash (crypt env) st) setID]) sts)"

lemma fold_acceptCalls:
  "fold (\<lambda>(_, st) w. case isComplete (crypt env) st of None \<Rightarrow> w
      | Some setID \<Rightarrow> callAccept (setHash (crypt env) st) setID cb w) m t =
   t\<lparr>calls := calls t @ acceptCalls env cb m\<rparr>"
  by (induction m arbitrary: t) (auto simp: callAccept_def acceptCalls_def split: option.splits)

lemma addAcceptSubscriber_eq:
  "addAcceptSubscriber env sid cb s =
     s\<lparr>subscriptions := addAcceptSubscription sid cb (subscriptions s),
       calls := calls s @ acceptCalls env cb (sets s)\<rparr>"
  by (simp add: addAcceptSubscriber_def setsForEach_def fold_acceptCalls)

lemma goodStep_tick:
  assumes inv: "regInv (crypt env) keyOf hashOf s" and op: "handleTick env s = (r, s')"
  shows "goodStep (crypt env) keyOf hashOf s s'"
proof -
  obtain head heap' where pop: "pqPop (heapOf env) (autoReleaseHeap s) = (head, heap')" by fastforce
  let ?s1 = "s\<lparr>autoReleaseHeap := heap'\<rparr>"
  have inv1: "regInv (crypt env) keyOf hashOf ?s1"
    using inv memInv_cong [of "crypt env" keyOf hashOf s ?s1] by (simp add: regInv_def)
  have "goodStep (crypt env) keyOf hashOf ?s1 s'"
  proof (cases head)
    case (HtlcReleaseEvent hash t key)
    with op pop goodStep_cancelSingle [OF inv1] show ?thesis by (simp add: handleTick_def)
  next
    case (AcceptTimeoutEvent hash t)
    with op pop have f: "failInvoice env hash ?s1 = (r, s')" by (simp add: handleTick_def)
    have "wf_sets (crypt env) (sets ?s1)" using inv1 memInv_wf by (fastforce simp: regInv_def)
    with f inv1 goodStep_failAll [OF inv1] goodStep_refl show ?thesis
      by (auto simp: failInvoice_eq split: option.splits)
  qed
  then show ?thesis by (simp add: goodStep_def)
qed

lemma goodStep_settleRequest:
  assumes inv: "regInv (crypt env) keyOf hashOf s" and op: "handleSettleRequest env inp hash setID s = (r, s')"
  shows "goodStep (crypt env) keyOf hashOf s s'"
proof -
  have "wf_sets (crypt env) (sets s)" using inv memInv_wf by (auto simp: regInv_def)
  with op show ?thesis
  proof (cases rule: handleSettleRequest_cases)
    case answered
    with inv show ?thesis by (simp add: goodStep_refl)
  next
    case (refused st e db')
    then show ?thesis by (intro goodStep_same [OF inv, where new = "[]"]) auto
  next
    case (settled st db')
    show ?thesis
      unfolding settled(6) by (rule goodStep_settleAll [OF inv settled(2,3,5), where new = "[]"]) auto
  qed
qed

text \<open>One iteration of the loop, whatever it received.\<close>

lemma goodStep_loop:
  assumes inv: "regInv (crypt env) keyOf hashOf s" and ev: "wfEvent keyOf hashOf ev"
    and op: "invoiceEventLoop_step env inp ev s = (r, s')"
  shows "goodStep (crypt env) keyOf hashOf s s'"
proof -
  have wf: "wf_sets (crypt env) (sets s)" using inv memInv_wf by (auto simp: regInv_def)
  show ?thesis
    using op
  proof (cases rule: loop_cases)
    case (tick now q)
    with goodStep_tick [OF inv] show ?thesis by blast
  next
    case (htlc h q)
    with goodStep_process [OF inv] ev show ?thesis by simp
  next
    case (subscribe sid cb)
    then show ?thesis
      by (intro goodStep_same [OF inv, where new = "acceptCalls env cb (sets s)"])
        (auto simp: addAcceptSubscriber_eq acceptCalls_def sameTables_def split: option.splits)
  next
    case (unsubscribe sid)
    then show ?thesis by (intro goodStep_same [OF inv, where new = "[]"]) (auto simp: sameTables_def)
  next
    case (settle hash setID q)
    from settle(2) wf goodStep_settleRequest [OF inv] show ?thesis by blast
  next
    case (cancel hash setID q)
    from cancel(2) wf show ?thesis
      by (cases rule: handleCancelRequest_cases) (use inv goodStep_refl goodStep_failAll [OF inv] in blast)+
  next
    case finished
    with inv show ?thesis by (simp add: goodStep_refl)
  qed
qed

end
