(* ===== verification/Settlement.thy ===== *)
theory Settlement
  imports Registry_Steps
begin

text \<open>
  The registry, the database and the final events of the nodes as one step system. A step is one
  iteration of the event loop, the recording of a final HTLC event by the settled handler, the
  drawing of a subscriber id, or the end of the process in the middle of an iteration (at any
  callback), after which it starts again with empty memory on the same database. The calls that were
  made are kept over restarts: the nodes remember the resolutions they received.
\<close>

section \<open>Steps\<close>

definition restart :: "'q registryEnv \<Rightarrow> ('r, 'c, 'q) InvoiceRegistry \<Rightarrow> ('r, 'c, 'q) InvoiceRegistry" where
  "restart env s = (NewRegistry env (cdb s))\<lparr>calls := calls s\<rparr>"

text \<open>The state when the process dies after \<open>n\<close> of the callbacks of an iteration.\<close>

definition cutCalls :: "nat \<Rightarrow> ('r, 'c, 'q) InvoiceRegistry \<Rightarrow> ('r, 'c, 'q) InvoiceRegistry \<Rightarrow> ('r, 'c, 'q) InvoiceRegistry" where
  "cutCalls n s s' = s'\<lparr>calls := calls s @ take n (drop (length (calls s)) (calls s'))\<rparr>"

datatype ('r, 'c) sysEvent =
    SysLoop "('r, 'c) event" "requestError option option"
  | SysDied "('r, 'c) event"
  | SysSubscribe u64
  | SysFinal HtlcKey bool "(dbError, hash option) outcome"

inductive sysStep ::
    "'q registryEnv \<Rightarrow> ('r \<Rightarrow> HtlcKey) \<Rightarrow> (HtlcKey \<Rightarrow> hash) \<Rightarrow> ('r, 'c, 'q) InvoiceRegistry \<Rightarrow> ('r, 'c) sysEvent
     \<Rightarrow> ('r, 'c, 'q) InvoiceRegistry \<Rightarrow> bool" for env keyOf hashOf where
  loop: "wfEvent keyOf hashOf ev \<Longrightarrow> canReceive env ev s \<Longrightarrow>
     invoiceEventLoop_step env inp ev s = (Continue answer, s') \<Longrightarrow>
     sysStep env keyOf hashOf s (SysLoop ev answer) s'"
| died: "wfEvent keyOf hashOf ev \<Longrightarrow> canReceive env ev s \<Longrightarrow>
     invoiceEventLoop_step env inp ev s = (res, s') \<Longrightarrow>
     sysStep env keyOf hashOf s (SysDied ev) (restart env (cutCalls n s s'))"
| subscribe: "SubscribeAccept s = (sid, s') \<Longrightarrow> sysStep env keyOf hashOf s (SysSubscribe sid) s'"
| final: "MarkHtlcFinal f now key settled (cdb s) = (r, db') \<Longrightarrow>
     sysStep env keyOf hashOf s (SysFinal key settled r) (s\<lparr>cdb := db'\<rparr>)"

inductive_cases sysStep_loopE: "sysStep env keyOf hashOf s (SysLoop ev answer) s'"

abbreviation sysInit :: "'q registryEnv \<Rightarrow> ('r, 'c, 'q) InvoiceRegistry \<Rightarrow> bool" where
  "sysInit env s \<equiv> s = NewRegistry env emptyDb"

abbreviation sysReach ::
    "'q registryEnv \<Rightarrow> ('r \<Rightarrow> HtlcKey) \<Rightarrow> (HtlcKey \<Rightarrow> hash) \<Rightarrow> ('r, 'c, 'q) InvoiceRegistry \<Rightarrow> bool" where
  "sysReach env keyOf hashOf \<equiv> reach (sysInit env) (sysStep env keyOf hashOf)"

section \<open>The resolutions that were sent\<close>

text \<open>
  Every settle in the log is recorded in the database, and no HTLC that was told to settle is told to
  fail later in the log.
\<close>

definition settles :: "('r \<Rightarrow> HtlcKey) \<Rightarrow> HtlcKey \<Rightarrow> ('r, 'c) call \<Rightarrow> bool" where
  "settles keyOf k c = (case c of CallResolve r (HtlcSettleResolution _ _) \<Rightarrow> keyOf r = k | _ \<Rightarrow> False)"

definition fails :: "('r \<Rightarrow> HtlcKey) \<Rightarrow> HtlcKey \<Rightarrow> ('r, 'c) call \<Rightarrow> bool" where
  "fails keyOf k c = (case c of CallResolve r (HtlcFailResolution _) \<Rightarrow> keyOf r = k | _ \<Rightarrow> False)"

definition logInv :: "('r \<Rightarrow> HtlcKey) \<Rightarrow> database \<Rightarrow> ('r, 'c) call list \<Rightarrow> bool" where
  "logInv keyOf db l =
     ((\<forall>r p a. CallResolve r (HtlcSettleResolution p a) \<in> set l \<longrightarrow> recorded db (keyOf r) p) \<and>
      sorted_wrt (\<lambda>c d. \<forall>k. settles keyOf k c \<longrightarrow> \<not> fails keyOf k d) l)"

lemma logInv_le: "logInv keyOf db l \<Longrightarrow> db_le db db' \<Longrightarrow> logInv keyOf db' l"
  unfolding logInv_def using recorded_le by blast

lemma recorded_found: "recorded db k p \<Longrightarrow> findHtlc k db \<noteq> None"
  by (auto simp: recorded_def)

lemma settle_not_fail:
  assumes "okCall keyOf db d" and "\<And>r p a. c = CallResolve r (HtlcSettleResolution p a) \<Longrightarrow> recorded db (keyOf r) p"
  shows "settles keyOf k c \<longrightarrow> \<not> fails keyOf k d"
  using assms recorded_found
  by (auto simp: settles_def fails_def split: call.splits HtlcResolution.splits) fastforce

lemma logInv_append:
  assumes "logInv keyOf db l" and "db_le db db'" and "\<forall>c \<in> set new. okCall keyOf db' c"
  shows "logInv keyOf db' (l @ new)"
proof -
  have l: "logInv keyOf db' l" using logInv_le assms(1,2) .
  have rec: "CallResolve r (HtlcSettleResolution p a) \<in> set (l @ new) \<Longrightarrow> recorded db' (keyOf r) p" for r p a
    using l assms(3) by (auto simp: logInv_def)
  then have "\<forall>c \<in> set (l @ new). \<forall>d \<in> set new. \<forall>k. settles keyOf k c \<longrightarrow> \<not> fails keyOf k d"
    using assms(3) settle_not_fail by metis
  moreover have "sorted_wrt (\<lambda>c d. \<forall>k. settles keyOf k c \<longrightarrow> \<not> fails keyOf k d) new"
    by (rule sorted_wrt_mono_rel [of _ "\<lambda>c d. True"]) (use calculation in \<open>auto simp: sorted_wrt_true\<close>)
  ultimately show ?thesis
    using l rec unfolding logInv_def sorted_wrt_append by auto
qed

section \<open>The invariant of the system\<close>

definition sysInv ::
    "'q registryEnv \<Rightarrow> ('r \<Rightarrow> HtlcKey) \<Rightarrow> (HtlcKey \<Rightarrow> hash) \<Rightarrow> ('r, 'c, 'q) InvoiceRegistry \<Rightarrow> bool" where
  "sysInv env keyOf hashOf s = (regInv (crypt env) keyOf hashOf s \<and> logInv keyOf (cdb s) (calls s))"

lemma memInv_empty:
  "sets s = [] \<Longrightarrow> hodlSubscriptions s = [] \<Longrightarrow> memInv cr keyOf hashOf s"
  by (simp add: memInv_def subsOf_def heldIn_def keysOf_def)

lemma regInv_restart: "storeInv (crypt env) hashOf (cdb s) \<Longrightarrow> regInv (crypt env) keyOf hashOf (restart env s)"
  by (auto simp: regInv_def restart_def NewRegistry_def newHtlcSets_def intro!: memInv_empty)

lemma sysInv_init: "sysInv env keyOf hashOf (NewRegistry env emptyDb)"
  using db_inv_empty
  by (auto simp: sysInv_def regInv_def storeInv_def logInv_def NewRegistry_def newHtlcSets_def emptyDb_def intro!: memInv_empty)

lemma goodStep_log:
  assumes "goodStep cr keyOf hashOf s s'" and "logInv keyOf (cdb s) (calls s)"
  shows "logInv keyOf (cdb s') (calls s')" and "logInv keyOf (cdb s') (calls (cutCalls n s s'))"
proof -
  from assms(1) obtain new where new: "calls s' = calls s @ new" "\<forall>c \<in> set new. okCall keyOf (cdb s') c"
    "db_le (cdb s) (cdb s')" by (auto simp: goodStep_def)
  with assms(2) logInv_append show "logInv keyOf (cdb s') (calls s')" by metis
  have "\<forall>c \<in> set (take n new). okCall keyOf (cdb s') c" using new(2) by (meson in_set_takeD)
  with assms(2) new logInv_append show "logInv keyOf (cdb s') (calls (cutCalls n s s'))"
    by (auto simp: cutCalls_def)
qed

lemma MarkHtlcFinal_absent:
  assumes "MarkHtlcFinal f now key settled db = (r, db')" and "findInvoice hash db = None"
  shows "findInvoice hash db' = None"
proof (cases r)
  case (Ok u)
  with assms(1) MarkHtlcFinal_Ok [of f now key settled db u db']
  have "\<exists>h. invoiceTable db' = invoiceTable db \<or> invoiceTable db' = map (updInvoice h settled now) (invoiceTable db)"
    by (auto split: if_splits)
  with assms(2) show ?thesis by (auto simp: findInvoice_def find_map_same)
qed (use assms MarkHtlcFinal_not_Ok [OF assms(1)] in auto)

lemma sysInv_step:
  assumes "sysInv env keyOf hashOf s" and "sysStep env keyOf hashOf s e s'"
  shows "sysInv env keyOf hashOf s'"
  using assms(2)
proof cases
  case (loop ev inp answer)
  with assms(1) goodStep_loop have "goodStep (crypt env) keyOf hashOf s s'" by (auto simp: sysInv_def)
  with assms(1) goodStep_log(1) [OF this] show ?thesis by (simp add: sysInv_def goodStep_def)
next
  case (died ev inp res s1 n)
  with assms(1) goodStep_loop have g: "goodStep (crypt env) keyOf hashOf s s1" by (auto simp: sysInv_def)
  then have "storeInv (crypt env) hashOf (cdb (cutCalls n s s1))" by (simp add: goodStep_def regInv_def cutCalls_def)
  moreover have "logInv keyOf (cdb s1) (calls (cutCalls n s s1))" using goodStep_log [OF g] assms(1) by (simp add: sysInv_def)
  moreover have "cdb s' = cdb s1" "calls s' = calls (cutCalls n s s1)"
    using died(2) by (simp_all add: restart_def NewRegistry_def cutCalls_def)
  ultimately show ?thesis
    using regInv_restart [of env hashOf "cutCalls n s s1" keyOf] died(2) by (simp add: sysInv_def)
next
  case (subscribe sid)
  then have eq: "s' = s\<lparr>subscriptions := snd (generateSubscriptionId (subscriptions s))\<rparr>"
    by (auto simp: SubscribeAccept_def split: prod.splits)
  with assms(1) memInv_cong [of "crypt env" keyOf hashOf s s'] show ?thesis by (simp add: sysInv_def regInv_def)
next
  case (final f now key settled r db')
  have "memInv (crypt env) keyOf hashOf s'"
    by (rule memInv_cong [of _ _ _ s]) (use assms(1) final MarkHtlcFinal_absent in \<open>auto simp: sysInv_def regInv_def\<close>)
  moreover have "storeInv (crypt env) hashOf (cdb s')"
    using storeInv_final [OF _ final(3)] assms(1) final(2) by (simp add: sysInv_def regInv_def)
  moreover have "logInv keyOf (cdb s') (calls s')"
    using logInv_le [of keyOf "cdb s" "calls s", OF _ MarkHtlcFinal_le [OF final(3)]] assms(1) final(2) by (simp add: sysInv_def)
  ultimately show ?thesis by (simp add: sysInv_def regInv_def)
qed

interpretation system: inv_system "sysInit env" "sysStep env keyOf hashOf" "sysInv env keyOf hashOf"
  for env :: "'q registryEnv" and keyOf :: "'r \<Rightarrow> HtlcKey" and hashOf
  by unfold_locales (auto intro: sysInv_init sysInv_step)

section \<open>Settling is safe\<close>

text \<open>
  Whenever the registry has told a resolver to settle, the database holds the HTLC of that resolver
  under an invoice with exactly that preimage, and the preimage hashes to the payment hash of the
  HTLC. This holds in every state the system can reach, whatever statements failed and wherever the
  process died: no preimage is released before the settle request is stored.
\<close>

lemma settled_call_recorded:
  assumes "sysReach env keyOf hashOf s"
    and "CallResolve r (HtlcSettleResolution p a) \<in> set (calls s)"
  shows "\<exists>x i. findHtlc (keyOf r) (cdb s) = Some x \<and> findInvoice (hashOf (keyOf r)) (cdb s) = Some i \<and>
    dhHash x = hashOf (keyOf r) \<and> diPreimage i = p \<and> preimageHash (crypt env) p = hashOf (keyOf r)"
proof -
  from system.reach_inv [OF assms(1)] have inv: "storeInv (crypt env) hashOf (cdb s)"
    and rec: "recorded (cdb s) (keyOf r) p"
    using assms(2) by (auto simp: sysInv_def regInv_def logInv_def)
  then obtain x i where x: "findHtlc (keyOf r) (cdb s) = Some x" "findInvoice (dhHash x) (cdb s) = Some i" "diPreimage i = p"
    by (auto simp: recorded_def)
  then have "dhHash x = hashOf (keyOf r)"
    using inv findHtlc_key [OF x(1)] by (auto simp: storeInv_def)
  moreover have "preimageHash (crypt env) (diPreimage i) = diHash i"
    using inv findInvoice_hash [OF x(2)] by (auto simp: storeInv_def db_inv_def invoiceOk_def)
  ultimately show ?thesis using x findInvoice_hash [OF x(2)] by auto
qed

text \<open>
  C4: an HTLC that was told to settle is never told to fail afterwards, over all restarts. In the log
  of resolutions no fail for a key follows a settle for the same key.
\<close>

theorem never_fail_after_settle:
  assumes "sysReach env keyOf hashOf s" and "i < j" and "j < length (calls s)"
    and "calls s ! i = CallResolve r (HtlcSettleResolution p a)"
    and "calls s ! j = CallResolve r' (HtlcFailResolution reason)"
  shows "keyOf r' \<noteq> keyOf r"
proof -
  have "sorted_wrt (\<lambda>c d. \<forall>k. settles keyOf k c \<longrightarrow> \<not> fails keyOf k d) (calls s)"
    using system.reach_inv [OF assms(1)] by (simp add: sysInv_def logInv_def)
  with assms(2-) show ?thesis by (fastforce simp: sorted_wrt_iff_nth_less settles_def fails_def)
qed

text \<open>
  An HTLC that the database records is settled whenever its node delivers it again (after a restart
  of this process or of the node), so no set stays partly settled: when the database answers, the
  registry answers at once with the stored preimage, and changes nothing else.
\<close>

lemma process_replay:
  assumes "sysReach env keyOf hashOf s" and "findHtlc (circuitKey h) (cdb s) = Some x"
    and "wfHtlc keyOf hashOf h" and "getFaults inp = noFaults"
  shows "\<exists>p. preimageHash (crypt env) p = rHash h \<and>
    process env inp h s = (Ok (), callResolve (resolve h) (HtlcSettleResolution p ResultReplayToSettled) s)"
proof -
  have sto: "storeInv (crypt env) hashOf (cdb s)" and inv: "db_inv (crypt env) (cdb s)"
    using system.reach_inv [OF assms(1)] by (auto simp: sysInv_def regInv_def storeInv_def)
  have hash: "dhHash x = rHash h" "rHash h = hashOf (circuitKey h)"
    using sto findHtlc_key [OF assms(2)] assms(3) by (auto simp: storeInv_def wfHtlc_def)
  have "dhHash x \<in> diHash ` set (invoiceTable (cdb s))" using inv findHtlc_key [OF assms(2)] by (auto simp: db_inv_def)
  then obtain i where i: "findInvoice (rHash h) (cdb s) = Some i"
    unfolding hash by (cases "findInvoice (hashOf (circuitKey h)) (cdb s)") (auto simp: findInvoice_def find_None_iff)
  have k: "circuitKey h \<in> dhKey ` set (htlcsOf (rHash h) (cdb s))"
    using findHtlc_rows [OF sto, of "circuitKey h"] assms(2) hash by simp
  have get: "Get noFaults (rHash h) (cdb s) =
      Ok (unmarshallDbInvoice i, map (\<lambda>h. (dhKey h, dhAmountMsat h)) (htlcsOf (rHash h) (cdb s)))"
    using Get_eq [OF inv, of noFaults "rHash h"] i by simp
  have "resolveViaDb inp h s = (Ok True, callResolve (resolve h) (HtlcSettleResolution (diPreimage i) ResultReplayToSettled) s)"
    using k unfolding resolveViaDb_def assms(4) get
    by (auto simp: unmarshallDbInvoice_def gm_get_rows simp flip: not_None_eq)
  then have "process env inp h s = (Ok (), callResolve (resolve h) (HtlcSettleResolution (diPreimage i) ResultReplayToSettled) s)"
    by (simp add: process_def)
  moreover have "preimageHash (crypt env) (diPreimage i) = rHash h"
    using inv findInvoice_hash [OF i] by (auto simp: db_inv_def invoiceOk_def)
  ultimately show ?thesis by blast
qed

text \<open>
  Every stored invoice was paid in full by its HTLCs: the amounts of the HTLCs that are recorded for
  it add up (in 64-bit arithmetic) to the amount of the invoice, none of them is zero, and the
  invoice is no longer held in memory.
\<close>

lemma stored_invoice_paid:
  assumes "sysReach env keyOf hashOf s" and "findInvoice hash (cdb s) = Some i"
  shows "sum_list (map dhAmountMsat (htlcsOf hash (cdb s))) = diAmountMsat i \<and> htlcsOf hash (cdb s) \<noteq> [] \<and>
    (\<forall>x \<in> set (htlcsOf hash (cdb s)). 0 < sint (dhAmountMsat x)) \<and> setsGet (sets s) hash = None"
proof -
  from system.reach_inv [OF assms(1)] have sto: "storeInv (crypt env) hashOf (cdb s)" and mem: "memInv (crypt env) keyOf hashOf s"
    by (auto simp: sysInv_def regInv_def)
  then have "paidAmount hash (cdb s) = diAmountMsat i" "htlcsOf hash (cdb s) \<noteq> []"
    "\<forall>x \<in> set (htlcsOf hash (cdb s)). 0 < sint (dhAmountMsat x)"
    using findInvoice_hash [OF assms(2)] by (auto simp: storeInv_def db_inv_def invoiceOk_def htlcsOf_key)
  moreover have "gm_get (sets s) hash = None"
    using memInv_open [OF mem, of hash] assms(2) by (cases "gm_get (sets s) hash") auto
  ultimately show ?thesis by (simp add: paidAmount_def setsGet_def)
qed

text \<open>
  C7: the memory of the registry is consistent in every reachable state: an HTLC has subscribed
  resolvers exactly if it is in the set of its payment hash, those resolvers belong to it, the set is
  stored under the hash of its preimage, and none of its HTLCs is recorded in the database. No
  resolver is lost and none is left behind.
\<close>

theorem held_iff_subscribed:
  assumes "sysReach env keyOf hashOf s"
  shows "((case gm_get (hodlSubscriptions s) k of None \<Rightarrow> [] | Some rs \<Rightarrow> rs) \<noteq> [] \<longleftrightarrow>
      (\<exists>st. setsGet (sets s) (hashOf k) = Some st \<and> accepted st k)) \<and>
    (\<forall>rs. gm_get (hodlSubscriptions s) k = Some rs \<longrightarrow> (\<forall>r \<in> set rs. keyOf r = k)) \<and>
    (\<forall>hash st. setsGet (sets s) hash = Some st \<longrightarrow> setHash (crypt env) st = hash \<and>
      (accepted st k \<longrightarrow> hash = hashOf k \<and> findHtlc k (cdb s) = None))"
proof -
  from system.reach_inv [OF assms] have inv: "regInv (crypt env) keyOf hashOf s" and mem: "memInv (crypt env) keyOf hashOf s"
    by (auto simp: sysInv_def regInv_def)
  have acc: "accepted st k \<longleftrightarrow> k \<in> set (gm_keys (htlcs st))" for st
    using gm_keys_none [of k "htlcs st"] by (auto simp: accepted_def)
  show ?thesis
    using memInv_held [OF mem, of k] memInv_key [OF mem, of _ k] memInv_wf [OF mem] memInv_hash [OF mem]
      held_unrecorded [OF inv]
    by (auto simp: acc setsGet_def heldIn_def keysOf_def subsOf_def wf_sets_def wf_set_def split: option.splits)
qed

end
