(* ===== verification/Settlement_Example.thy ===== *)
theory Settlement_Example
  imports Settlement Sha256
begin

text \<open>
  A concrete run: in auto-settle mode an invoice of 500 msat is paid by one HTLC, which settles it, and
  a second HTLC for the same invoice is refused. It instantiates the hypotheses of the theorems on
  settlement with the cryptographic functions of Go and the binary heap.
\<close>

definition exCfg :: RegistryConfig where
  "exCfg = \<lparr>FinalCltvRejectDelta = 10, HtlcHoldDuration = 30 * second, AcceptTimeout = 60 * second,
     PrivKey = replicate 32 7, AutoSettle = True, GracePeriodWithoutSubscribers = DefaultGracePeriodWithoutSubscribers\<rparr>"

definition exEnv :: "releaseEvent list registryEnv" where
  "exEnv = \<lparr>crypt = goCrypto, heapOf = heapOps, cfg = exCfg\<rparr>"

definition exAddr :: bytes where
  "exAddr = replicate 16 0 @ put_uint64 (unixOf (1000 * second)) @ put_uint64 500"

definition exPreimage :: preimage where
  "exPreimage = hmac goCrypto (replicate 32 7) exAddr"

definition exHash :: hash where
  "exHash = preimageHash goCrypto exPreimage"

definition exKey :: "u64 \<Rightarrow> HtlcKey" where
  "exKey n = HtlcKey (replicate 33 2) 1 n"

definition exHtlcFor :: "u64 \<Rightarrow> 'r \<Rightarrow> 'r registryHtlc" where
  "exHtlcFor n r = \<lparr>rHash = exHash, amtPaid = 500, htlcExpiry = 200, currentHeight = 100, circuitKey = exKey n,
     multiPath = Some \<lparr>mppPaymentAddr = exAddr, mppTotalMsat = 500\<rparr>, resolve = r\<rparr>"

definition exHtlc :: "u64 \<Rightarrow> HtlcKey registryHtlc" where
  "exHtlc n = exHtlcFor n (exKey n)"

definition exInputs :: inputs where
  "exInputs = \<lparr>nowExpiry = 0, nowSubscribers = 0, nowHold = 0, nowAccept = 0, nowRemoved = 0, nowSettle = 5,
     getFaults = noFaults, settleFaults = noFaults\<rparr>"

definition exInit :: "('r, nat, releaseEvent list) InvoiceRegistry" where
  "exInit = NewRegistry exEnv emptyDb"

definition exPaidFor :: "'r \<Rightarrow> ('r, nat, releaseEvent list) InvoiceRegistry" where
  "exPaidFor r = snd (process exEnv exInputs (exHtlcFor 1 r) exInit)"

definition exPaid :: "(HtlcKey, nat, releaseEvent list) InvoiceRegistry" where
  "exPaid = exPaidFor (exKey 1)"

definition exRefused :: "(HtlcKey, nat, releaseEvent list) InvoiceRegistry" where
  "exRefused = snd (process exEnv exInputs (exHtlc 2) exPaid)"

lemma exDecode:
  "decodeStatelessData goCrypto (replicate 32 7) exAddr =
     Ok \<lparr>sdAmtMsat = 500, sdExpiry = 1000 * second, sdPreimage = exPreimage\<rparr>"
proof -
  have "time_ok (1000 * second)" by (simp add: time_ok_def unixToInternal_def)
  then show ?thesis
    using go.decode_encode [of "replicate 16 0" "1000 * second" "replicate 32 7" 500 exAddr exPreimage]
    by (simp add: go.encode_ok exAddr_def exPreimage_def Let_def)
qed

definition exRow :: dbInvoice where
  "exRow = \<lparr>diSequenceNum = 1, diHash = exHash, diPreimage = exPreimage, diAmountMsat = 500, diSettleRequestedAt = 5,
     diFinalizedAt = None, diStatus = InvoiceStatusSettleRequested\<rparr>"

definition exHtlcRow :: dbHtlc where
  "exHtlcRow = \<lparr>dhKey = exKey 1, dhHash = exHash, dhAmountMsat = 500, dhSettleRequestedAt = 5, dhFinalizedAt = None,
     dhStatus = HtlcStatusSettleRequested\<rparr>"

definition exDb :: database where
  "exDb = \<lparr>invoiceTable = [exRow], htlcTable = [exHtlcRow], nextSeq = 2\<rparr>"

lemma ex_lengths [simp]: "length exPreimage = 32" "length exHash = 32"
  by (simp_all add: exPreimage_def exHash_def go.hmac_length go.preimageHash_length)

lemma exRequest:
  "RequestSettle goCrypto noFaults 5 \<lparr>PaymentPreimage = exPreimage, Value = 500, PaymentAddr = exAddr\<rparr>
     [(exKey 1, 500)] emptyDb = (Ok (), exDb)"
  using ex_lengths
  by (simp add: RequestSettle_Ok invoiceInsertable_def htlcsInsertable_def findInvoice_def findHtlc_def
      settledDb_def newInvoiceRow_def newHtlcRow_def exKey_def exDb_def exRow_def exHtlcRow_def emptyDb_def
      flip: exHash_def)

lemmas exDefs = exEnv_def exCfg_def exHtlcFor_def exInputs_def exInit_def NewRegistry_def newHtlcSets_def

lemma exPaidFor_process:
  "process exEnv exInputs (exHtlcFor 1 r) exInit = (Ok (), exPaidFor r)"
  "cdb (exPaidFor r) = exDb" "sets (exPaidFor r) = [] \<and> hodlSubscriptions (exPaidFor r) = []"
  "calls (exPaidFor r) = [CallResolve r (HtlcSettleResolution exPreimage ResultSettled)]"
proof -
  have "process exEnv exInputs (exHtlcFor 1 r) exInit = (Ok (), exPaidFor r) \<and>
    cdb (exPaidFor r) = exDb \<and> sets (exPaidFor r) = [] \<and> hodlSubscriptions (exPaidFor r) = [] \<and>
    calls (exPaidFor r) = [CallResolve r (HtlcSettleResolution exPreimage ResultSettled)]"
    by (simp add: exPaidFor_def exDefs process_def resolveViaDb_def Get_def runInTransaction_def findInvoice_def emptyDb_def
        exDecode exHash_def [symmetric] processOpen_def setsGet_def Let_def setsAdd_def addHtlc_new
        processAccepted_def isComplete_def totalSetAmt_def hodlSubscribe_def startAcceptTimer_def
        notifySubscribers_def newSubscriptionManager_def markSettleRequested_def getHtlcMap_def
        exRequest [unfolded emptyDb_def One_nat_def] requestSettle_def resolveAll_def deleteAll_def setsDelete_def setHash_def gm_keys_def
        gm_put_def gm_del_def gm_get_def notifyHodlSubscribers_def callResolve_def)
  then show "process exEnv exInputs (exHtlcFor 1 r) exInit = (Ok (), exPaidFor r)"
    "cdb (exPaidFor r) = exDb" "sets (exPaidFor r) = [] \<and> hodlSubscriptions (exPaidFor r) = []"
    "calls (exPaidFor r) = [CallResolve r (HtlcSettleResolution exPreimage ResultSettled)]"
    by simp_all
qed

lemmas exPaid_process = exPaidFor_process [of "exKey 1", folded exHtlc_def exPaid_def]

lemma exRefused_process:
  "process exEnv exInputs (exHtlc 2) exPaid = (Ok (), exRefused)"
  "calls exRefused = [CallResolve (exKey 1) (HtlcSettleResolution exPreimage ResultSettled),
     CallResolve (exKey 2) (HtlcFailResolution ResultInvoiceNotOpen)]" "cdb exRefused = exDb"
proof -
  have "process exEnv exInputs (exHtlc 2) exPaid =
      (Ok (), callResolve (exKey 2) (HtlcFailResolution ResultInvoiceNotOpen) exPaid)"
    by (simp add: process_def resolveViaDb_def exPaid_process(2) Get_def runInTransaction_def findInvoice_def htlcsOf_def
        exDb_def exRow_def exHtlcRow_def exKey_def exHtlc_def exHtlcFor_def exInputs_def gm_put_def gm_get_def)
  then show "process exEnv exInputs (exHtlc 2) exPaid = (Ok (), exRefused)"
    "calls exRefused = [CallResolve (exKey 1) (HtlcSettleResolution exPreimage ResultSettled),
       CallResolve (exKey 2) (HtlcFailResolution ResultInvoiceNotOpen)]" "cdb exRefused = exDb"
    by (simp_all add: exRefused_def callResolve_def exPaid_process)
qed

abbreviation exHashOf :: "HtlcKey \<Rightarrow> hash" where
  "exHashOf \<equiv> \<lambda>_. exHash"

lemma exWf: "wfHtlc id exHashOf (exHtlc n)"
  by (simp add: wfHtlc_def exHtlc_def exHtlcFor_def)

lemma exReach_paid: "sysReach exEnv id exHashOf exPaid"
proof -
  have "sysStep exEnv id exHashOf exInit (SysLoop (NewHtlc (exHtlc 1)) None) exPaid"
    by (rule sysStep.loop [of _ _ _ _ _ exInputs]) (simp_all add: exWf canReceive_def exPaid_process)
  moreover have "sysReach exEnv id exHashOf exInit" by (simp add: reach_init exInit_def)
  ultimately show ?thesis by (rule reach_step [where step = "sysStep exEnv id exHashOf", rotated])
qed

lemma exReach_refused: "sysReach exEnv id exHashOf exRefused"
proof -
  have "sysStep exEnv id exHashOf exPaid (SysLoop (NewHtlc (exHtlc 2)) None) exRefused"
    by (rule sysStep.loop [of _ _ _ _ _ exInputs]) (simp_all add: exWf canReceive_def exRefused_process)
  then show ?thesis by (rule reach_step [where step = "sysStep exEnv id exHashOf", OF exReach_paid])
qed

section \<open>The theorems at this run\<close>

theorem never_fail_after_settle_witness:
  "calls exRefused ! 0 = CallResolve (exKey 1) (HtlcSettleResolution exPreimage ResultSettled) \<and>
   calls exRefused ! 1 = CallResolve (exKey 2) (HtlcFailResolution ResultInvoiceNotOpen) \<and> exKey 2 \<noteq> exKey 1"
  using never_fail_after_settle [OF exReach_refused, of 0 1 "exKey 1" exPreimage ResultSettled "exKey 2" ResultInvoiceNotOpen]
  by (simp add: exRefused_process)

theorem held_iff_subscribed_witness:
  "\<not> (\<exists>st. setsGet (sets exPaid) (exHashOf (exKey 1)) = Some st \<and> accepted st (exKey 1))"
  using held_iff_subscribed [OF exReach_paid, of "exKey 1"] exPaid_process(3) by simp

end
