(* ===== verification/Ledger.thy ===== *)
theory Ledger
  imports Settlement_Example
begin

text \<open>
  An abstract specification of the registry, and the proof that the system of \<open>Settlement\<close> implements it.
  The specification is a ledger: the HTLCs that are held, and for every paid hash the HTLCs that paid
  it. It has no sets, resolvers, timers, rows or restarts. An HTLC can be held while its hash is
  unpaid, held HTLCs can be let go, and a hash is paid once, in one step, by all HTLCs held for it.
\<close>

section \<open>The specification\<close>

record ledger =
  held :: "HtlcKey set"
  paid :: "hash \<Rightarrow> HtlcKey set option"

definition emptyLedger :: ledger where
  "emptyLedger = \<lparr>held = {}, paid = (\<lambda>_. None)\<rparr>"

inductive ledgerStep :: "(HtlcKey \<Rightarrow> hash) \<Rightarrow> ledger \<Rightarrow> ledger \<Rightarrow> bool" for hashOf where
  hold: "paid l (hashOf k) = None \<Longrightarrow> ledgerStep hashOf l (l\<lparr>held := insert k (held l)\<rparr>)"
| release: "ledgerStep hashOf l (l\<lparr>held := held l - K\<rparr>)"
| pay: "paid l hash = None \<Longrightarrow> K = {k \<in> held l. hashOf k = hash} \<Longrightarrow> K \<noteq> {} \<Longrightarrow>
     ledgerStep hashOf l \<lparr>held = held l - K, paid = (paid l)(hash := Some K)\<rparr>"

definition ledgerOk :: "(HtlcKey \<Rightarrow> hash) \<Rightarrow> ledger \<Rightarrow> bool" where
  "ledgerOk hashOf l =
     ((\<forall>k \<in> held l. paid l (hashOf k) = None) \<and>
      (\<forall>hash K. paid l hash = Some K \<longrightarrow> K \<noteq> {} \<and> (\<forall>k \<in> K. hashOf k = hash)))"

lemma ledgerOk_step: "ledgerStep hashOf l l' \<Longrightarrow> ledgerOk hashOf l \<Longrightarrow> ledgerOk hashOf l'"
  by (induction rule: ledgerStep.induct) (auto simp: ledgerOk_def)

lemma paid_step: "ledgerStep hashOf l l' \<Longrightarrow> paid l hash = Some K \<Longrightarrow> paid l' hash = Some K"
  by (induction rule: ledgerStep.induct) auto

lemma paid_steps: "(ledgerStep hashOf)\<^sup>*\<^sup>* l l' \<Longrightarrow> paid l hash = Some K \<Longrightarrow> paid l' hash = Some K"
  by (induction rule: rtranclp_induct) (auto intro: paid_step)

lemma ledgerOk_steps: "(ledgerStep hashOf)\<^sup>*\<^sup>* l l' \<Longrightarrow> ledgerOk hashOf l \<Longrightarrow> ledgerOk hashOf l'"
  by (induction rule: rtranclp_induct) (auto intro: ledgerOk_step)

text \<open>Every implementation of a specification: each step is matched by a finite number of abstract steps.\<close>

locale simulation =
  fixes init :: "'s \<Rightarrow> bool" and step :: "'s \<Rightarrow> 'e \<Rightarrow> 's \<Rightarrow> bool"
    and ainit :: "'a \<Rightarrow> bool" and astep :: "'a \<Rightarrow> 'a \<Rightarrow> bool" and abs :: "'s \<Rightarrow> 'a"
  assumes sim_init: "init s \<Longrightarrow> ainit (abs s)"
    and sim_step: "reach init step s \<Longrightarrow> step s e t \<Longrightarrow> astep\<^sup>*\<^sup>* (abs s) (abs t)"
begin

lemma sim_reach: "reach init step s \<Longrightarrow> \<exists>a. ainit a \<and> astep\<^sup>*\<^sup>* a (abs s)"
proof (induction rule: reach.induct)
  case (reach_step s e t)
  with sim_step show ?case by (meson rtranclp_trans)
qed (use sim_init in blast)

lemma sim_run: "run step s es t \<Longrightarrow> reach init step s \<Longrightarrow> astep\<^sup>*\<^sup>* (abs s) (abs t)"
proof (induction rule: run.induct)
  case (run_snoc s es t e u)
  with sim_step run_reach [OF run_snoc.hyps(1) run_snoc.prems] show ?case by (meson rtranclp_trans)
qed simp

end

section \<open>The ledger of a state\<close>

definition ledgerOf :: "(HtlcKey \<Rightarrow> hash) \<Rightarrow> ('r, 'c, 'q) InvoiceRegistry \<Rightarrow> ledger" where
  "ledgerOf hashOf s =
     \<lparr>held = {k. heldIn hashOf s k},
      paid = (\<lambda>hash. if findInvoice hash (cdb s) = None then None else Some (dhKey ` set (htlcsOf hash (cdb s))))\<rparr>"

lemma ledgerOf_sel [simp]:
  "k \<in> held (ledgerOf hashOf s) \<longleftrightarrow> k \<in> keysOf (gm_get (sets s) (hashOf k))"
  "paid (ledgerOf hashOf s) hash = (if findInvoice hash (cdb s) = None then None else Some (dhKey ` set (htlcsOf hash (cdb s))))"
  by (simp_all add: ledgerOf_def heldIn_def)

lemma ledger_eqI: "(\<And>k. k \<in> held l \<longleftrightarrow> k \<in> held l') \<Longrightarrow> (\<And>hash. paid l hash = paid l' hash) \<Longrightarrow> l = (l' :: ledger)"
  by (cases l; cases l') auto

lemma ledgerOf_same:
  "sets s' = sets s \<Longrightarrow> sameTables (cdb s) (cdb s') \<Longrightarrow> ledgerOf hashOf s' = ledgerOf hashOf s"
  by (intro ledger_eqI) (simp_all add: sameTables_def findInvoice_def htlcsOf_def [abs_def])

lemma keysOf_simps [simp]: "keysOf None = {}" "keysOf (Some st) = set (gm_keys (htlcs st))"
  by (simp_all add: keysOf_def)

text \<open>The HTLCs that are held for a hash are those of its set.\<close>

lemma held_of_set:
  assumes "memInv cr keyOf hashOf s" and "gm_get (sets s) hash = Some st"
  shows "{k \<in> held (ledgerOf hashOf s). hashOf k = hash} = set (gm_keys (htlcs st))"
proof (intro set_eqI iffI)
  fix k assume "k \<in> set (gm_keys (htlcs st))"
  with assms memInv_hash [OF assms, of k] show "k \<in> {k \<in> held (ledgerOf hashOf s). hashOf k = hash}" by simp
qed (use assms(2) in auto)

lemma ledger_released:
  assumes mem: "memInv cr keyOf hashOf s" and st: "gm_get (sets s) hash = Some st"
  shows "ledgerStep hashOf (ledgerOf hashOf s) (ledgerOf hashOf (releasedState hash st res s))"
proof -
  have "ledgerOf hashOf (releasedState hash st res s) =
      (ledgerOf hashOf s)\<lparr>held := held (ledgerOf hashOf s) - set (gm_keys (htlcs st))\<rparr>"
    using st memInv_hash [OF mem st] by (intro ledger_eqI) auto
  then show ?thesis by (metis ledgerStep.release)
qed

lemma ledger_dropped:
  assumes mem: "memInv cr keyOf hashOf s" and st: "gm_get (sets s) hash = Some st"
    and s': "sets s' = droppedSets hash st key (sets s)" "cdb s' = cdb s" and key: "key \<in> set (gm_keys (htlcs st))"
  shows "ledgerStep hashOf (ledgerOf hashOf s) (ledgerOf hashOf s')"
proof -
  have wf: "gm_wf (htlcs st)" using memInv_wf [OF mem] st by (auto simp: wf_sets_def wf_set_def)
  have "ledgerOf hashOf s' = (ledgerOf hashOf s)\<lparr>held := held (ledgerOf hashOf s) - {key}\<rparr>"
    using st key memInv_hash [OF mem st, of key] gm_del_Nil_keys [OF wf, of key] wf
    by (intro ledger_eqI) (auto simp: s' droppedSets_get)
  then show ?thesis by (metis ledgerStep.release)
qed

lemma ledger_added:
  assumes "findInvoice hash (cdb s) = None" and "hashOf k = hash"
    and "set (gm_keys (htlcs st)) = insert k (keysOf (gm_get (sets s) hash))"
    and s': "sets s' = gm_put hash st (sets s)" "cdb s' = cdb s"
  shows "ledgerStep hashOf (ledgerOf hashOf s) (ledgerOf hashOf s')"
proof -
  have "ledgerOf hashOf s' = (ledgerOf hashOf s)\<lparr>held := insert k (held (ledgerOf hashOf s))\<rparr>"
    using assms by (intro ledger_eqI) auto
  then show ?thesis using ledgerStep.hold [of "ledgerOf hashOf s" hashOf k] assms(1,2) by simp
qed

text \<open>A stored settle request pays the hash with exactly the HTLCs that are held for it.\<close>

lemma ledger_settled:
  assumes inv: "regInv cr keyOf hashOf s" and st: "gm_get (sets s) hash = Some st"
    and op: "RequestSettle cr f now (settleData st) (htlcs st) (cdb s) = (Ok u, db')"
    and s': "sets s' = sets s" "cdb s' = db'"
  shows "ledgerStep hashOf (ledgerOf hashOf s) (ledgerOf hashOf (releasedState hash st res s'))"
proof -
  have mem: "memInv cr keyOf hashOf s" and dbi: "db_inv cr (cdb s)" using inv by (auto simp: regInv_def storeInv_def)
  have ws: "wf_set cr hash st" using memInv_wf [OF mem] st by blast
  then have hash: "preimageHash cr (setPreimage (params st)) = hash" by (simp add: wf_set_def setHash_def)
  from op have ii: "invoiceInsertable cr (settleData st) (cdb s)"
    and db': "db' = settledDb cr now (settleData st) (htlcs st) (cdb s)" by (auto simp: RequestSettle_Ok)
  let ?K = "set (gm_keys (htlcs st))"
  have rows: "dhKey ` newHtlcRow now hash ` set (htlcs st) = ?K"
    by (force simp: newHtlcRow_def gm_keys_def image_iff)
  have "ledgerOf hashOf (releasedState hash st res s') =
      \<lparr>held = held (ledgerOf hashOf s) - ?K, paid = (paid (ledgerOf hashOf s))(hash := Some ?K)\<rparr>"
  proof (rule ledger_eqI)
    fix k
    show "k \<in> held (ledgerOf hashOf (releasedState hash st res s')) \<longleftrightarrow>
        k \<in> held \<lparr>held = held (ledgerOf hashOf s) - ?K, paid = (paid (ledgerOf hashOf s))(hash := Some ?K)\<rparr>"
      using st memInv_hash [OF mem st, of k] by (auto simp: s')
  next
    fix hash'
    show "paid (ledgerOf hashOf (releasedState hash st res s')) hash' =
        paid \<lparr>held = held (ledgerOf hashOf s) - ?K, paid = (paid (ledgerOf hashOf s))(hash := Some ?K)\<rparr> hash'"
      using rows by (simp add: s' db' findInvoice_settledDb [OF ii] htlcsOf_settledDb [OF dbi ii] hash)
  qed
  moreover have "ledgerStep hashOf (ledgerOf hashOf s)
      \<lparr>held = held (ledgerOf hashOf s) - ?K, paid = (paid (ledgerOf hashOf s))(hash := Some ?K)\<rparr>"
  proof (rule ledgerStep.pay)
    show "?K \<noteq> {}" using ws by (auto simp: wf_set_def gm_keys_def)
    show "paid (ledgerOf hashOf s) hash = None" using memInv_open [OF mem st] by simp
    show "?K = {k \<in> held (ledgerOf hashOf s). hashOf k = hash}" by (rule held_of_set [OF mem st, symmetric])
  qed
  ultimately show ?thesis by simp
qed

section \<open>Every operation refines the ledger\<close>

lemma ledger_accepted:
  assumes inv: "regInv (crypt env) keyOf hashOf s" and h: "wfHtlc keyOf hashOf h"
    and none: "findInvoice (rHash h) (cdb s) = None" and ad: "admitted env inp h mpp sd s"
    and op: "processAccepted env inp h sd (afterAdd h mpp sd s) (s\<lparr>sets := gm_put (rHash h) (afterAdd h mpp sd s) (sets s)\<rparr>) = (r, s')"
  shows "(ledgerStep hashOf)\<^sup>*\<^sup>* (ledgerOf hashOf s) (ledgerOf hashOf s')"
proof -
  let ?st = "afterAdd h mpp sd s"
  let ?s1 = "s\<lparr>sets := gm_put (rHash h) ?st (sets s)\<rparr>"
  let ?s2 = "hodlSubscribe (resolve h) (circuitKey h) ?s1"
  have mem: "memInv (crypt env) keyOf hashOf s" using inv by (simp add: regInv_def)
  have ws: "wf_set (crypt env) (rHash h) ?st"
    using wf_set_nextSet [OF memInv_wf [OF mem], of sd "rHash h" h mpp] ad by (simp add: admitted_def)
  have "memInv (crypt env) keyOf hashOf ?s2"
    using memInv_added [OF mem, of "resolve h" "rHash h" ?st] ad h none ws nextSet_keys [of h mpp sd]
    by (simp add: wfHtlc_def admitted_def)
  then have inv2: "regInv (crypt env) keyOf hashOf ?s2" using inv by (simp add: regInv_def)
  have hold: "ledgerStep hashOf (ledgerOf hashOf s) (ledgerOf hashOf ?s2)"
    using h by (intro ledger_added [OF none, of hashOf "circuitKey h" ?st]) (simp_all add: wfHtlc_def nextSet_keys)
  have get: "gm_get (sets ?s1) (rHash h) = Some ?st" by simp
  show ?thesis
    using op get ws
  proof (cases rule: processAccepted_cases)
    case hold': hold
    with ledgerOf_same [of s' ?s2 hashOf] hold show ?thesis by (simp add: startHtlcTimer_def sameTables_def)
  next
    case (complete setID)
    with ledgerOf_same [of s' ?s2 hashOf] hold show ?thesis by (simp add: sameTables_def)
  next
    case (refused setID e db')
    with ledgerOf_same [of s' ?s2 hashOf] hold show ?thesis by simp
  next
    case (settled setID db')
    have "ledgerStep hashOf (ledgerOf hashOf ?s2) (ledgerOf hashOf s')"
      unfolding settled(5) by (rule ledger_settled [OF inv2]) (use settled(4) in simp_all)
    with hold show ?thesis by simp
  qed
qed

lemma ledger_process:
  assumes inv: "regInv (crypt env) keyOf hashOf s" and h: "wfHtlc keyOf hashOf h"
    and op: "process env inp h s = (r, s')"
  shows "(ledgerStep hashOf)\<^sup>*\<^sup>* (ledgerOf hashOf s) (ledgerOf hashOf s')"
proof -
  have dbi: "db_inv (crypt env) (cdb s)" using inv by (simp add: regInv_def storeInv_def)
  have quiet: ?thesis if "sets s' = sets s" "cdb s' = cdb s"
    using that ledgerOf_same [of s' s hashOf] by (simp add: sameTables_def)
  show ?thesis
    using op dbi
  proof (cases rule: process_cases)
    case (accept mpp sd)
    with ledger_accepted [OF inv h] show ?thesis by blast
  qed (use quiet in simp_all)
qed

lemma ledger_tick:
  assumes inv: "regInv (crypt env) keyOf hashOf s" and op: "handleTick env s = (r, s')"
  shows "(ledgerStep hashOf)\<^sup>*\<^sup>* (ledgerOf hashOf s) (ledgerOf hashOf s')"
proof -
  obtain head heap' where pop: "pqPop (heapOf env) (autoReleaseHeap s) = (head, heap')" by fastforce
  let ?s1 = "s\<lparr>autoReleaseHeap := heap'\<rparr>"
  have mem: "memInv (crypt env) keyOf hashOf ?s1"
    using inv memInv_cong [of "crypt env" keyOf hashOf s ?s1] by (simp add: regInv_def)
  have wf: "wf_sets (crypt env) (sets ?s1)" by (rule memInv_wf [OF mem])
  have same: "ledgerOf hashOf ?s1 = ledgerOf hashOf s" by (rule ledgerOf_same) (simp_all add: sameTables_def)
  show ?thesis
  proof (cases head)
    case (HtlcReleaseEvent hash t key)
    with op pop have c: "cancelSingleHtlc env hash key ResultMppTimeout ?s1 = (r, s')" by (simp add: handleTick_def)
    have "s' = ?s1 \<or> ledgerStep hashOf (ledgerOf hashOf ?s1) (ledgerOf hashOf s')"
      using c ledger_dropped [OF mem, of hash _ s' key]
      by (auto simp: cancelSingleHtlc_eq [OF wf] notifyHodlSubscribers_eq split: option.splits if_splits)
    with same show ?thesis by auto
  next
    case (AcceptTimeoutEvent hash t)
    with op pop have "failInvoice env hash ?s1 = (r, s')" by (simp add: handleTick_def)
    with ledger_released [OF mem] same show ?thesis by (fastforce simp: failInvoice_eq [OF wf] split: option.splits)
  qed
qed

lemma ledger_settleRequest:
  assumes inv: "regInv (crypt env) keyOf hashOf s" and op: "handleSettleRequest env inp hash setID s = (r, s')"
  shows "(ledgerStep hashOf)\<^sup>*\<^sup>* (ledgerOf hashOf s) (ledgerOf hashOf s')"
proof -
  have "wf_sets (crypt env) (sets s)" using inv memInv_wf by (auto simp: regInv_def)
  with op show ?thesis
  proof (cases rule: handleSettleRequest_cases)
    case (refused st e db')
    with ledgerOf_same [of s' s hashOf] show ?thesis by simp
  next
    case (settled st db')
    have "ledgerStep hashOf (ledgerOf hashOf s) (ledgerOf hashOf s')"
      unfolding settled(6) by (rule ledger_settled [OF inv settled(2,5)]) simp_all
    then show ?thesis by simp
  qed simp
qed

lemma ledger_cancelRequest:
  assumes inv: "regInv (crypt env) keyOf hashOf s" and op: "handleCancelRequest env inp hash setID s = (r, s')"
  shows "(ledgerStep hashOf)\<^sup>*\<^sup>* (ledgerOf hashOf s) (ledgerOf hashOf s')"
proof -
  have mem: "memInv (crypt env) keyOf hashOf s" using inv by (simp add: regInv_def)
  with op memInv_wf [OF mem] show ?thesis
  proof (cases rule: handleCancelRequest_cases)
    case (cancelled st)
    with ledger_released [OF mem] show ?thesis by (simp add: r_into_rtranclp)
  qed simp
qed

lemma ledger_loop:
  assumes inv: "regInv (crypt env) keyOf hashOf s" and ev: "wfEvent keyOf hashOf ev"
    and op: "invoiceEventLoop_step env inp ev s = (r, s')"
  shows "(ledgerStep hashOf)\<^sup>*\<^sup>* (ledgerOf hashOf s) (ledgerOf hashOf s')"
  using op
proof (cases rule: loop_cases)
  case (htlc h q)
  with ledger_process [OF inv] ev show ?thesis by simp
qed (use ledger_tick [OF inv] ledger_settleRequest [OF inv] ledger_cancelRequest [OF inv] ledgerOf_same [of s' s hashOf] in
    \<open>auto simp: addAcceptSubscriber_eq sameTables_def\<close>)

text \<open>Final events change the status of rows only.\<close>

lemma ledger_final:
  assumes "MarkHtlcFinal f now key settled (cdb s) = (r, db')"
  shows "ledgerOf hashOf (s\<lparr>cdb := db'\<rparr>) = ledgerOf hashOf s"
proof (cases r)
  case (Ok u)
  with assms MarkHtlcFinal_Ok [of f now key settled "cdb s" u db'] obtain h where
    ht: "htlcTable db' = map (updHtlc key settled now) (htlcTable (cdb s))" and
    it: "invoiceTable db' = invoiceTable (cdb s) \<or> invoiceTable db' = map (updInvoice h settled now) (invoiceTable (cdb s))"
    by (auto split: if_splits)
  have "findInvoice hash db' = None \<longleftrightarrow> findInvoice hash (cdb s) = None" for hash
    using it by (auto simp: findInvoice_def find_map_same)
  then show ?thesis by (intro ledger_eqI) (simp_all add: htlcsOf_upd [OF ht] image_image)
qed (use assms MarkHtlcFinal_not_Ok [OF assms] ledgerOf_same [of "s\<lparr>cdb := db'\<rparr>" s] in auto)

lemma ledger_restart: "ledgerStep hashOf (ledgerOf hashOf s) (ledgerOf hashOf (restart env (cutCalls n s0 s)))"
proof -
  have "ledgerOf hashOf (restart env (cutCalls n s0 s)) = (ledgerOf hashOf s)\<lparr>held := held (ledgerOf hashOf s) - UNIV\<rparr>"
    by (intro ledger_eqI) (simp_all add: restart_def NewRegistry_def newHtlcSets_def cutCalls_def)
  then show ?thesis by (metis ledgerStep.release)
qed

lemma ledger_sysStep:
  assumes inv: "regInv (crypt env) keyOf hashOf s" and "sysStep env keyOf hashOf s e s'"
  shows "(ledgerStep hashOf)\<^sup>*\<^sup>* (ledgerOf hashOf s) (ledgerOf hashOf s')"
  using assms(2)
proof cases
  case (loop ev inp answer)
  with ledger_loop [OF inv] show ?thesis by blast
next
  case (died ev inp res s1 n)
  with ledger_loop [OF inv, of ev inp res s1] ledger_restart [of hashOf s1 env n s] show ?thesis
    by (metis rtranclp.rtrancl_into_rtrancl)
next
  case (subscribe sid)
  with ledgerOf_same [of s' s hashOf] show ?thesis
    by (auto simp: SubscribeAccept_def sameTables_def split: prod.splits)
next
  case (final f now key settled r db')
  with ledger_final show ?thesis by (metis rtranclp.rtrancl_refl)
qed

interpretation ledger: simulation "sysInit env" "sysStep env keyOf hashOf" "\<lambda>l. l = emptyLedger" "ledgerStep hashOf" "ledgerOf hashOf"
  for env :: "'q registryEnv" and keyOf :: "'r \<Rightarrow> HtlcKey" and hashOf
proof
  fix s :: "('r, 'c, 'q) InvoiceRegistry"
  show "s = NewRegistry env emptyDb \<Longrightarrow> ledgerOf hashOf s = emptyLedger"
    by (intro ledger_eqI) (simp_all add: emptyLedger_def NewRegistry_def newHtlcSets_def emptyDb_def findInvoice_def)
next
  fix s t :: "('r, 'c, 'q) InvoiceRegistry" and e
  assume "sysReach env keyOf hashOf s" and "sysStep env keyOf hashOf s e t"
  then show "(ledgerStep hashOf)\<^sup>*\<^sup>* (ledgerOf hashOf s) (ledgerOf hashOf t)"
    using system.reach_inv [of env keyOf hashOf s] ledger_sysStep by (auto simp: sysInv_def)
qed

section \<open>Properties\<close>

text \<open>
  C6: the registry and its database implement the ledger. Whatever happens between two moments (HTLCs,
  requests, timers, final events, failing statements, the end of the process in the middle of an
  iteration and its restart), the ledger of the later state comes from the ledger of the earlier one
  by holding HTLCs of unpaid hashes, letting HTLCs go, and paying a hash once, by all the HTLCs held
  for it at that moment; and the ledger of the first state is empty. Hence a paid hash stays paid by
  the same HTLCs, and no HTLC is held for a paid hash.
\<close>

theorem registry_refines_ledger:
  assumes "sysReach env keyOf hashOf s" and "run (sysStep env keyOf hashOf) s es t"
  shows "(ledgerStep hashOf)\<^sup>*\<^sup>* emptyLedger (ledgerOf hashOf s) \<and>
    (ledgerStep hashOf)\<^sup>*\<^sup>* (ledgerOf hashOf s) (ledgerOf hashOf t) \<and>
    (\<forall>hash K. paid (ledgerOf hashOf s) hash = Some K \<longrightarrow> paid (ledgerOf hashOf t) hash = Some K) \<and>
    ledgerOk hashOf (ledgerOf hashOf t)"
proof -
  have init: "(ledgerStep hashOf)\<^sup>*\<^sup>* emptyLedger (ledgerOf hashOf s)" using ledger.sim_reach [OF assms(1)] by blast
  have run: "(ledgerStep hashOf)\<^sup>*\<^sup>* (ledgerOf hashOf s) (ledgerOf hashOf t)" by (rule ledger.sim_run [OF assms(2,1)])
  have "ledgerOk hashOf emptyLedger" by (simp add: ledgerOk_def emptyLedger_def)
  with ledgerOk_steps [OF rtranclp_trans [OF init run]] init run paid_steps [OF run] show ?thesis by blast
qed

text \<open>At the example: one HTLC is held and pays the invoice at once.\<close>

theorem registry_refines_ledger_witness:
  "paid (ledgerOf exHashOf exPaid) exHash = Some {exKey 1} \<and> ledgerOk exHashOf (ledgerOf exHashOf exPaid) \<and>
   (ledgerStep exHashOf)\<^sup>*\<^sup>* emptyLedger (ledgerOf exHashOf exPaid)"
proof -
  have "paid (ledgerOf exHashOf exPaid) exHash = Some {exKey 1}"
    by (simp add: exPaid_process exDb_def findInvoice_def exRow_def htlcsOf_def exHtlcRow_def)
  with registry_refines_ledger [OF exReach_paid run_nil] show ?thesis by blast
qed

end
