(* ===== verification/Registry_Requests.thy ===== *)
theory Registry_Requests
  imports Settlement_Example
begin

text \<open>
  The answers to settle and cancel requests, and which iterations of the event loop can panic.
\<close>

section \<open>When a settle request succeeds\<close>

text \<open>What the schema of the database asks of a set.\<close>

definition storable :: "htlcSetImpl \<Rightarrow> bool" where
  "storable st =
     (length (setPreimage (params st)) = 32 \<and> 0 < sint (setValue (params st)) \<and>
      (\<forall>(k, a) \<in> set (htlcs st). length (Node k) = 33 \<and> 0 < sint a))"

lemma storable_insertable:
  assumes inv: "regInv cr keyOf hashOf s" and st: "gm_get (sets s) hash = Some st" and "storable st" and "length hash = 32"
  shows "invoiceInsertable cr (settleData st) (cdb s)" and "htlcsInsertable (htlcs st) (cdb s)"
proof -
  have mem: "memInv cr keyOf hashOf s" and dbi: "db_inv cr (cdb s)" using inv by (auto simp: regInv_def storeInv_def)
  have ws: "wf_set cr hash st" using memInv_wf [OF mem] st by blast
  then have hash: "preimageHash cr (setPreimage (params st)) = hash" by (simp add: wf_set_def setHash_def)
  have none: "findInvoice hash (cdb s) = None" using memInv_open [OF mem st] .
  have "diPreimage j \<noteq> setPreimage (params st)" if j: "j \<in> set (invoiceTable (cdb s))" for j
  proof
    assume "diPreimage j = setPreimage (params st)"
    moreover have "preimageHash cr (diPreimage j) = diHash j" using dbi j by (auto simp: db_inv_def invoiceOk_def)
    ultimately show False using none j hash by (auto simp: findInvoice_def find_None_iff)
  qed
  with assms(3,4) none hash show "invoiceInsertable cr (settleData st) (cdb s)"
    by (auto simp: invoiceInsertable_def storable_def)
  have "findHtlc k (cdb s) = None" if "(k, a) \<in> set (htlcs st)" for k a
    using held_unrecorded [OF inv st, of k] that by (force simp: gm_keys_def)
  with assms(3) ws show "htlcsInsertable (htlcs st) (cdb s)"
    by (auto simp: htlcsInsertable_def storable_def wf_set_def gm_wf_def)
qed

lemma handleSettleRequest_stored:
  assumes inv: "regInv (crypt env) keyOf hashOf s" and st: "gm_get (sets s) hash = Some st"
    and complete: "isComplete (crypt env) st = Some setID" and "storable st" and "length hash = 32"
    and "\<not> AutoSettle (cfg env)" and "settleFaults inp = noFaults"
  shows "handleSettleRequest env inp hash setID s =
    (Ok None, releasedState hash st (HtlcSettleResolution (setPreimage (params st)) ResultSettled)
      (s\<lparr>cdb := settledDb (crypt env) (nowSettle inp) (settleData st) (htlcs st) (cdb s)\<rparr>))"
proof -
  have wf: "wf_sets (crypt env) (sets s)" using inv memInv_wf by (auto simp: regInv_def)
  have ws: "wf_set (crypt env) hash st" using wf st by blast
  note ins = storable_insertable [OF inv st assms(4,5)]
  have rs: "RequestSettle (crypt env) noFaults (nowSettle inp) (settleData st) (htlcs st) (cdb s) =
      (Ok (), settledDb (crypt env) (nowSettle inp) (settleData st) (htlcs st) (cdb s))"
    using ins by (simp add: RequestSettle_Ok)
  have g: "getAcceptedSet env inp hash setID s = Ok (Inr st)" using st complete by (simp add: getAcceptedSet_Inr)
  have m: "markSettleRequested env inp st s =
      (Ok (), s\<lparr>cdb := settledDb (crypt env) (nowSettle inp) (settleData st) (htlcs st) (cdb s)\<rparr>)"
    using rs ws by (simp add: markSettleRequested_def Let_def assms(7) getHtlcMap_eq wf_set_def flip: settleData_def)
  show ?thesis
    using assms(6) requestSettle_eq [of "s\<lparr>cdb := settledDb (crypt env) (nowSettle inp) (settleData st) (htlcs st) (cdb s)\<rparr>" hash st env] st ws
    by (simp add: handleSettleRequest_def g m)
qed


section \<open>Requests for a stored invoice\<close>

lemma stored_requests:
  assumes inv: "regInv (crypt env) keyOf hashOf s" and "findInvoice hash (cdb s) = Some i" and "getFaults inp = noFaults"
  shows "getAcceptedSet env inp hash setID s = Ok (Inl
    (if setID = newSetID (sha256 (crypt env)) (map dhKey (htlcsOf hash (cdb s))) then ErrSettleRequested else ReqInvoiceNotFound))"
proof -
  have mem: "memInv (crypt env) keyOf hashOf s" and dbi: "db_inv (crypt env) (cdb s)"
    using inv by (auto simp: regInv_def storeInv_def)
  have "gm_get (sets s) hash = None" using memInv_open [OF mem, of hash] assms(2) by (cases "gm_get (sets s) hash") auto
  then show ?thesis
    using assms(2) by (simp add: getAcceptedSet_def setsGet_def assms(3) Get_eq [OF dbi] Let_def gm_keys_def comp_def)
qed

text \<open>
  After a settle request succeeded, the same request succeeds again without any effect, a cancel request
  for that set is refused with \<open>ErrSettleRequested\<close>, and requests with another set id are answered
  \<open>ErrInvoiceNotFound\<close>.
\<close>

lemma requests_after_settle:
  assumes "sysReach env keyOf hashOf s" and "handleSettleRequest env inp hash setID s = (Ok None, s')"
    and "getFaults inp = noFaults" and "getFaults inp' = noFaults"
  shows "handleSettleRequest env inp' hash setID s' = (Ok None, s') \<and>
    handleCancelRequest env inp' hash setID s' = (Ok (Some ErrSettleRequested), s') \<and>
    (setID' \<noteq> setID \<longrightarrow> handleSettleRequest env inp' hash setID' s' = (Ok (Some ReqInvoiceNotFound), s') \<and>
       handleCancelRequest env inp' hash setID' s' = (Ok (Some ReqInvoiceNotFound), s'))"
proof -
  from system.reach_inv [OF assms(1)] have inv: "regInv (crypt env) keyOf hashOf s" by (simp add: sysInv_def)
  then have mem: "memInv (crypt env) keyOf hashOf s" and dbi: "db_inv (crypt env) (cdb s)"
    by (auto simp: regInv_def storeInv_def)
  have "goodStep (crypt env) keyOf hashOf s s'"
    by (rule goodStep_loop [OF inv, of "SettleReq hash setID :: ('a, 'b) event" inp "Continue (Some None)"])
      (simp_all add: assms(2))
  then have inv': "regInv (crypt env) keyOf hashOf s'" by (simp add: goodStep_def)
  have "\<exists>i. findInvoice hash (cdb s') = Some i \<and>
      setID = newSetID (sha256 (crypt env)) (map dhKey (htlcsOf hash (cdb s')))"
    using assms(2) memInv_wf [OF mem]
  proof (cases rule: handleSettleRequest_cases)
    case answered
    then have g: "getAcceptedSet env inp hash setID s = Ok (Inl ErrSettleRequested)" by simp
    then have "\<exists>i. findInvoice hash (cdb s) = Some i"
      by (auto simp: getAcceptedSet_def setsGet_def Get_eq [OF dbi] assms(3) split: option.splits if_splits)
    with g stored_requests [OF inv _ assms(3), of hash] answered(1) show ?thesis by (auto split: if_splits)
  next
    case (settled st db')
    then have ii: "invoiceInsertable (crypt env) (settleData st) (cdb s)"
      and db': "db' = settledDb (crypt env) (nowSettle inp) (settleData st) (htlcs st) (cdb s)" by (auto simp: RequestSettle_Ok)
    have "wf_set (crypt env) hash st" using memInv_wf [OF mem] settled(2) by blast
    then have "preimageHash (crypt env) (setPreimage (params st)) = hash" by (simp add: wf_set_def setHash_def)
    with settled show ?thesis
      by (auto simp: db' findInvoice_settledDb [OF ii] htlcsOf_settledDb [OF dbi ii] isComplete_def newHtlcRow_def
          gm_keys_def comp_def split: if_splits)
  qed auto
  then obtain i where i: "findInvoice hash (cdb s') = Some i"
    and id: "setID = newSetID (sha256 (crypt env)) (map dhKey (htlcsOf hash (cdb s')))" by blast
  note g = stored_requests [OF inv' i assms(4)]
  show ?thesis
    unfolding handleSettleRequest_def handleCancelRequest_def g id [symmetric] by simp
qed

section \<open>Panics\<close>

text \<open>A release event whose HTLC is no longer in the set that is now stored under its hash.\<close>

definition staleRelease :: "'q registryEnv \<Rightarrow> ('r, 'c, 'q) InvoiceRegistry \<Rightarrow> bool" where
  "staleRelease env s =
     (case fst (pqPop (heapOf env) (autoReleaseHeap s)) of
        AcceptTimeoutEvent _ _ \<Rightarrow> False
      | HtlcReleaseEvent hash _ key \<Rightarrow>
          (case setsGet (sets s) hash of
             None \<Rightarrow> False
           | Some st \<Rightarrow> isComplete (crypt env) st = None \<and> \<not> accepted st key))"

lemma accepted_keys: "accepted st k \<longleftrightarrow> k \<in> set (gm_keys (htlcs st))"
  using gm_keys_none [of k "htlcs st"] by (auto simp: accepted_def)

lemma process_no_panic:
  assumes "regInv (crypt env) keyOf hashOf s" and "process env inp h s = (r, s')"
  shows "\<not> is_panic r"
proof -
  have mem: "memInv (crypt env) keyOf hashOf s" and dbi: "db_inv (crypt env) (cdb s)"
    using assms(1) by (auto simp: regInv_def storeInv_def)
  show ?thesis
    using assms(2) dbi
  proof (cases rule: process_cases)
    case (accept mpp sd)
    have ws: "wf_set (crypt env) (rHash h) (afterAdd h mpp sd s)"
      using wf_set_nextSet [OF memInv_wf [OF mem], of sd "rHash h" h mpp] accept(2) by (simp add: admitted_def)
    show ?thesis
      using accept(3) _ ws by (cases rule: processAccepted_cases) simp_all
  qed auto
qed

lemma handleTick_panic:
  assumes "wf_sets (crypt env) (sets s)"
  shows "is_panic (fst (handleTick env s)) \<longleftrightarrow> staleRelease env s"
proof -
  obtain head heap' where pop: "pqPop (heapOf env) (autoReleaseHeap s) = (head, heap')" by fastforce
  have wf': "wf_sets (crypt env) (sets (s\<lparr>autoReleaseHeap := heap'\<rparr>))" using assms by simp
  show ?thesis
    by (cases head)
      (auto simp: handleTick_def pop cancelSingleHtlc_eq [OF wf'] failInvoice_eq [OF wf'] staleRelease_def setsGet_def
        accepted_keys split: option.splits)
qed

text \<open>
  C12: the event loop panics in one situation only: a release timer fires for an HTLC whose set was
  replaced by a new, incomplete set for the same hash in the meantime. No HTLC, no request and no
  subscription can make the registry panic.
\<close>

theorem loop_panics_iff_stale_release:
  assumes "sysReach env keyOf hashOf s"
  shows "(\<exists>m. fst (invoiceEventLoop_step env inp ev s) = Crash m) \<longleftrightarrow>
    (\<exists>now. ev = ReleaseTick now) \<and> staleRelease env s"
proof -
  from system.reach_inv [OF assms] have inv: "regInv (crypt env) keyOf hashOf s" by (simp add: sysInv_def)
  then have wf: "wf_sets (crypt env) (sets s)" using memInv_wf by (auto simp: regInv_def)
  show ?thesis
  proof (cases ev)
    case (ReleaseTick t)
    with handleTick_panic [OF wf] show ?thesis
      by (cases "fst (handleTick env s)") (auto split: prod.splits)
  next
    case (NewHtlc h)
    with process_no_panic [OF inv, of inp h] show ?thesis
      by (cases "fst (process env inp h s)") (auto split: prod.splits)
  next
    case (SettleReq hash setID)
    obtain q s1 where q: "handleSettleRequest env inp hash setID s = (q, s1)" by fastforce
    then have "\<not> is_panic q" using wf by (cases rule: handleSettleRequest_cases) simp_all
    with q SettleReq show ?thesis by (cases q) auto
  next
    case (CancelReq hash setID)
    obtain q s1 where q: "handleCancelRequest env inp hash setID s = (q, s1)" by fastforce
    then have "\<not> is_panic q" using wf by (cases rule: handleCancelRequest_cases) simp_all
    with q CancelReq show ?thesis by (cases q) auto
  qed auto
qed

section \<open>Timers\<close>

text \<open>
  What a timer does when it fires. The release event of an HTLC in an incomplete set fails exactly
  that HTLC with \<open>ResultMppTimeout\<close>; in a complete set it does nothing; an accept timeout fails every
  HTLC of the set; and an event for a hash that is no longer held does nothing.
\<close>

lemma release_tick_outcome:
  assumes "sysReach env keyOf hashOf s" and "pqPop (heapOf env) (autoReleaseHeap s) = (head, heap')"
    and "\<not> staleRelease env s"
  shows "\<exists>s'. handleTick env s = (Ok (), s') \<and> autoReleaseHeap s' = heap' \<and> cdb s' = cdb s \<and>
    (case setsGet (sets s) (evHash head) of
       None \<Rightarrow> calls s' = calls s \<and> sets s' = sets s
     | Some st \<Rightarrow>
         (case head of
            AcceptTimeoutEvent hash _ \<Rightarrow>
              calls s' = calls s @ resolutions (HtlcFailResolution ResultAcceptTimeout) s (gm_keys (htlcs st)) \<and>
              setsGet (sets s') hash = None
          | HtlcReleaseEvent hash _ key \<Rightarrow>
              if isComplete (crypt env) st \<noteq> None then calls s' = calls s \<and> sets s' = sets s
              else calls s' = calls s @ resolutions (HtlcFailResolution ResultMppTimeout) s [key] \<and>
                (\<forall>st'. setsGet (sets s') hash = Some st' \<longrightarrow> \<not> accepted st' key)))"
proof -
  from system.reach_inv [OF assms(1)] have wf: "wf_sets (crypt env) (sets (s\<lparr>autoReleaseHeap := heap'\<rparr>))"
    using memInv_wf by (auto simp: sysInv_def regInv_def)
  have subs: "subsOf (s\<lparr>autoReleaseHeap := heap', sets := x\<rparr>) k = subsOf s k"
    "resolutions res (s\<lparr>autoReleaseHeap := heap'\<rparr>) ks = resolutions res s ks" for x k res ks
    by (simp_all add: subsOf_def resolutions_def)
  show ?thesis
  proof (cases head)
    case (AcceptTimeoutEvent hash t)
    with assms(2) show ?thesis
      by (simp add: handleTick_def failInvoice_eq [OF wf] setsGet_def subs split: option.splits)
  next
    case (HtlcReleaseEvent hash t key)
    with assms(2,3) show ?thesis
      by (auto simp: handleTick_def cancelSingleHtlc_eq [OF wf] setsGet_def staleRelease_def accepted_keys
          notifyHodlSubscribers_eq subs resolutions_def droppedSets_get split: option.splits if_splits)
  qed
qed

end
