(* ===== verification/Hold_Timers.thy ===== *)
theory Hold_Timers
  imports Settlement
begin

text \<open>
  No HTLC is held without a timer, and no invoice is paid more than its amount. Both rest on the same
  fact about the node and the invoices: amounts are below \<open>2 ^ 63\<close> msat (all bitcoin are fewer), and
  the payment addresses whose preimage hashes to a given payment hash are one (the HMAC and SHA-256
  do not collide on the addresses in use); \<open>addrOf\<close> names it.
\<close>

section \<open>Honest HTLCs\<close>

definition honestHtlc :: "'q registryEnv \<Rightarrow> (hash \<Rightarrow> bytes) \<Rightarrow> 'r registryHtlc \<Rightarrow> bool" where
  "honestHtlc env addrOf h =
     (unat (amtPaid h) < 2 ^ 63 \<and>
      (\<forall>mpp sd. multiPath h = Some mpp \<longrightarrow>
         decodeStatelessData (crypt env) (PrivKey (cfg env)) (mppPaymentAddr mpp) = Ok sd \<longrightarrow>
         preimageHash (crypt env) (sdPreimage sd) = rHash h \<longrightarrow>
         mppPaymentAddr mpp = addrOf (rHash h) \<and> unat (sdAmtMsat sd) < 2 ^ 63))"

fun honestEvent :: "'q registryEnv \<Rightarrow> (hash \<Rightarrow> bytes) \<Rightarrow> ('r, 'c) sysEvent \<Rightarrow> bool" where
  "honestEvent env addrOf (SysLoop (NewHtlc h) _) = honestHtlc env addrOf h"
| "honestEvent env addrOf (SysDied (NewHtlc h)) = honestHtlc env addrOf h"
| "honestEvent env addrOf _ = True"

definition honestStep ::
    "'q registryEnv \<Rightarrow> ('r \<Rightarrow> HtlcKey) \<Rightarrow> (HtlcKey \<Rightarrow> hash) \<Rightarrow> (hash \<Rightarrow> bytes)
     \<Rightarrow> ('r, 'c, 'q) InvoiceRegistry \<Rightarrow> ('r, 'c) sysEvent \<Rightarrow> ('r, 'c, 'q) InvoiceRegistry \<Rightarrow> bool" where
  "honestStep env keyOf hashOf addrOf s e s' = (sysStep env keyOf hashOf s e s' \<and> honestEvent env addrOf e)"

abbreviation honestReach ::
    "'q registryEnv \<Rightarrow> ('r \<Rightarrow> HtlcKey) \<Rightarrow> (HtlcKey \<Rightarrow> hash) \<Rightarrow> (hash \<Rightarrow> bytes) \<Rightarrow> ('r, 'c, 'q) InvoiceRegistry \<Rightarrow> bool" where
  "honestReach env keyOf hashOf addrOf \<equiv> reach (sysInit env) (honestStep env keyOf hashOf addrOf)"

lemma honest_sys: "honestReach env keyOf hashOf addrOf s \<Longrightarrow> sysReach env keyOf hashOf s"
proof (induction rule: reach.induct)
  case (reach_step s e t)
  then have "sysStep env keyOf hashOf s e t" by (simp add: honestStep_def)
  then show ?case by (rule reach.reach_step [where step = "sysStep env keyOf hashOf", OF reach_step(3)])
qed (simp add: reach_init)

section \<open>The amounts of a set\<close>

definition natTotal :: "(HtlcKey, u64) gomap \<Rightarrow> nat" where
  "natTotal m = sum_list (map (unat \<circ> snd) m)"

text \<open>A set never exceeds the value of its invoice, and its parameters come from the one address.\<close>

definition boundedSet :: "'q registryEnv \<Rightarrow> (hash \<Rightarrow> bytes) \<Rightarrow> hash \<Rightarrow> htlcSetImpl \<Rightarrow> bool" where
  "boundedSet env addrOf hash st =
     (natTotal (htlcs st) \<le> unat (setValue (params st)) \<and> unat (setValue (params st)) < 2 ^ 63 \<and>
      (\<exists>sd. decodeStatelessData (crypt env) (PrivKey (cfg env)) (addrOf hash) = Ok sd \<and>
            setValue (params st) = sdAmtMsat sd))"

lemma unat_total: "natTotal m < 2 ^ 64 \<Longrightarrow> unat (sum_list (map snd m)) = natTotal m"
proof (induction m)
  case (Cons p m)
  then have "unat (sum_list (map snd m)) = natTotal m" by (simp add: natTotal_def)
  with Cons.prems show ?case
    by (simp add: natTotal_def unat_word_ariths)
qed (simp add: natTotal_def)

lemma bounded_total: "boundedSet env addrOf hash st \<Longrightarrow> unat (totalSetAmt st) = natTotal (htlcs st)"
  using unat_total [of "htlcs st"] by (simp add: boundedSet_def totalSetAmt_def)

lemma natTotal_del: "natTotal (gm_del k m) \<le> natTotal m"
  by (induction m) (auto simp: natTotal_def gm_del_def)

lemma bounded_drop: "boundedSet env addrOf hash st \<Longrightarrow> boundedSet env addrOf hash (st\<lparr>htlcs := gm_del k (htlcs st)\<rparr>)"
  using natTotal_del [of k "htlcs st"] by (auto simp: boundedSet_def)

lemma incomplete_drop:
  assumes "boundedSet env addrOf hash st" and "isComplete cr st = None"
  shows "isComplete cr (st\<lparr>htlcs := gm_del k (htlcs st)\<rparr>) = None"
proof -
  have "unat (totalSetAmt st) < unat (setValue (params st))"
    using assms bounded_total [OF assms(1)] by (auto simp: boundedSet_def isComplete_def word_unat_eq_iff split: if_splits)
  then have "unat (totalSetAmt (st\<lparr>htlcs := gm_del k (htlcs st)\<rparr>)) < unat (setValue (params st))"
    using bounded_total [OF bounded_drop [OF assms(1), of k]] bounded_total [OF assms(1)] natTotal_del [of k "htlcs st"]
    by simp
  then show ?thesis by (auto simp: isComplete_def)
qed

lemma bounded_add:
  assumes ad: "admitted env inp h mpp sd s" and hon: "honestHtlc env addrOf h"
    and old: "\<And>st. gm_get (sets s) (rHash h) = Some st \<Longrightarrow> boundedSet env addrOf (rHash h) st"
  shows "boundedSet env addrOf (rHash h) (afterAdd h mpp sd s)"
    and "gm_get (sets s) (rHash h) = Some st \<Longrightarrow> isComplete cr st \<noteq> None \<Longrightarrow> isComplete cr (afterAdd h mpp sd s) \<noteq> None"
proof -
  have dec: "decodeStatelessData (crypt env) (PrivKey (cfg env)) (addrOf (rHash h)) = Ok sd"
    and sd: "unat (sdAmtMsat sd) < 2 ^ 63" and amt: "unat (amtPaid h) < 2 ^ 63"
    using ad hon by (auto simp: admitted_def honestHtlc_def)
  have le: "setTotalOf (gm_get (sets s) (rHash h)) + amtPaid h \<le> sdAmtMsat sd" using ad by (simp add: admitted_def)
  show "boundedSet env addrOf (rHash h) (afterAdd h mpp sd s)"
  proof (cases "gm_get (sets s) (rHash h)")
    case None
    with le dec sd show ?thesis
      by (simp add: boundedSet_def nextSet_def natTotal_def setTotalOf_def word_le_nat_alt)
  next
    case (Some st)
    from old [OF Some] have b: "natTotal (htlcs st) \<le> unat (setValue (params st))" "setValue (params st) = sdAmtMsat sd"
      "unat (totalSetAmt st) = natTotal (htlcs st)"
      using dec bounded_total [OF old [OF Some]] by (auto simp: boundedSet_def)
    have "unat (totalSetAmt st + amtPaid h) = natTotal (htlcs st) + unat (amtPaid h)"
      using b sd amt by (simp add: unat_word_ariths)
    with le b sd dec Some show ?thesis
      by (simp add: boundedSet_def nextSet_def natTotal_def setTotalOf_def word_le_nat_alt)
  qed
  show "isComplete cr (afterAdd h mpp sd s) \<noteq> None"
    if st: "gm_get (sets s) (rHash h) = Some st" and c: "isComplete cr st \<noteq> None"
  proof -
    have eq: "totalSetAmt st = sdAmtMsat sd" "setValue (params st) = sdAmtMsat sd"
      using old [OF st] dec c by (auto simp: boundedSet_def isComplete_def split: if_splits)
    have "unat (sdAmtMsat sd + amtPaid h) = unat (sdAmtMsat sd) + unat (amtPaid h)"
      using sd amt by (simp add: unat_word_ariths)
    with le eq st have "amtPaid h = 0" by (simp add: setTotalOf_def word_le_nat_alt word_unat_eq_iff)
    with eq st show ?thesis
      using nextSet_total [of h mpp sd "gm_get (sets s) (rHash h)"] nextSet_params [of h mpp sd "gm_get (sets s) (rHash h)"]
      by (simp add: isComplete_def setTotalOf_def)
  qed
qed

section \<open>Timers\<close>

definition timed :: "'q registryEnv \<Rightarrow> releaseEvent multiset \<Rightarrow> hash \<Rightarrow> htlcSetImpl \<Rightarrow> bool" where
  "timed env evs hash st =
     (case isComplete (crypt env) st of
        Some _ \<Rightarrow> \<exists>t. AcceptTimeoutEvent hash t \<in># evs
      | None \<Rightarrow> \<forall>k \<in> set (gm_keys (htlcs st)). \<exists>t. HtlcReleaseEvent hash t k \<in># evs)"

definition holdInv ::
    "'q registryEnv \<Rightarrow> (hash \<Rightarrow> bytes) \<Rightarrow> ('q \<Rightarrow> releaseEvent multiset) \<Rightarrow> ('q \<Rightarrow> bool) \<Rightarrow> ('r, 'c, 'q) InvoiceRegistry \<Rightarrow> bool" where
  "holdInv env addrOf elems pqInv s =
     (pqInv (autoReleaseHeap s) \<and>
      (\<forall>hash st. gm_get (sets s) hash = Some st \<longrightarrow>
         boundedSet env addrOf hash st \<and> timed env (elems (autoReleaseHeap s)) hash st))"

lemma timed_mono: "timed env evs hash st \<Longrightarrow> evs \<subseteq># evs' \<Longrightarrow> timed env evs' hash st"
  by (auto simp: timed_def split: option.splits dest: mset_subset_eqD) (meson mset_subset_eqD)+

lemma holdInv_cong:
  "holdInv env addrOf elems pqInv s \<Longrightarrow> sets s' = sets s \<Longrightarrow> autoReleaseHeap s' = autoReleaseHeap s \<Longrightarrow>
     holdInv env addrOf elems pqInv s'"
  by (simp add: holdInv_def)

lemma holdInv_released:
  "holdInv env addrOf elems pqInv s \<Longrightarrow> autoReleaseHeap s' = autoReleaseHeap s \<Longrightarrow> sets s' = gm_del hash (sets s) \<Longrightarrow>
     holdInv env addrOf elems pqInv s'"
  by (simp add: holdInv_def)

context priority_queue begin

lemma push_mono: "pqInv q \<Longrightarrow> elems q \<subseteq># elems (pqPush pq e q)"
  by (simp add: elems_push)

lemma holdInv_push:
  assumes "holdInv env addrOf elems pqInv s" and "sets s' = sets s"
    and "autoReleaseHeap s' = pqPush pq e (autoReleaseHeap s)"
  shows "holdInv env addrOf elems pqInv s'"
  using assms inv_push timed_mono [of env, OF _ push_mono] by (auto simp: holdInv_def)

text \<open>A set that was changed or added, with its timer.\<close>

lemma holdInv_put:
  assumes "holdInv env addrOf elems pqInv s" and "sets s' = gm_put hash st (sets s)"
    and "autoReleaseHeap s' = pqPush pq e (autoReleaseHeap s)"
    and "boundedSet env addrOf hash st" and "timed env (elems (autoReleaseHeap s')) hash st"
  shows "holdInv env addrOf elems pqInv s'"
  using assms inv_push timed_mono [of env, OF _ push_mono] by (auto simp: holdInv_def)

lemma timed_add:
  assumes inv: "holdInv env addrOf elems pqInv s" and ad: "admitted env inp h mpp sd s" and hon: "honestHtlc env addrOf h"
    and none: "isComplete (crypt env) (afterAdd h mpp sd s) = None"
  shows "timed env (elems (pqPush pq (HtlcReleaseEvent (rHash h) t (circuitKey h)) (autoReleaseHeap s)))
    (rHash h) (afterAdd h mpp sd s)"
proof -
  have pi: "pqInv (autoReleaseHeap s)" using inv by (simp add: holdInv_def)
  have "\<exists>t. HtlcReleaseEvent (rHash h) t k \<in># elems (autoReleaseHeap s)"
    if k: "k \<in> keysOf (gm_get (sets s) (rHash h))" for k
  proof -
    from k obtain st where st: "gm_get (sets s) (rHash h) = Some st" "k \<in> set (gm_keys (htlcs st))"
      by (auto simp: keysOf_def split: option.splits)
    have b: "boundedSet env addrOf (rHash h) st'" if "gm_get (sets s) (rHash h) = Some st'" for st'
      using inv that by (simp add: holdInv_def)
    have "isComplete (crypt env) st = None"
      using bounded_add(2) [OF ad hon b st(1), of "crypt env"] none by blast
    moreover have "timed env (elems (autoReleaseHeap s)) (rHash h) st" using inv st(1) by (simp add: holdInv_def)
    ultimately show ?thesis using st(2) by (simp add: timed_def)
  qed
  then show ?thesis
    using none nextSet_keys [of h mpp sd] pi by (fastforce simp: timed_def elems_push)
qed

lemma holdInv_accepted:
  assumes inv: "holdInv env addrOf elems pqInv s" and env: "heapOf env = pq" and hon: "honestHtlc env addrOf h"
    and ad: "admitted env inp h mpp sd s" and wf: "wf_sets (crypt env) (sets s)"
    and op: "processAccepted env inp h sd (afterAdd h mpp sd s) (s\<lparr>sets := gm_put (rHash h) (afterAdd h mpp sd s) (sets s)\<rparr>) = (r, s')"
  shows "holdInv env addrOf elems pqInv s'"
proof -
  let ?st = "afterAdd h mpp sd s"
  have b: "boundedSet env addrOf (rHash h) st'" if "gm_get (sets s) (rHash h) = Some st'" for st'
    using inv that by (simp add: holdInv_def)
  have bst: "boundedSet env addrOf (rHash h) ?st" using bounded_add(1) [OF ad hon b] .
  have pi: "pqInv (autoReleaseHeap s)" using inv by (simp add: holdInv_def)
  have ws: "wf_set (crypt env) (rHash h) ?st"
    using wf_set_nextSet [OF wf, of sd "rHash h" h mpp] ad by (simp add: admitted_def)
  let ?s1 = "s\<lparr>sets := gm_put (rHash h) ?st (sets s)\<rparr>"
  have acc: "holdInv env addrOf elems pqInv t"
    if c: "isComplete (crypt env) ?st = Some setID" and "sets t = gm_put (rHash h) ?st (sets s)"
      "autoReleaseHeap t = autoReleaseHeap (acceptState env inp h setID ?s1)" for t :: "('x, 'y, 'q) InvoiceRegistry" and setID
  proof (rule holdInv_put [OF inv that(2) _ bst])
    show heap: "autoReleaseHeap t = pqPush pq (AcceptTimeoutEvent (rHash h) (nowAccept inp + AcceptTimeout (cfg env))) (autoReleaseHeap s)"
      using that(3) by (simp add: acceptState_def startAcceptTimer_def env Let_def)
    show "timed env (elems (autoReleaseHeap t)) (rHash h) ?st"
      using c pi unfolding heap by (auto simp: timed_def elems_push)
  qed
  have get: "gm_get (sets ?s1) (rHash h) = Some ?st" by simp
  show ?thesis
    using op get ws
  proof (cases rule: processAccepted_cases)
    case hold
    then show ?thesis
      using timed_add [OF inv ad hon hold(2), of "releaseTimeOf env inp sd"]
      by (intro holdInv_put [OF inv _ _ bst, where e = "HtlcReleaseEvent (rHash h) (releaseTimeOf env inp sd) (circuitKey h)"])
        (simp_all add: startHtlcTimer_def env)
  next
    case (complete setID)
    then show ?thesis by (intro acc [OF complete(2)]) simp_all
  next
    case (refused setID e db')
    then show ?thesis by (intro acc [OF refused(2)]) simp_all
  next
    case (settled setID db')
    have "holdInv env addrOf elems pqInv ((acceptState env inp h setID ?s1)\<lparr>cdb := db'\<rparr>)"
      by (rule acc [OF settled(2)]) simp_all
    then show ?thesis
      by (rule holdInv_released [where hash = "rHash h"]) (simp_all add: settled(5))
  qed
qed

lemma holdInv_process:
  assumes inv: "holdInv env addrOf elems pqInv s" and reg: "regInv (crypt env) keyOf hashOf s"
    and env: "heapOf env = pq" and hon: "honestHtlc env addrOf h" and op: "process env inp h s = (r, s')"
  shows "holdInv env addrOf elems pqInv s'"
proof -
  have dbi: "db_inv (crypt env) (cdb s)" and wf: "wf_sets (crypt env) (sets s)"
    using reg memInv_wf by (auto simp: regInv_def storeInv_def)
  show ?thesis
    using op dbi
  proof (cases rule: process_cases)
    case (accept mpp sd)
    with holdInv_accepted [OF inv env hon _ wf] show ?thesis by blast
  qed (use inv in \<open>auto intro: holdInv_cong simp: callResolve_def\<close>)
qed

lemma timed_pop:
  assumes "pqInv q" and "elems q \<noteq> {#}" and "timed env (elems q) hash st"
    and "\<And>t. isComplete (crypt env) st \<noteq> None \<Longrightarrow> pqTop pq q \<noteq> AcceptTimeoutEvent hash t"
    and "\<And>t k. isComplete (crypt env) st = None \<Longrightarrow> k \<in> set (gm_keys (htlcs st)) \<Longrightarrow> pqTop pq q \<noteq> HtlcReleaseEvent hash t k"
  shows "timed env (elems (snd (pqPop pq q))) hash st"
proof (cases "isComplete (crypt env) st")
  case None
  have "\<exists>t. HtlcReleaseEvent hash t k \<in># elems (snd (pqPop pq q))" if k: "k \<in> set (gm_keys (htlcs st))" for k
  proof -
    obtain t where "HtlcReleaseEvent hash t k \<in># elems q" using assms(3) None k by (auto simp: timed_def)
    with pop_keeps [OF assms(1,2) this] assms(5) [OF None k, of t] show ?thesis by auto
  qed
  with None show ?thesis by (simp add: timed_def)
next
  case (Some setID)
  then obtain t where "AcceptTimeoutEvent hash t \<in># elems q" using assms(3) by (auto simp: timed_def)
  with pop_keeps [OF assms(1,2) this] assms(4) [of t] Some show ?thesis by (auto simp: timed_def)
qed

text \<open>The timer at the top has fired and was removed: the sets that do not need it keep their timers.\<close>

lemma holdInv_popped:
  assumes inv: "holdInv env addrOf elems pqInv s" and ne: "elems (autoReleaseHeap s) \<noteq> {#}"
    and s': "autoReleaseHeap s' = snd (pqPop pq (autoReleaseHeap s))"
    and each: "\<And>hash st. gm_get (sets s') hash = Some st \<Longrightarrow> boundedSet env addrOf hash st \<and> timed env (elems (autoReleaseHeap s)) hash st"
    and top: "\<And>hash st t. gm_get (sets s') hash = Some st \<Longrightarrow> isComplete (crypt env) st \<noteq> None \<Longrightarrow>
        pqTop pq (autoReleaseHeap s) \<noteq> AcceptTimeoutEvent hash t"
      "\<And>hash st t k. gm_get (sets s') hash = Some st \<Longrightarrow> isComplete (crypt env) st = None \<Longrightarrow> k \<in> set (gm_keys (htlcs st)) \<Longrightarrow>
        pqTop pq (autoReleaseHeap s) \<noteq> HtlcReleaseEvent hash t k"
  shows "holdInv env addrOf elems pqInv s'"
proof -
  have pi: "pqInv (autoReleaseHeap s)" using inv by (simp add: holdInv_def)
  have "timed env (elems (autoReleaseHeap s')) hash st" if "gm_get (sets s') hash = Some st" for hash st
    unfolding s' by (rule timed_pop [OF pi ne]) (use each top that in auto)
  with each inv_pop [OF pi ne] s' show ?thesis by (simp add: holdInv_def)
qed

lemma holdInv_tick:
  assumes inv: "holdInv env addrOf elems pqInv s" and wf: "wf_sets (crypt env) (sets s)"
    and env: "heapOf env = pq" and can: "0 < pqLen pq (autoReleaseHeap s)" and op: "handleTick env s = (r, s')" and "\<not> is_panic r"
  shows "holdInv env addrOf elems pqInv s'"
proof -
  let ?q = "autoReleaseHeap s"
  have pi: "pqInv ?q" using inv by (simp add: holdInv_def)
  then have ne: "elems ?q \<noteq> {#}" using can len_pos by simp
  obtain head heap' where pop: "pqPop pq ?q = (head, heap')" by fastforce
  then have head: "pqTop pq ?q = head" and heap': "heap' = snd (pqPop pq ?q)" using pop_top [OF pi ne] by simp_all
  have each: "boundedSet env addrOf hash st \<and> timed env (elems ?q) hash st" if "gm_get (sets s) hash = Some st" for hash st
    using inv that by (simp add: holdInv_def)
  have wf1: "wf_sets (crypt env) (sets (s\<lparr>autoReleaseHeap := heap'\<rparr>))" using wf by simp
  show ?thesis
  proof (cases head)
    case (AcceptTimeoutEvent hash t)
    with op pop env have "gm_get (sets s') hash' = (if hash' = hash then None else gm_get (sets s) hash')" "autoReleaseHeap s' = heap'" for hash'
      by (auto simp: handleTick_def failInvoice_eq [OF wf1] split: option.splits)
    with heap' each AcceptTimeoutEvent head show ?thesis
      by (intro holdInv_popped [OF inv ne]) (auto split: if_splits)
  next
    case (HtlcReleaseEvent hash t key)
    with op pop env have c: "cancelSingleHtlc env hash key ResultMppTimeout (s\<lparr>autoReleaseHeap := heap'\<rparr>) = (r, s')"
      by (simp add: handleTick_def)
    show ?thesis
    proof (cases "\<exists>st. gm_get (sets s) hash = Some st \<and> isComplete (crypt env) st = None")
      case True
      then obtain st where st: "gm_get (sets s) hash = Some st" "isComplete (crypt env) st = None" by blast
      with c \<open>\<not> is_panic r\<close> have sel: "sets s' = droppedSets hash st key (sets s)" "autoReleaseHeap s' = heap'"
        by (auto simp: cancelSingleHtlc_eq [OF wf1] notifyHodlSubscribers_eq split: if_splits)
      have b: "boundedSet env addrOf hash st" "timed env (elems ?q) hash st" using each st by auto
      note drop = incomplete_drop [OF b(1) st(2), of key]
      have "timed env (elems ?q) hash (st\<lparr>htlcs := gm_del key (htlcs st)\<rparr>)" using b st drop by (auto simp: timed_def)
      with each bounded_drop [OF b(1)] HtlcReleaseEvent head heap' drop show ?thesis
        by (intro holdInv_popped [OF inv ne]) (auto simp: sel droppedSets_get split: if_splits)
    next
      case False
      with c have "sets s' = sets s" "autoReleaseHeap s' = heap'" by (auto simp: cancelSingleHtlc_eq [OF wf1] split: option.splits if_splits)
      with False each HtlcReleaseEvent head heap' show ?thesis by (intro holdInv_popped [OF inv ne]) auto
    qed
  qed
qed

text \<open>One iteration of the loop that does not panic keeps the timers.\<close>

lemma holdInv_loop:
  assumes inv: "holdInv env addrOf elems pqInv s" and reg: "regInv (crypt env) keyOf hashOf s" and env: "heapOf env = pq"
    and can: "canReceive env ev s" and hon: "\<And>h. ev = NewHtlc h \<Longrightarrow> honestHtlc env addrOf h"
    and op: "invoiceEventLoop_step env inp ev s = (Continue a, s')"
  shows "holdInv env addrOf elems pqInv s'"
proof -
  have wf: "wf_sets (crypt env) (sets s)" using reg memInv_wf by (auto simp: regInv_def)
  show ?thesis
    using op
  proof (cases rule: loop_cases)
    case (tick now q)
    with holdInv_tick [OF inv wf env _ tick(2)] can env show ?thesis by (simp add: canReceive_def)
  next
    case (htlc h q)
    with holdInv_process [OF inv reg env hon [OF htlc(1)]] show ?thesis by blast
  next
    case (settle hash setID q)
    from settle(2) wf show ?thesis
      by (cases rule: handleSettleRequest_cases) (use inv in \<open>auto intro: holdInv_cong holdInv_released [where hash = hash]\<close>)
  next
    case (cancel hash setID q)
    from cancel(2) wf show ?thesis
      by (cases rule: handleCancelRequest_cases) (use inv in \<open>auto intro: holdInv_released [where hash = hash]\<close>)
  qed (use inv in \<open>auto intro: holdInv_cong simp: addAcceptSubscriber_eq\<close>)
qed

end

section \<open>The amounts in the database\<close>

definition exactDb :: "database \<Rightarrow> bool" where
  "exactDb db = (\<forall>i \<in> set (invoiceTable db).
     sum_list (map (unat \<circ> dhAmountMsat) (htlcsOf (diHash i) db)) = unat (diAmountMsat i))"

lemma exactDb_same: "exactDb db \<Longrightarrow> sameTables db db' \<Longrightarrow> exactDb db'"
  by (simp add: exactDb_def sameTables_def htlcsOf_def)

lemma exactDb_final:
  assumes "exactDb db" and "MarkHtlcFinal f now key settled db = (r, db')"
  shows "exactDb db'"
proof (cases r)
  case (Ok u)
  then have ht: "htlcTable db' = map (updHtlc key settled now) (htlcTable db)"
    and "\<exists>hash. invoiceTable db' = invoiceTable db \<or> invoiceTable db' = map (updInvoice hash settled now) (invoiceTable db)"
    using MarkHtlcFinal_Ok [of f now key settled db u db'] assms(2) by (auto split: if_splits)
  then show ?thesis using assms(1) by (auto simp: exactDb_def htlcsOf_upd [OF ht] comp_def)
qed (use assms MarkHtlcFinal_not_Ok [OF assms(2)] exactDb_same in auto)

lemma exactDb_settled:
  assumes ex: "exactDb db" and inv: "db_inv cr db" and b: "boundedSet env addrOf hash st" and c: "isComplete cr st \<noteq> None"
    and op: "RequestSettle cr f now (settleData st) (htlcs st) db = (Ok u, db')"
  shows "exactDb db'"
proof -
  from op have ii: "invoiceInsertable cr (settleData st) db"
    and db': "db' = settledDb cr now (settleData st) (htlcs st) db" by (auto simp: RequestSettle_Ok)
  have tot: "natTotal (htlcs st) = unat (setValue (params st))"
    using bounded_total [OF b] c by (auto simp: isComplete_def split: if_splits)
  have fresh: "diHash i \<noteq> preimageHash cr (setPreimage (params st))" if "i \<in> set (invoiceTable db)" for i
    using ii that by (auto simp: invoiceInsertable_def findInvoice_def find_None_iff)
  show ?thesis
    using ex fresh tot
    by (auto simp: exactDb_def db' settledDb_sel htlcsOf_settledDb [OF inv ii] newHtlcRow_def comp_def natTotal_def)
qed

lemma exactDb_accepted:
  assumes ex: "exactDb (cdb s)" and dbi: "db_inv (crypt env) (cdb s)" and wf: "wf_sets (crypt env) (sets s)"
    and b: "boundedSet env addrOf (rHash h) (afterAdd h mpp sd s)" and ad: "admitted env inp h mpp sd s"
    and op: "processAccepted env inp h sd (afterAdd h mpp sd s) (s\<lparr>sets := gm_put (rHash h) (afterAdd h mpp sd s) (sets s)\<rparr>) = (r, s')"
  shows "exactDb (cdb s')"
proof -
  let ?st = "afterAdd h mpp sd s"
  have ws: "wf_set (crypt env) (rHash h) ?st"
    using wf_set_nextSet [OF wf, of sd "rHash h" h mpp] ad by (simp add: admitted_def)
  have get: "gm_get (sets (s\<lparr>sets := gm_put (rHash h) ?st (sets s)\<rparr>)) (rHash h) = Some ?st" by simp
  from op get ws show ?thesis
  proof (cases rule: processAccepted_cases)
    case (settled setID db')
    with exactDb_settled [OF ex dbi b, of "settleFaults inp" "nowSettle inp" "()" db'] show ?thesis by simp
  qed (use ex exactDb_same in \<open>auto simp: startHtlcTimer_def\<close>)
qed

lemma handleTick_cdb:
  assumes "wf_sets (crypt env) (sets s)" and "handleTick env s = (r, s')"
  shows "cdb s' = cdb s"
proof -
  obtain head heap' where pop: "pqPop (heapOf env) (autoReleaseHeap s) = (head, heap')" by fastforce
  have wf': "wf_sets (crypt env) (sets (s\<lparr>autoReleaseHeap := heap'\<rparr>))" using assms(1) by simp
  show ?thesis
    using assms(2) pop
    by (cases head) (auto simp: handleTick_def cancelSingleHtlc_eq [OF wf'] failInvoice_eq [OF wf']
        notifyHodlSubscribers_eq split: option.splits if_splits)
qed

lemma exactDb_loop:
  assumes ex: "exactDb (cdb s)" and bd: "\<And>hash st. gm_get (sets s) hash = Some st \<Longrightarrow> boundedSet env addrOf hash st"
    and reg: "regInv (crypt env) keyOf hashOf s"
    and hon: "\<And>h. ev = NewHtlc h \<Longrightarrow> honestHtlc env addrOf h"
    and op: "invoiceEventLoop_step env inp ev s = (a, s')"
  shows "exactDb (cdb s')"
proof -
  have wf: "wf_sets (crypt env) (sets s)" and dbi: "db_inv (crypt env) (cdb s)"
    using reg memInv_wf by (auto simp: regInv_def storeInv_def)
  show ?thesis
    using op
  proof (cases rule: loop_cases)
    case (tick now q)
    with handleTick_cdb [OF wf] ex show ?thesis by metis
  next
    case (htlc h q)
    from htlc(2) dbi show ?thesis
    proof (cases rule: process_cases)
      case (accept mpp sd)
      with exactDb_accepted [OF ex dbi wf bounded_add(1) [OF accept(2) hon [OF htlc(1)] bd]] show ?thesis by blast
    qed (use ex in auto)
  next
    case (settle hash setID q)
    from settle(2) wf show ?thesis
    proof (cases rule: handleSettleRequest_cases)
      case (settled st db')
      with exactDb_settled [OF ex dbi bd [OF settled(2)], of "settleFaults inp" "nowSettle inp" "()" db'] show ?thesis by simp
    qed (use ex exactDb_same in auto)
  next
    case (cancel hash setID q)
    from cancel(2) wf show ?thesis by (cases rule: handleCancelRequest_cases) (use ex in auto)
  qed (use ex in \<open>auto simp: addAcceptSubscriber_eq\<close>)
qed

section \<open>Every reachable state\<close>

definition heldInv ::
    "releaseEvent list registryEnv \<Rightarrow> ('r \<Rightarrow> HtlcKey) \<Rightarrow> (HtlcKey \<Rightarrow> hash) \<Rightarrow> (hash \<Rightarrow> bytes)
     \<Rightarrow> ('r, 'c, releaseEvent list) InvoiceRegistry \<Rightarrow> bool" where
  "heldInv env keyOf hashOf addrOf s =
     (sysInv env keyOf hashOf s \<and> holdInv env addrOf mset (\<lambda>h. heapOk h (length h)) s \<and> exactDb (cdb s))"

lemma holdInv_restart:
  "heapOf env = heapOps \<Longrightarrow> holdInv env addrOf mset (\<lambda>h. heapOk h (length h)) (restart env s)"
  using heap.inv_empty by (simp add: holdInv_def restart_def NewRegistry_def newHtlcSets_def)

lemma heldInv_step:
  assumes inv: "heldInv env keyOf hashOf addrOf s" and env: "heapOf env = heapOps"
    and step: "honestStep env keyOf hashOf addrOf s e s'"
  shows "heldInv env keyOf hashOf addrOf s'"
proof -
  have sys: "sysInv env keyOf hashOf s" and hold: "holdInv env addrOf mset (\<lambda>h. heapOk h (length h)) s"
    and ex: "exactDb (cdb s)" and reg: "regInv (crypt env) keyOf hashOf s"
    using inv by (simp_all add: heldInv_def sysInv_def)
  have st: "sysStep env keyOf hashOf s e s'" and he: "honestEvent env addrOf e" using step by (simp_all add: honestStep_def)
  have sys': "sysInv env keyOf hashOf s'" using sysInv_step [OF sys st] .
  have bd: "boundedSet env addrOf hash st'" if "gm_get (sets s) hash = Some st'" for hash st'
    using hold that by (simp add: holdInv_def)
  have "holdInv env addrOf mset (\<lambda>h. heapOk h (length h)) s' \<and> exactDb (cdb s')"
    using st
  proof cases
    case (loop ev inp answer)
    have hon: "honestHtlc env addrOf h" if "ev = NewHtlc h" for h using he loop(1) that by simp
    show ?thesis
      using heap.holdInv_loop [OF hold reg env loop(3) hon loop(4)] exactDb_loop [OF ex bd reg hon loop(4)] by simp
  next
    case (died ev inp res s1 n)
    have hon: "honestHtlc env addrOf h" if "ev = NewHtlc h" for h using he died(1) that by simp
    have "exactDb (cdb s1)" using exactDb_loop [OF ex bd reg hon died(5)] .
    then have "exactDb (cdb s')" by (simp add: died(2) restart_def NewRegistry_def cutCalls_def)
    moreover have "holdInv env addrOf mset (\<lambda>h. heapOk h (length h)) s'" unfolding died(2) by (rule holdInv_restart [OF env])
    ultimately show ?thesis by blast
  next
    case (subscribe sid)
    then show ?thesis using hold ex by (auto intro: holdInv_cong simp: SubscribeAccept_def split: prod.splits)
  next
    case (final f now key settled r db')
    then show ?thesis using hold ex exactDb_final [OF ex final(3)] by (auto intro: holdInv_cong)
  qed
  with sys' show ?thesis by (simp add: heldInv_def)
qed

lemma heldInv_init: "heapOf env = heapOps \<Longrightarrow> heldInv env keyOf hashOf addrOf (NewRegistry env emptyDb)"
  unfolding heldInv_def using heap.inv_empty
  by (intro conjI sysInv_init) (simp_all add: holdInv_def NewRegistry_def newHtlcSets_def exactDb_def emptyDb_def)

lemma honest_inv:
  assumes "honestReach env keyOf hashOf addrOf s" and "heapOf env = heapOps"
  shows "heldInv env keyOf hashOf addrOf s"
  using assms(1) by (induction rule: reach.induct) (use heldInv_init heldInv_step assms(2) in blast)+

text \<open>
  No HTLC is held without a timer. In every reachable state, a complete set has an accept timeout in
  the heap, and in an incomplete set every HTLC has a release event of its own.
\<close>

lemma held_htlc_has_timer:
  assumes "honestReach env keyOf hashOf addrOf s" and "heapOf env = heapOps"
    and "setsGet (sets s) hash = Some st" and "accepted st k"
  shows "if isComplete (crypt env) st \<noteq> None
    then \<exists>t. AcceptTimeoutEvent hash t \<in> set (autoReleaseHeap s)
    else \<exists>t. HtlcReleaseEvent hash t k \<in> set (autoReleaseHeap s)"
proof -
  have "timed env (mset (autoReleaseHeap s)) hash st"
    using honest_inv [OF assms(1,2)] assms(3) by (simp add: heldInv_def holdInv_def setsGet_def)
  moreover have "k \<in> set (gm_keys (htlcs st))"
    using assms(4) gm_keys_none [of k "htlcs st"] by (auto simp: accepted_def)
  ultimately show ?thesis by (auto simp: timed_def split: option.splits)
qed


end
