(* ===== verification/Accept_Events.thy ===== *)
theory Accept_Events
  imports Hold_Timers
begin

text \<open>
  What subscribers learn: every application that is subscribed has been told of every complete set that
  the registry holds, with the id the set has now.
\<close>

definition announceInv :: "'q registryEnv \<Rightarrow> ('r, 'c, 'q) InvoiceRegistry \<Rightarrow> bool" where
  "announceInv env s =
     (\<forall>sid cb hash st setID. gm_get (acceptSubscriptions (subscriptions s)) sid = Some cb \<longrightarrow>
        gm_get (sets s) hash = Some st \<longrightarrow> isComplete (crypt env) st = Some setID \<longrightarrow>
        CallAccept cb hash setID \<in> set (calls s))"

lemma announceInv_mono:
  assumes "announceInv env s" and "set (calls s) \<subseteq> set (calls s')"
    and "\<And>sid cb. gm_get (acceptSubscriptions (subscriptions s')) sid = Some cb \<Longrightarrow>
      gm_get (acceptSubscriptions (subscriptions s)) sid = Some cb"
    and "\<And>hash st setID. gm_get (sets s') hash = Some st \<Longrightarrow> isComplete (crypt env) st = Some setID \<Longrightarrow>
      gm_get (sets s) hash = Some st"
  shows "announceInv env s'"
  using assms unfolding announceInv_def by blast

lemma announced_all:
  "gm_get (acceptSubscriptions (subscriptions s)) sid = Some cb \<Longrightarrow> CallAccept cb (rHash h) setID \<in> set (announced h setID s)"
  by (force simp: announced_def gm_get_def dest: map_of_SomeD)

lemma announceInv_complete:
  assumes inv: "announceInv env s" and c: "isComplete (crypt env) st = Some setID"
    and s': "sets s' = gm_put (rHash h) st (sets s)" "subscriptions s' = subscriptions s" "calls s' = calls s @ announced h setID s"
  shows "announceInv env s'"
  using inv c announced_all [of s _ _ h setID] unfolding announceInv_def s' by (auto split: if_splits)

lemma announceInv_accepted:
  assumes inv: "announceInv env s" and wf: "wf_sets (crypt env) (sets s)" and ad: "admitted env inp h mpp sd s"
    and op: "processAccepted env inp h sd (afterAdd h mpp sd s) (s\<lparr>sets := gm_put (rHash h) (afterAdd h mpp sd s) (sets s)\<rparr>) = (r, s')"
  shows "announceInv env s'"
proof -
  let ?st = "afterAdd h mpp sd s"
  let ?s1 = "s\<lparr>sets := gm_put (rHash h) ?st (sets s)\<rparr>"
  have ws: "wf_set (crypt env) (rHash h) ?st"
    using wf_set_nextSet [OF wf, of sd "rHash h" h mpp] ad by (simp add: admitted_def)
  have get: "gm_get (sets ?s1) (rHash h) = Some ?st" by simp
  have ann: "announced h setID ?s1 = announced h setID s" for setID by (simp add: announced_def)
  have sub: "subscriptions (acceptState env inp h setID ?s1) = subscriptions s" for setID
    by (simp add: acceptState_def startAcceptTimer_def Let_def)
  show ?thesis
    using op get ws
  proof (cases rule: processAccepted_cases)
    case hold
    then show ?thesis
      by (intro announceInv_mono [OF inv]) (auto simp: startHtlcTimer_def split: if_splits)
  next
    case (complete setID)
    then show ?thesis by (intro announceInv_complete [OF inv complete(2)]) (simp_all add: ann sub)
  next
    case (refused setID e db')
    then show ?thesis by (intro announceInv_complete [OF inv refused(2)]) (simp_all add: ann sub)
  next
    case (settled setID db')
    then show ?thesis
      by (intro announceInv_mono [OF inv]) (auto simp: sub split: if_splits)
  qed
qed

lemma announceInv_tick:
  assumes inv: "announceInv env s" and wf: "wf_sets (crypt env) (sets s)"
    and bd: "\<And>hash st. gm_get (sets s) hash = Some st \<Longrightarrow> boundedSet env addrOf hash st"
    and op: "handleTick env s = (r, s')"
  shows "announceInv env s'"
proof -
  obtain head heap' where pop: "pqPop (heapOf env) (autoReleaseHeap s) = (head, heap')" by fastforce
  have wf': "wf_sets (crypt env) (sets (s\<lparr>autoReleaseHeap := heap'\<rparr>))" using wf by simp
  have drop: "isComplete (crypt env) (st\<lparr>htlcs := gm_del k (htlcs st)\<rparr>) = None"
    if "gm_get (sets s) hash = Some st" "isComplete (crypt env) st = None" for hash st k
    using incomplete_drop [OF bd [OF that(1)] that(2)] .
  show ?thesis
    using op pop
    by (cases head; intro announceInv_mono [OF inv])
      (auto simp: handleTick_def cancelSingleHtlc_eq [OF wf'] failInvoice_eq [OF wf'] notifyHodlSubscribers_eq
        droppedSets_get drop split: option.splits if_splits)
qed

lemma announceInv_subscribe:
  fixes s :: "('r, 'c, 'q) InvoiceRegistry"
  assumes "announceInv env s" and wf: "wf_sets (crypt env) (sets s)"
  shows "announceInv env (addAcceptSubscriber env sid cb s)"
proof -
  have "CallAccept cb hash setID \<in> set (acceptCalls env cb (sets s) :: ('r, 'c) call list)"
    if "gm_get (sets s) hash = Some st" "isComplete (crypt env) st = Some setID" for hash st setID
  proof -
    have "setHash (crypt env) st = hash" using wf that(1) by (auto simp: wf_set_def dest: wf_setsD)
    moreover have "(hash, st) \<in> set (sets s)" using that(1) by (auto simp: gm_get_def dest: map_of_SomeD)
    ultimately show ?thesis using that(2) by (force simp: acceptCalls_def)
  qed
  with assms(1) show ?thesis
    by (auto simp: announceInv_def addAcceptSubscriber_eq addAcceptSubscription_def split: if_splits)
qed

lemma announceInv_loop:
  assumes inv: "announceInv env s" and reg: "regInv (crypt env) keyOf hashOf s"
    and bd: "\<And>hash st. gm_get (sets s) hash = Some st \<Longrightarrow> boundedSet env addrOf hash st"
    and op: "invoiceEventLoop_step env inp ev s = (a, s')"
  shows "announceInv env s'"
proof -
  have wf: "wf_sets (crypt env) (sets s)" and dbi: "db_inv (crypt env) (cdb s)"
    using reg memInv_wf by (auto simp: regInv_def storeInv_def)
  show ?thesis
    using op
  proof (cases rule: loop_cases)
    case (tick now q)
    with announceInv_tick [OF inv wf bd] show ?thesis by blast
  next
    case (htlc h q)
    from htlc(2) dbi show ?thesis
    proof (cases rule: process_cases)
      case (accept mpp sd)
      with announceInv_accepted [OF inv wf] show ?thesis by blast
    qed (auto intro!: announceInv_mono [OF inv] simp: callResolve_def)
  next
    case (subscribe sid cb)
    with announceInv_subscribe [OF inv wf] show ?thesis by simp
  next
    case (unsubscribe sid)
    then show ?thesis by (intro announceInv_mono [OF inv]) (auto simp: deleteAcceptSubscription_def split: if_splits)
  next
    case (settle hash setID q)
    from settle(2) wf show ?thesis
      by (cases rule: handleSettleRequest_cases) (use inv in \<open>auto intro!: announceInv_mono [OF inv] split: if_splits\<close>)
  next
    case (cancel hash setID q)
    from cancel(2) wf show ?thesis
      by (cases rule: handleCancelRequest_cases) (use inv in \<open>auto intro!: announceInv_mono [OF inv] split: if_splits\<close>)
  qed (use inv in simp)
qed

lemma announceInv_step:
  assumes inv: "announceInv env s" and held: "heldInv env keyOf hashOf addrOf s" and st: "honestStep env keyOf hashOf addrOf s e s'"
  shows "announceInv env s'"
proof -
  have reg: "regInv (crypt env) keyOf hashOf s" using held by (simp add: heldInv_def sysInv_def)
  have bd: "boundedSet env addrOf hash st'" if "gm_get (sets s) hash = Some st'" for hash st'
    using held that by (simp add: heldInv_def holdInv_def)
  have "sysStep env keyOf hashOf s e s'" using st by (simp add: honestStep_def)
  then show ?thesis
  proof cases
    case (loop ev inp answer)
    with announceInv_loop [OF inv reg bd] show ?thesis by blast
  next
    case (died ev inp res s1 n)
    then show ?thesis by (simp add: announceInv_def restart_def NewRegistry_def newHtlcSets_def)
  next
    case (subscribe sid)
    then show ?thesis
      by (intro announceInv_mono [OF inv]) (auto simp: SubscribeAccept_def generateSubscriptionId_def)
  next
    case (final f now key settled r db')
    then show ?thesis by (intro announceInv_mono [OF inv]) auto
  qed
qed


end
