(* ===== verification/Registry_Example.thy ===== *)
theory Registry_Example
  imports Registry_Requests Accept_Events
begin

text \<open>
  A second concrete run, with an application that decides: an invoice of 500 msat is paid by two HTLCs of
  300 and 200 msat, the complete set is announced to the subscriber, and it is settled, or cancelled
  and followed by a new attempt to pay. The last one ends in a panic. The configuration is the one
  that \<open>run.go\<close> passes to the registry: a hold duration of 30 seconds and an accept timeout of 60.
\<close>

definition manEnv :: "releaseEvent list registryEnv" where
  "manEnv = exEnv\<lparr>cfg := exCfg\<lparr>AutoSettle := False\<rparr>\<rparr>"

definition manHtlc :: "u64 \<Rightarrow> u64 \<Rightarrow> HtlcKey registryHtlc" where
  "manHtlc n amt = (exHtlc n)\<lparr>amtPaid := amt\<rparr>"

definition at :: "time \<Rightarrow> inputs" where
  "at t = \<lparr>nowExpiry = t, nowSubscribers = t, nowHold = t, nowAccept = t, nowRemoved = t, nowSettle = t,
     getFaults = noFaults, settleFaults = noFaults\<rparr>"

definition manSet :: "(HtlcKey, u64) gomap \<Rightarrow> htlcSetImpl" where
  "manSet l = \<lparr>params = \<lparr>setPreimage = exPreimage, setValue = 500, setPaymentAddr = exAddr\<rparr>, htlcs = l\<rparr>"

definition manSubs :: "nat subscriptionManager" where
  "manSubs = \<lparr>acceptSubscriptions = [(1, 7)], nextSubscriberId = 0, lastSubscriberRemovedAt = zeroTime,
     gracePeriodWithoutSubscribers = DefaultGracePeriodWithoutSubscribers\<rparr>"

definition manSetID :: bytes where
  "manSetID = newSetID (sha256 goCrypto) [exKey 1, exKey 2]"

definition evA :: releaseEvent where
  "evA = HtlcReleaseEvent exHash (30 * second) (exKey 1)"

definition evB :: releaseEvent where
  "evB = AcceptTimeoutEvent exHash (61 * second)"

definition evC :: releaseEvent where
  "evC = HtlcReleaseEvent exHash (33 * second) (exKey 3)"

definition manState ::
    "(HtlcKey, u64) gomap option \<Rightarrow> releaseEvent list \<Rightarrow> (HtlcKey, nat) call list \<Rightarrow> (HtlcKey, nat, releaseEvent list) InvoiceRegistry" where
  "manState l heap cs =
     \<lparr>cdb = emptyDb, hodlSubscriptions = (case l of None \<Rightarrow> [] | Some m \<Rightarrow> map (\<lambda>(k, a). (k, [k])) m),
      sets = (case l of None \<Rightarrow> [] | Some m \<Rightarrow> [(exHash, manSet m)]),
      autoReleaseHeap = heap, subscriptions = manSubs, calls = cs\<rparr>"

definition man1 :: "(HtlcKey, nat, releaseEvent list) InvoiceRegistry" where
  "man1 = manState None [] []"

definition man2 :: "(HtlcKey, nat, releaseEvent list) InvoiceRegistry" where
  "man2 = manState (Some [(exKey 1, 300)]) [evA] []"

definition man3 :: "(HtlcKey, nat, releaseEvent list) InvoiceRegistry" where
  "man3 = manState (Some [(exKey 1, 300), (exKey 2, 200)]) [evA, evB] [CallAccept 7 exHash manSetID]"

abbreviation cancelled :: "(HtlcKey, nat) call list" where
  "cancelled \<equiv> [CallAccept 7 exHash manSetID, CallResolve (exKey 1) (HtlcFailResolution ResultInvoiceNotOpen),
     CallResolve (exKey 2) (HtlcFailResolution ResultInvoiceNotOpen)]"

definition man4 :: "(HtlcKey, nat, releaseEvent list) InvoiceRegistry" where
  "man4 = manState None [evA, evB] cancelled"

definition man5 :: "(HtlcKey, nat, releaseEvent list) InvoiceRegistry" where
  "man5 = manState (Some [(exKey 3, 300)]) [evA, evB, evC] cancelled"

lemmas manDefs = manEnv_def exEnv_def exCfg_def manHtlc_def exHtlc_def exHtlcFor_def at_def manState_def manSubs_def

lemma man_fold: "preimageHash goCrypto exPreimage = exHash" "sha256 goCrypto = sha256 (crypt manEnv)" "crypt manEnv = goCrypto"
  by (simp_all add: exHash_def manEnv_def exEnv_def)

lemma man_event: "getReleaseTime evA = 30 * second" "getReleaseTime evB = 61 * second" "getReleaseTime evC = 33 * second"
  by (simp_all add: evA_def evB_def evC_def getReleaseTime_def)

lemma man_push:
  "heapPush evA [] = [evA]" "heapPush evB [evA] = [evA, evB]" "heapPush evC [evA, evB] = [evA, evB, evC]"
  by (simp_all add: heapPush_def heapUp_stop eventLess_def man_event)

lemma man_pop: "heapPop [evA, evB, evC] = (evA, [evC, evB])"
  by (simp add: heapPop_def swap_def heapDown_stop minChild_def eventLess_def man_event Let_def)

lemma man_keys [simp]: "exKey m = exKey n \<longleftrightarrow> m = n"
  by (simp add: exKey_def)

lemmas process_unfold = process_def resolveViaDb_def Get_def runInTransaction_def findInvoice_def emptyDb_def
  exDecode man_fold(1) processOpen_def setsGet_def Let_def setsAdd_def newHtlcSetImpl_def addHtlc_def accepted_def
  processAccepted_def isComplete_def totalSetAmt_def hodlSubscribe_def startHtlcTimer_def startAcceptTimer_def
  notifySubscribers_def hasRecentSubscribers_def callAccept_def gm_put_def gm_get_def gm_keys_def

lemma man_step1: "invoiceEventLoop_step manEnv (at 0) (NewSubscription 1 7) (NewRegistry manEnv emptyDb) = (Continue None, man1)"
  by (simp add: addAcceptSubscriber_def setsForEach_def NewRegistry_def newHtlcSets_def man1_def manDefs heapOps_def
      newSubscriptionManager_def addAcceptSubscription_def gm_put_def Let_def)

lemma man_step2: "invoiceEventLoop_step manEnv (at 0) (NewHtlc (manHtlc 1 300)) man1 = (Continue None, man2)"
  by (simp add: man1_def man2_def manDefs process_unfold heapOps_def man_push(1) manSet_def flip: evA_def [simplified])

lemma man_step3: "invoiceEventLoop_step manEnv (at second) (NewHtlc (manHtlc 2 200)) man2 = (Continue None, man3)"
  by (simp add: man2_def man3_def manDefs process_unfold heapOps_def man_push(2) manSet_def manSetID_def flip: evB_def [simplified])

lemma man_step4: "invoiceEventLoop_step manEnv (at (2 * second)) (CancelReq exHash manSetID) man3 = (Continue (Some None), man4)"
  by (simp add: man3_def man4_def manDefs handleCancelRequest_def getAcceptedSet_def setsGet_def gm_get_def isComplete_def
      totalSetAmt_def manSet_def manSetID_def gm_keys_def resolveAll_def deleteAll_def setsDelete_def setHash_def man_fold(1)
      notifyHodlSubscribers_def callResolve_def gm_del_def Let_def)

lemma man_step5: "invoiceEventLoop_step manEnv (at (3 * second)) (NewHtlc (manHtlc 3 300)) man4 = (Continue None, man5)"
  by (simp add: man4_def man5_def manDefs process_unfold heapOps_def man_push(3) manSet_def flip: evC_def [simplified])

section \<open>Reachability\<close>

lemma manWf: "wfHtlc id exHashOf (manHtlc n a)"
  by (simp add: wfHtlc_def manHtlc_def exHtlc_def exHtlcFor_def)

abbreviation exAddrOf :: "hash \<Rightarrow> bytes" where
  "exAddrOf \<equiv> \<lambda>_. exAddr"

lemma manHonest: "unat a < 2 ^ 63 \<Longrightarrow> honestHtlc manEnv exAddrOf (manHtlc n a)"
  by (auto simp: honestHtlc_def manHtlc_def exHtlc_def exHtlcFor_def manEnv_def exEnv_def exCfg_def exDecode)

lemma man_loop:
  assumes "honestReach manEnv id exHashOf exAddrOf s" and "invoiceEventLoop_step manEnv inp ev s = (Continue a, s')"
    and "wfEvent id exHashOf ev" and "canReceive manEnv ev s" and "honestEvent manEnv exAddrOf (SysLoop ev a)"
  shows "honestReach manEnv id exHashOf exAddrOf s'"
  by (rule reach_step [where step = "honestStep manEnv id exHashOf exAddrOf", OF assms(1)])
    (unfold honestStep_def, rule conjI [OF sysStep.loop [OF assms(3,4,2)] assms(5)])

lemma man_honest:
  "honestReach manEnv id exHashOf exAddrOf man1" "honestReach manEnv id exHashOf exAddrOf man2"
  "honestReach manEnv id exHashOf exAddrOf man3" "honestReach manEnv id exHashOf exAddrOf man4"
  "honestReach manEnv id exHashOf exAddrOf man5"
proof -
  have "honestReach manEnv id exHashOf exAddrOf (NewRegistry manEnv emptyDb :: (HtlcKey, nat, releaseEvent list) InvoiceRegistry)"
    by (simp add: reach_init)
  from man_loop [OF this man_step1] show 1: "honestReach manEnv id exHashOf exAddrOf man1" by (simp add: canReceive_def)
  from man_loop [OF 1 man_step2] show 2: "honestReach manEnv id exHashOf exAddrOf man2" by (simp add: canReceive_def manWf manHonest)
  from man_loop [OF 2 man_step3] show 3: "honestReach manEnv id exHashOf exAddrOf man3" by (simp add: canReceive_def manWf manHonest)
  from man_loop [OF 3 man_step4] show 4: "honestReach manEnv id exHashOf exAddrOf man4" by (simp add: canReceive_def)
  from man_loop [OF 4 man_step5] show "honestReach manEnv id exHashOf exAddrOf man5" by (simp add: canReceive_def manWf manHonest)
qed

lemmas man_reach = man_honest [THEN honest_sys]

lemma man_stale: "staleRelease manEnv man5"
  by (simp add: staleRelease_def man5_def manDefs heapOps_def man_pop [unfolded evA_def, simplified] evA_def setsGet_def gm_get_def isComplete_def
      totalSetAmt_def manSet_def accepted_def)

lemma man_tick: "canReceive manEnv (ReleaseTick (30 * second)) man5"
  by (simp add: canReceive_def man5_def manDefs heapOps_def man_event)

text \<open>
  C13: the panic is reachable in six steps from the start: an HTLC that pays a part of an invoice arrives
  and starts its timer, a second one completes the set, the application cancels it, a third HTLC pays
  a part of the same invoice again, and when the first timer fires the registry panics with
  \<open>htlc not found\<close>.
\<close>

theorem stale_timer_panics:
  "\<exists>s. sysReach manEnv id exHashOf (s :: (HtlcKey, nat, releaseEvent list) InvoiceRegistry) \<and>
     canReceive manEnv (ReleaseTick (30 * second)) s \<and>
     (\<forall>inp. fst (invoiceEventLoop_step manEnv inp (ReleaseTick (30 * second)) s) = Crash ''htlc not found'')"
proof -
  have "handleTick manEnv man5 = (Panic ''htlc not found'', man5\<lparr>autoReleaseHeap := [evC, evB]\<rparr>)"
    by (simp add: handleTick_def man5_def manDefs heapOps_def man_pop [unfolded evA_def, simplified] evA_def cancelSingleHtlc_def setsGet_def gm_get_def
        isComplete_def totalSetAmt_def manSet_def deleteHtlc_def)
  then show ?thesis using man_reach(5) man_tick by (intro exI [of _ man5]) simp
qed

section \<open>The theorems at this run\<close>

lemma man3_set: "setsGet (sets man3) exHash = Some (manSet [(exKey 1, 300), (exKey 2, 200)])"
  "isComplete (crypt manEnv) (manSet [(exKey 1, 300), (exKey 2, 200)]) = Some manSetID"
  "storable (manSet [(exKey 1, 300), (exKey 2, 200)])" "\<not> AutoSettle (cfg manEnv)" "settleFaults (at t) = noFaults"
  "getFaults (at t) = noFaults"
  using ex_lengths
  by (simp_all add: man3_def manDefs setsGet_def gm_get_def isComplete_def totalSetAmt_def manSet_def manSetID_def
      gm_keys_def storable_def exKey_def)


lemma man_settles: "\<exists>s'. handleSettleRequest manEnv (at 5) exHash manSetID man3 = (Ok None, s')"
proof -
  have inv: "regInv (crypt manEnv) id exHashOf man3" using system.reach_inv [OF man_reach(3)] by (simp add: sysInv_def)
  have st: "gm_get (sets man3) exHash = Some (manSet [(exKey 1, 300), (exKey 2, 200)])"
    using man3_set(1) by (simp add: setsGet_def)
  show ?thesis
    using handleSettleRequest_stored [OF inv st man3_set(2,3) ex_lengths(2) man3_set(4,5), of 5] by blast
qed

theorem loop_panics_iff_stale_release_witness:
  "\<exists>m. fst (invoiceEventLoop_step manEnv (at 0) (ReleaseTick 0) man5) = Crash m"
  using loop_panics_iff_stale_release [OF man_reach(5)] man_stale by blast

lemma man_env: "heapOf manEnv = heapOps"
  by (simp add: manEnv_def exEnv_def)



end
