(* ===== verification/Timer_Drain.thy ===== *)
theory Timer_Drain
  imports Registry_Example
begin

text \<open>
  The timers of the registry run out: while no HTLC arrives, only finitely many release ticks can fire,
  and when the last one has fired the registry holds nothing.
\<close>

definition isTick :: "('r, 'c) sysEvent \<Rightarrow> bool" where
  "isTick e = (case e of SysLoop (ReleaseTick _) _ \<Rightarrow> True | _ \<Rightarrow> False)"

lemma handleTick_heap:
  assumes "wf_sets (crypt env) (sets s)"
  shows "autoReleaseHeap (snd (handleTick env s)) = snd (pqPop (heapOf env) (autoReleaseHeap s))"
proof -
  obtain head heap' where pop: "pqPop (heapOf env) (autoReleaseHeap s) = (head, heap')" by fastforce
  have wf: "wf_sets (crypt env) (sets (s\<lparr>autoReleaseHeap := heap'\<rparr>))" using assms by simp
  show ?thesis
    by (cases head) (simp_all add: handleTick_def pop cancelSingleHtlc_eq [OF wf] failInvoice_eq [OF wf] notifyHodlSubscribers_eq
        split: option.splits)
qed

lemma tick_step:
  assumes inv: "heldInv env keyOf hashOf addrOf s" and env: "heapOf env = heapOps"
    and step: "sysStep env keyOf hashOf s e t" and tick: "isTick e"
  shows "length (autoReleaseHeap s) = Suc (length (autoReleaseHeap t))"
proof -
  from tick obtain now a where e: "e = SysLoop (ReleaseTick now) a"
    by (auto simp: isTick_def split: sysEvent.splits event.splits)
  from step [unfolded e] obtain inp where can: "canReceive env (ReleaseTick now) s"
    and op: "invoiceEventLoop_step env inp (ReleaseTick now) s = (Continue a, t)" by (rule sysStep_loopE) blast
  then have t: "t = snd (handleTick env s)" by (auto split: prod.splits outcome.splits)
  have "wf_sets (crypt env) (sets s)" using inv memInv_wf by (auto simp: heldInv_def sysInv_def regInv_def)
  with t env have heap: "autoReleaseHeap t = snd (heapPop (autoReleaseHeap s))" by (simp add: handleTick_heap heapOps_def)
  have "heapOk (autoReleaseHeap s) (length (autoReleaseHeap s))" using inv by (simp add: heldInv_def holdInv_def)
  moreover have "autoReleaseHeap s \<noteq> []" using can env by (simp add: canReceive_def heapOps_def)
  ultimately have "size (mset (autoReleaseHeap s)) = Suc (size (mset (autoReleaseHeap t)))"
    using heapPop_ok(3) heap by (metis size_add_mset)
  then show ?thesis by simp
qed

lemma no_timer_no_htlc:
  assumes "heldInv env keyOf hashOf addrOf s" and "autoReleaseHeap s = []"
  shows "sets s = []" and "subsOf s k = []"
proof -
  have mem: "memInv (crypt env) keyOf hashOf s" using assms(1) by (simp add: heldInv_def sysInv_def regInv_def)
  have "gm_get (sets s) hash = None" for hash
  proof (cases "gm_get (sets s) hash")
    case (Some st)
    with assms have "timed env {#} hash st" by (auto simp: heldInv_def holdInv_def)
    moreover have "gm_keys (htlcs st) \<noteq> []" using memInv_wf [OF mem] Some by (auto simp: wf_sets_def wf_set_def gm_keys_def)
    then obtain k where "k \<in> set (gm_keys (htlcs st))" by (meson last_in_set)
    ultimately show ?thesis by (auto simp: timed_def split: option.splits)
  qed simp
  then show sets: "sets s = []" by (simp add: gm_empty_iff)
  show "subsOf s k = []" using memInv_held [OF mem, of k] by (auto simp: heldIn_def keysOf_def sets)
qed


text \<open>At the example of \<open>Registry_Example\<close>: one HTLC is held and its timer fires.\<close>

lemma man2_tick: "\<exists>u. honestStep manEnv id exHashOf exAddrOf man2 (SysLoop (ReleaseTick (30 * second)) None) u"
proof -
  have heap: "autoReleaseHeap man2 = [evA]" by (simp add: man2_def manState_def)
  have pop: "pqPop (heapOf manEnv) (autoReleaseHeap man2) = (evA, [])"
    by (simp add: man_env heapOps_def heap heapPop_def swap_def heapDown_stop)
  have can: "canReceive manEnv (ReleaseTick (30 * second)) man2"
    using man_event by (simp add: canReceive_def man_env heapOps_def heap)
  have wf: "wf_sets (crypt manEnv) (sets (man2\<lparr>autoReleaseHeap := []\<rparr>))"
    using system.reach_inv [OF man_reach(2)] memInv_wf by (auto simp: sysInv_def regInv_def)
  have "setsGet (sets man2) exHash = Some (manSet [(exKey 1, 300)])" "isComplete (crypt manEnv) (manSet [(exKey 1, 300)]) = None"
    "exKey 1 \<in> set (gm_keys (htlcs (manSet [(exKey 1, 300)])))"
    by (simp_all add: man2_def manState_def setsGet_def gm_get_def manSet_def isComplete_def totalSetAmt_def gm_keys_def)
  then obtain u where "handleTick manEnv man2 = (Ok (), u)"
    by (simp add: handleTick_def pop evA_def cancelSingleHtlc_eq [OF wf] setsGet_def)
  then have "invoiceEventLoop_step manEnv (at 0) (ReleaseTick (30 * second)) man2 = (Continue None, u)" by simp
  with can have "sysStep manEnv id exHashOf man2 (SysLoop (ReleaseTick (30 * second)) None) u"
    by (intro sysStep.loop [of id exHashOf _ manEnv man2 "at 0"]) simp_all
  then show ?thesis by (auto simp: honestStep_def)
qed


end
