(* ===== verification/Registry_Api.thy ===== *)
theory Registry_Api
  imports Settlement_Example
begin

text \<open>
  How other goroutines call the registry (\<open>RequestSettle\<close>, \<open>CancelInvoice\<close>, \<open>NotifyExitHopHtlc\<close>,
  \<open>SubscribeAccept\<close> of \<open>invoiceregistry.go\<close>) and how \<open>Run\<close> ends. The channels have no buffer: a call
  first waits until the event loop receives it, and a settle or cancel call then waits for the
  answer; both waits also end when \<open>quit\<close> is closed.
\<close>

section \<open>Calls\<close>

datatype ('r, 'c) request =
    SettleCall hash bytes
  | CancelCall hash bytes
  | NotifyCall "'r registryHtlc"
  | SubscribeCall u64 'c
  | UnsubscribeCall u64

fun requestEvent :: "('r, 'c) request \<Rightarrow> ('r, 'c) event" where
  "requestEvent (SettleCall hash setID) = SettleReq hash setID"
| "requestEvent (CancelCall hash setID) = CancelReq hash setID"
| "requestEvent (NotifyCall h) = NewHtlc h"
| "requestEvent (SubscribeCall sid cb) = NewSubscription sid cb"
| "requestEvent (UnsubscribeCall sid) = CancelSubscription sid"

fun waitsForAnswer :: "('r, 'c) request \<Rightarrow> bool" where
  "waitsForAnswer (SettleCall _ _) = True"
| "waitsForAnswer (CancelCall _ _) = True"
| "waitsForAnswer _ = False"

text \<open>What a call returns when it finds \<open>quit\<close> closed. \<open>NotifyExitHopHtlc\<close> and unsubscribing return nothing.\<close>

fun shutdownAnswer :: "('r, 'c) request \<Rightarrow> (apiError, unit) outcome" where
  "shutdownAnswer (NotifyCall _) = Ok ()"
| "shutdownAnswer (UnsubscribeCall _) = Ok ()"
| "shutdownAnswer _ = Err ErrShuttingDown"

datatype callPhase = Sending | Awaiting | Answered "(apiError, unit) outcome"

definition pending :: "callPhase \<Rightarrow> bool" where
  "pending ph = (ph = Sending \<or> ph = Awaiting)"

definition answerOf :: "('r, 'c) request \<Rightarrow> loopResult \<Rightarrow> callPhase" where
  "answerOf req r =
     (if \<not> waitsForAnswer req then Answered (Ok ())
      else case r of Continue a \<Rightarrow> Answered (awaitAnswer True a) | _ \<Rightarrow> Awaiting)"

section \<open>The end of the event loop\<close>

text \<open>
  \<open>Run\<close> after the event loop returned: the error it returns, and whether it closed \<open>quit\<close>.
\<close>

definition registryRun :: "registryError option \<Rightarrow> registryError option \<times> bool" where
  "registryRun result =
     (case result of
        Some e \<Rightarrow> if e \<noteq> RegistryCanceled then (Some e, False) else (None, True)
      | None \<Rightarrow> (None, True))"

record ('r, 'c, 'q) apiSystem =
  apiReg :: "('r, 'c, 'q) InvoiceRegistry"
  apiRunning :: bool
  apiQuit :: bool
  apiCalls :: "(nat, ('r, 'c) request \<times> callPhase) gomap"

definition afterStep :: "loopResult \<Rightarrow> ('r, 'c, 'q) apiSystem \<Rightarrow> ('r, 'c, 'q) apiSystem" where
  "afterStep r s =
     (case r of
        Return e \<Rightarrow> s\<lparr>apiRunning := False, apiQuit := snd (registryRun e)\<rparr>
      | _ \<Rightarrow> s)"

text \<open>
  The steps of the callers and of the loop, in any order. A panic ends the process, so it has no step.
\<close>

inductive apiStep :: "'q registryEnv \<Rightarrow> ('r, 'c, 'q) apiSystem \<Rightarrow> unit \<Rightarrow> ('r, 'c, 'q) apiSystem \<Rightarrow> bool" for env where
  invoke: "gm_get (apiCalls s) n = None \<Longrightarrow>
     apiStep env s () (s\<lparr>apiCalls := gm_put n (req, Sending) (apiCalls s)\<rparr>)"
| receive: "apiRunning s \<Longrightarrow> gm_get (apiCalls s) n = Some (req, Sending) \<Longrightarrow>
     invoiceEventLoop_step env inp (requestEvent req) (apiReg s) = (r, reg) \<Longrightarrow> (\<And>m. r \<noteq> Crash m) \<Longrightarrow>
     apiStep env s () (afterStep r (s\<lparr>apiReg := reg, apiCalls := gm_put n (req, answerOf req r) (apiCalls s)\<rparr>))"
| tick: "apiRunning s \<Longrightarrow> canReceive env (ReleaseTick now) (apiReg s) \<Longrightarrow>
     invoiceEventLoop_step env inp (ReleaseTick now) (apiReg s) = (r, reg) \<Longrightarrow> (\<And>m. r \<noteq> Crash m) \<Longrightarrow>
     apiStep env s () (afterStep r (s\<lparr>apiReg := reg\<rparr>))"
| cancelled: "apiRunning s \<Longrightarrow> invoiceEventLoop_step env inp ContextDone (apiReg s) = (r, reg) \<Longrightarrow>
     apiStep env s () (afterStep r (s\<lparr>apiReg := reg\<rparr>))"
| shutdown: "apiQuit s \<Longrightarrow> gm_get (apiCalls s) n = Some (req, ph) \<Longrightarrow> pending ph \<Longrightarrow>
     apiStep env s () (s\<lparr>apiCalls := gm_put n (req, Answered (shutdownAnswer req)) (apiCalls s)\<rparr>)"

section \<open>Properties\<close>

text \<open>Once the loop has ended without closing \<open>quit\<close>, no call that is waiting goes on.\<close>

definition stuck :: "('r, 'c, 'q) apiSystem \<Rightarrow> bool" where
  "stuck s = (\<not> apiRunning s \<and> \<not> apiQuit s)"

lemma stuck_step:
  assumes "apiStep env s e t" and "stuck s"
  shows "stuck t \<and> (gm_get (apiCalls s) n = Some c \<longrightarrow> gm_get (apiCalls t) n = Some c)"
  using assms by (cases rule: apiStep.cases) (auto simp: stuck_def)

lemma stuck_run:
  assumes "run (apiStep env) s es t" and "stuck s"
  shows "stuck t \<and> (gm_get (apiCalls s) n = Some c \<longrightarrow> gm_get (apiCalls t) n = Some c)"
  using assms
proof (induction rule: run.induct)
  case (run_snoc s es t e u)
  then show ?case using stuck_step [OF run_snoc.hyps(2)] by blast
qed simp

lemma quit_answers:
  assumes "apiQuit s" and "gm_get (apiCalls s) n = Some (req, ph)" and "pending ph"
  shows "\<exists>t. apiStep env s () t \<and> gm_get (apiCalls t) n = Some (req, Answered (shutdownAnswer req))"
  using apiStep.shutdown [OF assms, of env] by force

text \<open>
  A call to the registry that has not returned can still return if and only if the event loop runs
  or \<open>quit\<close> is closed. In particular a cancelled context lets every caller return.
\<close>

lemma call_returns_iff:
  assumes "gm_get (apiCalls s) n = Some (req, ph)" and "pending ph"
  shows "(\<exists>es t a. run (apiStep env) s es t \<and> gm_get (apiCalls t) n = Some (req, Answered a)) \<longleftrightarrow>
    apiRunning s \<or> apiQuit s"
proof
  assume "\<exists>es t a. run (apiStep env) s es t \<and> gm_get (apiCalls t) n = Some (req, Answered a)"
  then show "apiRunning s \<or> apiQuit s"
    using stuck_run [of env s _ _ n "(req, ph)"] assms by (fastforce simp: stuck_def pending_def)
next
  assume "apiRunning s \<or> apiQuit s"
  moreover have "\<exists>es t a. run (apiStep env) s es t \<and> gm_get (apiCalls t) n = Some (req, Answered a)" if "apiQuit s"
    using quit_answers [OF that assms] run_snoc [OF run_nil, where step = "apiStep env"] by blast
  moreover have "\<exists>es t a. run (apiStep env) s es t \<and> gm_get (apiCalls t) n = Some (req, Answered a)" if "apiRunning s"
  proof -
    let ?u = "s\<lparr>apiRunning := False, apiQuit := True\<rparr>"
    have "apiStep env s () ?u"
      using apiStep.cancelled [OF that, of env undefined "Return (Some RegistryCanceled)" "apiReg s"]
      by (simp add: afterStep_def registryRun_def)
    moreover obtain t where "apiStep env ?u () t" "gm_get (apiCalls t) n = Some (req, Answered (shutdownAnswer req))"
      using quit_answers [of ?u n req ph env] assms by auto
    ultimately have "run (apiStep env) s (([] @ [()]) @ [()]) t"
      using run_snoc [OF run_snoc [where step = "apiStep env", OF run_nil]] by blast
    with \<open>gm_get (apiCalls t) n = _\<close> show ?thesis by blast
  qed
  ultimately show "\<exists>es t a. run (apiStep env) s es t \<and> gm_get (apiCalls t) n = Some (req, Answered a)" by blast
qed

text \<open>
  C25: an error of the database ends the event loop without closing \<open>quit\<close>. The call whose request failed and
  every other call that is waiting at that moment, such as a multiplexer in \<open>NotifyExitHopHtlc\<close>, then
  waits for ever, also after the context is cancelled.
\<close>

theorem loop_error_hangs_callers:
  assumes "apiRunning s" and "gm_get (apiCalls s) n = Some (SettleCall hash setID, Sending)"
    and "invoiceEventLoop_step env inp (SettleReq hash setID) (apiReg s) = (Return (Some e), reg)"
    and "e \<noteq> RegistryCanceled"
  shows "\<exists>t. apiStep env s () t \<and> gm_get (apiCalls t) n = Some (SettleCall hash setID, Awaiting) \<and>
    (\<forall>es u k req ph. run (apiStep env) t es u \<and> gm_get (apiCalls t) k = Some (req, ph) \<and> pending ph \<longrightarrow>
       gm_get (apiCalls u) k = Some (req, ph))"
proof -
  let ?t = "afterStep (Return (Some e)) (s\<lparr>apiReg := reg, apiCalls := gm_put n (SettleCall hash setID, Awaiting) (apiCalls s)\<rparr>)"
  have "apiStep env s () ?t"
    using apiStep.receive [OF assms(1,2), of env inp "Return (Some e)" reg] assms(3) by (simp add: answerOf_def)
  moreover have "stuck ?t" using assms(4) by (simp add: afterStep_def registryRun_def stuck_def)
  moreover have "gm_get (apiCalls ?t) n = Some (SettleCall hash setID, Awaiting)" by (simp add: afterStep_def)
  ultimately show ?thesis using stuck_run [of env ?t] by blast
qed

section \<open>An example\<close>

text \<open>A settle request meets a failing database while a second caller, a multiplexer, is waiting.\<close>

definition downInputs :: inputs where
  "downInputs = \<lparr>nowExpiry = 0, nowSubscribers = 0, nowHold = 0, nowAccept = 0, nowRemoved = 0, nowSettle = 0,
     getFaults = (\<lambda>_. True), settleFaults = (\<lambda>_. True)\<rparr>"

definition demoApi :: "(HtlcKey, nat, releaseEvent list) apiSystem" where
  "demoApi = \<lparr>apiReg = NewRegistry exEnv emptyDb, apiRunning = True, apiQuit = False,
     apiCalls = [(0, SettleCall [] [], Sending), (1, UnsubscribeCall 1, Sending)]\<rparr>"

theorem loop_error_hangs_callers_witness:
  "\<exists>t. apiStep exEnv demoApi () t \<and>
    (\<forall>es u. run (apiStep exEnv) t es u \<longrightarrow> gm_get (apiCalls u) 0 = Some (SettleCall [] [], Awaiting))"
proof -
  have loop: "invoiceEventLoop_step exEnv downInputs (SettleReq [] []) (apiReg demoApi) =
      (Return (Some (RegistryDb (ErrDb TxBegin))), apiReg demoApi)"
    by (simp add: handleSettleRequest_def getAcceptedSet_def demoApi_def NewRegistry_def newHtlcSets_def setsGet_def
        Get_def runInTransaction_def downInputs_def)
  have run: "apiRunning demoApi" by (simp add: demoApi_def)
  have call: "gm_get (apiCalls demoApi) 0 = Some (SettleCall [] [], Sending)" by (simp add: demoApi_def)
  obtain t where step: "apiStep exEnv demoApi () t" and t: "gm_get (apiCalls t) 0 = Some (SettleCall [] [], Awaiting)"
    and hang: "\<forall>es u k req ph. run (apiStep exEnv) t es u \<and> gm_get (apiCalls t) k = Some (req, ph) \<and> pending ph \<longrightarrow>
       gm_get (apiCalls u) k = Some (req, ph)"
    using loop_error_hangs_callers [OF run call loop] by blast
  have "pending Awaiting" by (simp add: pending_def)
  with step t hang show ?thesis by blast
qed

end
