(* ===== verification/Bounded_Channel.thy ===== *)
theory Bounded_Channel
  imports Prelude
begin

text \<open>
  A buffered Go channel between a producer that must not block and a loop that empties it onto a stream:
  the interceptor's replies and the accept events of an rpc subscriber have this form. A send that
  finds the buffer full closes the channel. The contract is a locale; the two components interpret it.
\<close>

datatype 'a chanOp = Push 'a | Take

text \<open>A schedule of sends and receives: what was accepted, in order, and the state at the end.\<close>

fun chanRun :: "('a \<Rightarrow> 's \<Rightarrow> bool \<times> 's) \<Rightarrow> ('s \<Rightarrow> 's) \<Rightarrow> 'a chanOp list \<Rightarrow> 's \<Rightarrow> 'a list \<times> 's" where
  "chanRun push pull [] s = ([], s)"
| "chanRun push pull (Push a # ops) s =
     (let (ok, s') = push a s; (acc, s'') = chanRun push pull ops s' in (if ok then a # acc else acc, s''))"
| "chanRun push pull (Take # ops) s = chanRun push pull ops (pull s)"

locale bounded_channel =
  fixes cap :: nat and push :: "'a \<Rightarrow> 's \<Rightarrow> bool \<times> 's" and pull :: "'s \<Rightarrow> 's" and queue :: "'s \<Rightarrow> 'a list"
    and closed :: "'s \<Rightarrow> bool" and delivered :: "'s \<Rightarrow> 'b list" and toMsg :: "'a \<Rightarrow> 'b"
  assumes push_ok: "push a s = (True, s') \<Longrightarrow>
      queue s' = queue s @ [a] \<and> length (queue s) < cap \<and> delivered s' = delivered s \<and> closed s' = closed s"
    and push_refused: "push a s = (False, s') \<Longrightarrow> queue s' = queue s \<and> delivered s' = delivered s \<and> closed s'"
    and push_closed: "closed s \<Longrightarrow> push a s = (False, s)"
    and pull_cons: "queue s = a # as \<Longrightarrow>
      queue (pull s) = as \<and> delivered (pull s) = delivered s @ [toMsg a] \<and> closed (pull s) = closed s"
    and pull_nil: "queue s = [] \<Longrightarrow> pull s = s"
begin

lemma push_cases:
  obtains (ok) s' where "push a s = (True, s')" | (refused) s' where "push a s = (False, s')"
  by (cases "push a s"; cases "fst (push a s)") auto

lemma chanRun_fifo:
  assumes "chanRun push pull ops s = (acc, s')"
  shows "delivered s' @ map toMsg (queue s') = delivered s @ map toMsg (queue s @ acc)"
  using assms
proof (induction ops arbitrary: s acc)
  case (Cons op ops)
  show ?case
  proof (cases op)
    case (Push a)
    show ?thesis
    proof (cases rule: push_cases [of a s])
      case (ok t)
      then obtain acc' where "chanRun push pull ops t = (acc', s')" "acc = a # acc'"
        using Cons.prems Push by (auto split: prod.splits)
      with Cons.IH push_ok [OF ok] show ?thesis by simp
    next
      case (refused t)
      then have "chanRun push pull ops t = (acc, s')"
        using Cons.prems Push by (auto split: prod.splits)
      with Cons.IH push_refused [OF refused] show ?thesis by simp
    qed
  next
    case Take
    with Cons.prems have "chanRun push pull ops (pull s) = (acc, s')" by simp
    from Cons.IH [OF this] show ?thesis
      by (cases "queue s") (simp_all add: pull_nil pull_cons)
  qed
qed simp

lemma chanRun_bound:
  assumes "chanRun push pull ops s = (acc, s')" and "length (queue s) \<le> cap"
  shows "length (queue s') \<le> cap"
  using assms
proof (induction ops arbitrary: s acc)
  case (Cons op ops)
  show ?case
  proof (cases op)
    case (Push a)
    then obtain t acc' ok where "push a s = (ok, t)" "chanRun push pull ops t = (acc', s')"
      using Cons.prems(1) by (auto split: prod.splits)
    moreover have "length (queue t) \<le> cap"
      using Cons.prems(2) calculation(1) push_ok [of a s t] push_refused [of a s t] by (cases ok) auto
    ultimately show ?thesis using Cons.IH by blast
  next
    case Take
    then have "chanRun push pull ops (pull s) = (acc, s')" using Cons.prems(1) by simp
    moreover have "length (queue (pull s)) \<le> cap"
      using Cons.prems(2) by (cases "queue s") (simp_all add: pull_nil pull_cons)
    ultimately show ?thesis using Cons.IH by blast
  qed
qed simp

lemma pull_drain:
  "length (queue s) \<le> n \<Longrightarrow>
     queue ((pull ^^ n) s) = [] \<and> delivered ((pull ^^ n) s) = delivered s @ map toMsg (queue s) \<and> closed ((pull ^^ n) s) = closed s"
proof (induction n arbitrary: s)
  case (Suc n)
  then show ?case
  proof (cases "queue s")
    case Nil
    then have "(pull ^^ m) s = s" for m by (induction m) (simp_all add: pull_nil)
    from this [of "Suc n"] Nil show ?thesis by (simp del: funpow.simps)
  next
    case (Cons a as)
    with Suc.prems have "length (queue (pull s)) \<le> n" by (simp add: pull_cons)
    from Suc.IH [OF this] Cons show ?thesis by (simp add: pull_cons funpow_Suc_right del: funpow.simps)
  qed
qed simp

end

end
