(* ===== verification/Interceptor.thy ===== *)
theory Interceptor
  imports Stateless_Data Bounded_Channel
begin

text \<open>
  \<open>interceptor.go\<close>: the connection to the HTLC interceptor of one lnd node. HTLCs that the node offers
  are handed to the multiplexer with a reply callback; the replies go through a channel of
  \<open>resolutionQueueSize\<close> places, which a loop empties onto the stream. A reply that finds the channel
  full closes it, which ends the stream once what was queued is sent. The stream and the block
  notifications of lnd are inputs.
\<close>

section \<open>Replies\<close>

datatype ResolveHoldForwardAction = ActionSettle | ActionFail | ActionResume

datatype rpcFailureCode = FailureReserved | FailureInvalidOnionHmac | FailureInvalidOnionVersion | FailureInvalidOnionKey

record interceptedHtlcResponse =
  action :: ResolveHoldForwardAction
  respPreimage :: preimage
  failureMessage :: bytes
  failureCode :: rpcFailureCode

definition resolutionQueueSize :: nat where
  "resolutionQueueSize = 100"

record queuedReply =
  incomingKey :: CircuitKey
  replyHash :: hash
  resp :: interceptedHtlcResponse

record replyChannel =
  replies :: "queuedReply list"
  replyChanClosed :: bool

definition emptyChannel :: replyChannel where
  "emptyChannel = \<lparr>replies = [], replyChanClosed = False\<rparr>"

datatype replyError = ReplyChannelClosed | ReplyChannelFull

definition reply :: "queuedReply \<Rightarrow> replyChannel \<Rightarrow> (replyError, unit) outcome \<times> replyChannel" where
  "reply q ch =
     (if replyChanClosed ch then (Err ReplyChannelClosed, ch)
      else if length (replies ch) < resolutionQueueSize then (Ok (), ch\<lparr>replies := replies ch @ [q]\<rparr>)
      else (Err ReplyChannelFull, ch\<lparr>replyChanClosed := True\<rparr>))"

section \<open>Receiving HTLCs\<close>

record rpcInterceptRequest =
  reqIncomingCircuitKey :: "u64 \<times> u64"
  reqPaymentHash :: bytes
  reqOnionBlob :: bytes
  reqIncomingAmountMsat :: u64
  reqOutgoingAmountMsat :: u64
  reqIncomingExpiry :: u32
  reqOutgoingExpiry :: u32
  reqOutgoingRequestedChanId :: u64

record interceptedHtlc =
  ihCircuitKey :: CircuitKey
  ihHash :: hash
  onionBlob :: bytes
  incomingAmountMsat :: u64
  outgoingAmountMsat :: u64
  incomingExpiry :: u32
  outgoingExpiry :: u32
  outgoingChanID :: u64

definition newCircuitKeyFromRPC :: "u64 \<times> u64 \<Rightarrow> CircuitKey" where
  "newCircuitKeyFromRPC key = CircuitKey (fst key) (snd key)"

datatype streamError = StreamClosed | ErrMakeHash | ErrCanceled

text \<open>
  One round of \<open>htlcReceiveLoop\<close>: what \<open>recv\<close> returned, and whether the multiplexer took the HTLC before
  the context ended. The reply callback of an HTLC is \<open>replyTo\<close>.
\<close>

definition htlcReceiveLoop_step ::
    "crypto \<Rightarrow> (streamError, rpcInterceptRequest) outcome \<Rightarrow> bool \<Rightarrow> (streamError, interceptedHtlc) outcome" where
  "htlcReceiveLoop_step cr received taken =
     (case received of
        Err e \<Rightarrow> Err e
      | Panic m \<Rightarrow> Panic m
      | Ok htlc \<Rightarrow>
          (case makeHash cr (reqPaymentHash htlc) of
             None \<Rightarrow> Err ErrMakeHash
           | Some hash \<Rightarrow>
               if taken
               then Ok \<lparr>ihCircuitKey = newCircuitKeyFromRPC (reqIncomingCircuitKey htlc), ihHash = hash,
                        onionBlob = reqOnionBlob htlc, incomingAmountMsat = reqIncomingAmountMsat htlc,
                        outgoingAmountMsat = reqOutgoingAmountMsat htlc, incomingExpiry = reqIncomingExpiry htlc,
                        outgoingExpiry = reqOutgoingExpiry htlc, outgoingChanID = reqOutgoingRequestedChanId htlc\<rparr>
               else Err ErrCanceled))"

definition replyTo ::
    "interceptedHtlc \<Rightarrow> interceptedHtlcResponse \<Rightarrow> replyChannel \<Rightarrow> (replyError, unit) outcome \<times> replyChannel" where
  "replyTo htlc r ch = reply \<lparr>incomingKey = ihCircuitKey htlc, replyHash = ihHash htlc, resp = r\<rparr> ch"

section \<open>The stream loop\<close>

record rpcInterceptResponse =
  rpcChanId :: u64
  rpcHtlcId :: u64
  rpcAction :: ResolveHoldForwardAction
  rpcPreimage :: preimage
  rpcFailureMessage :: bytes
  rpcFailureCode :: rpcFailureCode

definition toRpc :: "queuedReply \<Rightarrow> rpcInterceptResponse" where
  "toRpc item =
     \<lparr>rpcChanId = ckChanID (incomingKey item), rpcHtlcId = ckHtlcID (incomingKey item), rpcAction = action (resp item),
      rpcPreimage = respPreimage (resp item), rpcFailureMessage = failureMessage (resp item),
      rpcFailureCode = failureCode (resp item)\<rparr>"

record interceptorState =
  channel :: replyChannel
  sent :: "rpcInterceptResponse list"
  heights :: "int list"

datatype startError =
    ErrStream streamError | ErrReplyChannelFull | ErrSend | ErrBlock | ErrInitialBlock | ErrConnect | CtxCanceled

text \<open>
  What \<open>start\<close> meets before its loop (a stream that cannot be opened, the initial height, or none), and what
  the \<open>select\<close> of its loop can receive. For a reply, the argument says whether \<open>send\<close> succeeds; for a
  block, whether the multiplexer takes the height before the context ends.
\<close>

datatype initEvent = InitConnectError | InitBlock int | InitBlockError | InitTimeout | InitDone

definition start_init :: "initEvent \<Rightarrow> (startError, interceptorState) outcome" where
  "start_init ev =
     (case ev of
        InitConnectError \<Rightarrow> Err ErrConnect
      | InitBlock h \<Rightarrow> Ok \<lparr>channel = emptyChannel, sent = [], heights = [h]\<rparr>
      | InitBlockError \<Rightarrow> Err ErrBlock
      | InitTimeout \<Rightarrow> Err ErrInitialBlock
      | InitDone \<Rightarrow> Err CtxCanceled)"

datatype startEvent = ReceiveError streamError | NewBlock int bool | TakeReply bool | BlockError | StartDone

definition start_step :: "startEvent \<Rightarrow> interceptorState \<Rightarrow> (startError, unit) outcome \<times> interceptorState" where
  "start_step ev s =
     (case ev of
        ReceiveError e \<Rightarrow> (Err (ErrStream e), s)
      | NewBlock h taken \<Rightarrow> if taken then (Ok (), s\<lparr>heights := heights s @ [h]\<rparr>) else (Err CtxCanceled, s)
      | TakeReply ok \<Rightarrow>
          (case replies (channel s) of
             [] \<Rightarrow> (Err ErrReplyChannelFull, s)
           | item # rest \<Rightarrow>
               let s' = s\<lparr>channel := (channel s)\<lparr>replies := rest\<rparr>\<rparr>
               in if ok then (Ok (), s'\<lparr>sent := sent s' @ [toRpc item]\<rparr>) else (Err ErrSend, s'))
      | BlockError \<Rightarrow> (Err ErrBlock, s)
      | StartDone \<Rightarrow> (Err CtxCanceled, s))"

text \<open>A receive from the reply channel is possible when something is queued or the channel is closed.\<close>

definition startCanReceive :: "startEvent \<Rightarrow> interceptorState \<Rightarrow> bool" where
  "startCanReceive ev s =
     (case ev of TakeReply _ \<Rightarrow> replies (channel s) \<noteq> [] \<or> replyChanClosed (channel s) | _ \<Rightarrow> True)"

text \<open>
  \<open>run\<close> starts the stream again, after a delay, unless the stream ended without an error or because the
  context was cancelled. The input has the result of every start and whether the context is cancelled
  during the delay; the result is the number of starts and whether \<open>run\<close> returned.
\<close>

fun interceptor_run :: "((startError, unit) outcome \<times> bool) list \<Rightarrow> nat \<times> bool" where
  "interceptor_run [] = (0, False)"
| "interceptor_run ((r, cancelled) # rs) =
     (if r = Ok () \<or> r = Err CtxCanceled then (1, True)
      else if cancelled then (1, True)
      else map_prod Suc id (interceptor_run rs))"

section \<open>Properties\<close>

text \<open>A reply and a send of the stream loop, as the two ends of a bounded channel.\<close>

definition pushReply :: "queuedReply \<Rightarrow> interceptorState \<Rightarrow> bool \<times> interceptorState" where
  "pushReply q s = (case reply q (channel s) of (r, ch) \<Rightarrow> (r = Ok (), s\<lparr>channel := ch\<rparr>))"

definition takeReply :: "interceptorState \<Rightarrow> interceptorState" where
  "takeReply s =
     (if startCanReceive (TakeReply True) s \<and> fst (start_step (TakeReply True) s) = Ok ()
      then snd (start_step (TakeReply True) s) else s)"

interpretation replyChan: bounded_channel resolutionQueueSize pushReply takeReply "\<lambda>s. replies (channel s)"
    "\<lambda>s. replyChanClosed (channel s)" sent toRpc
  by unfold_locales
    (auto simp: pushReply_def takeReply_def reply_def start_step_def startCanReceive_def split: if_splits)


definition demoReply :: "u64 \<Rightarrow> queuedReply" where
  "demoReply n = \<lparr>incomingKey = CircuitKey 1 n, replyHash = [], resp = \<lparr>action = ActionResume, respPreimage = [],
     failureMessage = [], failureCode = FailureReserved\<rparr>\<rparr>"


text \<open>
  A slow node cannot block the multiplexer. A reply that finds the channel full is refused and closes
  the channel; all later replies are refused at once, everything that was queued before is still
  sent, and then the stream loop ends with an error, after which the interceptor connects again.
\<close>

lemma full_channel_ends_stream:
  assumes "reply q (channel s) = (Err ReplyChannelFull, ch)" and "length (replies (channel s)) \<le> resolutionQueueSize"
  shows "(\<forall>q'. reply q' ch = (Err ReplyChannelClosed, ch)) \<and>
    (\<exists>s'. s' = (takeReply ^^ resolutionQueueSize) (s\<lparr>channel := ch\<rparr>) \<and>
       sent s' = sent s @ map toRpc (replies (channel s)) \<and>
       startCanReceive (TakeReply ok) s' \<and> start_step (TakeReply ok) s' = (Err ErrReplyChannelFull, s')) \<and>
    interceptor_run ((Err ErrReplyChannelFull, False) # rs) = map_prod Suc id (interceptor_run rs)"
proof -
  from assms have ch: "replyChanClosed ch" "replies ch = replies (channel s)"
    by (auto simp: reply_def split: if_splits)
  with replyChan.pull_drain [of "s\<lparr>channel := ch\<rparr>" resolutionQueueSize] assms(2) show ?thesis
    by (simp add: reply_def start_step_def startCanReceive_def)
qed

end
