(* ===== verification/Invoice_Creator.thy ===== *)
theory Invoice_Creator
  imports Sha256
begin

text \<open>
  \<open>invoice_creator.go\<close> and \<open>keyring.go\<close>: the creation of a payment request. Signing and encoding (zpay32,
  btcec) are outside the repository: the record \<open>invoiceOps\<close> holds them. The options that are passed
  to \<open>zpay32.NewInvoice\<close> are a list, in the order in which the code appends them.
\<close>

section \<open>The virtual channel\<close>

definition virtualChannelFromNode :: "pubkey \<Rightarrow> u64" where
  "virtualChannelFromNode key =
     (let b = drop (PubKeySize - 8) key;
          b' = b[0 := (b ! 0) OR push_bit 7 1]
      in be_uint64 b')"

section \<open>The key ring\<close>

datatype KeyFamily = KeyFamilyNodeKey | KeyFamily nat

record KeyLocator =
  Family :: KeyFamily
  Index :: nat

record 'pk KeyDescriptor =
  descLocator :: KeyLocator
  descPubKey :: 'pk

text \<open>The operations on keys, from btcec: what \<open>KeyRing\<close> calls with its one private key.\<close>

record ('sk, 'pk, 'sg) keyOps =
  privKeyFromBytes :: "bytes \<Rightarrow> 'sk \<times> 'pk"
  serializePriv :: "'sk \<Rightarrow> bytes"
  serializeCompressed :: "'pk \<Rightarrow> bytes"
  parsePubKey :: "bytes \<Rightarrow> 'pk option"
  scalarMult :: "'sk \<Rightarrow> 'pk \<Rightarrow> 'pk"
  ecdsaSign :: "'sk \<Rightarrow> bytes \<Rightarrow> 'sg"
  ecdsaSignCompact :: "'sk \<Rightarrow> bytes \<Rightarrow> bytes option"

record ('sk, 'pk) KeyRing =
  krPubKey :: 'pk
  krPrivKey :: 'sk

definition NewKeyRing :: "('sk, 'pk, 'sg) keyOps \<Rightarrow> bytes \<Rightarrow> ('sk, 'pk) KeyRing" where
  "NewKeyRing ops key =
     (let (privKey, pubKey) = privKeyFromBytes ops key in \<lparr>krPubKey = pubKey, krPrivKey = privKey\<rparr>)"

definition DeriveNextKey :: "('sk, 'pk) KeyRing \<Rightarrow> KeyFamily \<Rightarrow> (unit, 'pk KeyDescriptor) outcome" where
  "DeriveNextKey b keyFam = Panic ''not implemented''"

definition DeriveKey :: "('sk, 'pk) KeyRing \<Rightarrow> KeyLocator \<Rightarrow> (unit, 'pk KeyDescriptor) outcome" where
  "DeriveKey b keyLoc = Ok \<lparr>descLocator = keyLoc, descPubKey = krPubKey b\<rparr>"

definition DerivePrivKey :: "('sk, 'pk) KeyRing \<Rightarrow> (unit, 'sk) outcome" where
  "DerivePrivKey b = Ok (krPrivKey b)"

definition ECDH :: "crypto \<Rightarrow> ('sk, 'pk, 'sg) keyOps \<Rightarrow> ('sk, 'pk) KeyRing \<Rightarrow> 'pk \<Rightarrow> (unit, bytes) outcome" where
  "ECDH cr ops b pub = Ok (sha256 cr (serializeCompressed ops (scalarMult ops (krPrivKey b) pub)))"

definition messageDigest :: "crypto \<Rightarrow> bytes \<Rightarrow> bool \<Rightarrow> bytes" where
  "messageDigest cr message doubleHash = (if doubleHash then sha256 cr (sha256 cr message) else sha256 cr message)"

definition SignMessage ::
    "crypto \<Rightarrow> ('sk, 'pk, 'sg) keyOps \<Rightarrow> ('sk, 'pk) KeyRing \<Rightarrow> bytes \<Rightarrow> bool \<Rightarrow> (unit, 'sg) outcome" where
  "SignMessage cr ops b message doubleHash =
     (case DerivePrivKey b of
        Ok privKey \<Rightarrow> Ok (ecdsaSign ops privKey (messageDigest cr message doubleHash))
      | Err e \<Rightarrow> Err e | Panic m \<Rightarrow> Panic m)"

definition SignMessageCompact ::
    "crypto \<Rightarrow> ('sk, 'pk, 'sg) keyOps \<Rightarrow> ('sk, 'pk) KeyRing \<Rightarrow> bytes \<Rightarrow> bool \<Rightarrow> (unit, bytes) outcome" where
  "SignMessageCompact cr ops b message doubleHash =
     (case DerivePrivKey b of
        Ok privKey \<Rightarrow>
          (case ecdsaSignCompact ops privKey (messageDigest cr message doubleHash) of Some sg \<Rightarrow> Ok sg | None \<Rightarrow> Err ())
      | Err e \<Rightarrow> Err e | Panic m \<Rightarrow> Panic m)"

section \<open>Creating an invoice\<close>

record RoutingPolicy =
  CltvDelta :: u64
  FeeBaseMsat :: u64
  FeeRatePpm :: u64

record 'pk HopHint =
  hintNodeID :: 'pk
  hintChannelID :: u64
  hintFeeBaseMSat :: u32
  hintFeeProportionalMillionths :: u32
  hintCLTVExpiryDelta :: "16 word"

datatype 'pk invoiceOption =
    OptAmount u64 | OptExpiry duration | OptDescription bytes | OptDescriptionHash hash | OptCLTVExpiry u64
  | OptRouteHint "'pk HopHint list" | OptFeatures | OptPaymentAddr bytes

record ('sk, 'pk) InvoiceCreator =
  icKeyRing :: "('sk, 'pk) KeyRing"
  gwPubKeys :: "'pk list"
  activeNetParams :: string
  idKeyDesc :: "'pk KeyDescriptor"
  routingPolicy :: RoutingPolicy

datatype creatorError = ErrDerive | ErrParsePubKey | ErrFeatures | ErrStateless stateless_error | ErrPaymentRequest

definition NewInvoiceCreator ::
    "('sk, 'pk, 'sg) keyOps \<Rightarrow> ('sk, 'pk) KeyRing \<Rightarrow> pubkey list \<Rightarrow> string \<Rightarrow> RoutingPolicy \<Rightarrow> (creatorError, ('sk, 'pk) InvoiceCreator) outcome" where
  "NewInvoiceCreator ops keyRing keys netParams policy =
     (case DeriveKey keyRing \<lparr>Family = KeyFamilyNodeKey, Index = 0\<rparr> of
        Err _ \<Rightarrow> Err ErrDerive
      | Panic m \<Rightarrow> Panic m
      | Ok desc \<Rightarrow>
          (case those (map (parsePubKey ops) keys) of
             None \<Rightarrow> Err ErrParsePubKey
           | Some parsed \<Rightarrow>
               Ok \<lparr>icKeyRing = keyRing, gwPubKeys = parsed, activeNetParams = netParams, idKeyDesc = desc, routingPolicy = policy\<rparr>))"

definition NodePubKeys :: "('sk, 'pk) InvoiceCreator \<Rightarrow> 'pk list" where
  "NodePubKeys c = gwPubKeys c"

text \<open>The parameters of the network are known by their name.\<close>

definition Network :: "('sk, 'pk) InvoiceCreator \<Rightarrow> string" where
  "Network c = activeNetParams c"

definition creatorPubKey :: "('sk, 'pk) InvoiceCreator \<Rightarrow> (unit, 'pk) outcome" where
  "creatorPubKey c =
     (case DeriveKey (icKeyRing c) \<lparr>Family = KeyFamily 0, Index = 0\<rparr> of
        Ok key \<Rightarrow> Ok (descPubKey key) | Err _ \<Rightarrow> Panic ''derive'' | Panic m \<Rightarrow> Panic m)"

definition hopHint :: "('sk, 'pk, 'sg) keyOps \<Rightarrow> RoutingPolicy \<Rightarrow> 'pk \<Rightarrow> 'pk HopHint" where
  "hopHint ops policy gwPubKey =
     \<lparr>hintNodeID = gwPubKey, hintChannelID = virtualChannelFromNode (serializeCompressed ops gwPubKey),
      hintFeeBaseMSat = ucast (FeeBaseMsat policy), hintFeeProportionalMillionths = ucast (FeeRatePpm policy),
      hintCLTVExpiryDelta = ucast (CltvDelta policy)\<rparr>"

record CreatedInvoice =
  createdData :: InvoiceCreationData
  creationDate :: time
  paymentRequest :: bytes

text \<open>
  \<open>encode\<close> stands for \<open>zpay32.NewInvoice\<close> and \<open>Encode\<close> with the node signer: it gets the payment hash, the
  creation date and the options, and returns the payment request or fails. \<open>features\<close> says whether
  \<open>feature.NewManager\<close> succeeded, \<open>now\<close> is the time of creation and \<open>rnd\<close> what \<open>rand.Read\<close> returned.
\<close>

definition invoiceOptions ::
    "('sk, 'pk, 'sg) keyOps \<Rightarrow> ('sk, 'pk) InvoiceCreator \<Rightarrow> u64 \<Rightarrow> duration \<Rightarrow> bytes \<Rightarrow> hash option \<Rightarrow> u64 \<Rightarrow> bytes
     \<Rightarrow> 'pk invoiceOption list" where
  "invoiceOptions ops c amtMSat expiry memo descHash cltvDelta paymentAddr =
     (if 0 <s amtMSat then [OptAmount amtMSat] else []) @ [OptExpiry expiry] @
     (if 0 < length memo \<or> descHash = None then [OptDescription memo] else []) @
     (case descHash of None \<Rightarrow> [] | Some h \<Rightarrow> [OptDescriptionHash h]) @ [OptCLTVExpiry cltvDelta] @
     map (\<lambda>gwPubKey. OptRouteHint [hopHint ops (routingPolicy c) gwPubKey]) (gwPubKeys c) @
     [OptFeatures, OptPaymentAddr paymentAddr]"

definition Create ::
    "crypto \<Rightarrow> ('sk, 'pk, 'sg) keyOps \<Rightarrow> (hash \<Rightarrow> time \<Rightarrow> 'pk invoiceOption list \<Rightarrow> bytes option) \<Rightarrow> bool \<Rightarrow> time \<Rightarrow> bytes option
     \<Rightarrow> ('sk, 'pk) InvoiceCreator \<Rightarrow> u64 \<Rightarrow> duration \<Rightarrow> bytes \<Rightarrow> hash option \<Rightarrow> u64
     \<Rightarrow> (creatorError, CreatedInvoice \<times> preimage) outcome" where
  "Create cr ops encode features now rnd c amtMSat expiry memo descHash cltvDelta =
     (if \<not> features then Err ErrFeatures else
      case DerivePrivKey (icKeyRing c) of
        Err _ \<Rightarrow> Err ErrDerive
      | Panic m \<Rightarrow> Panic m
      | Ok privKey \<Rightarrow>
          (case encodeStatelessData cr rnd (serializePriv ops privKey) amtMSat (now + expiry) of
             Err e \<Rightarrow> Err (ErrStateless e)
           | Panic m \<Rightarrow> Panic m
           | Ok (paymentAddr, preimage) \<Rightarrow>
               let paymentHash = preimageHash cr preimage in
               (case encode paymentHash now (invoiceOptions ops c amtMSat expiry memo descHash cltvDelta paymentAddr) of
                  None \<Rightarrow> Err ErrPaymentRequest
                | Some payReq \<Rightarrow>
                    Ok (\<lparr>createdData = \<lparr>PaymentPreimage = preimage, Value = amtMSat, PaymentAddr = paymentAddr\<rparr>,
                          creationDate = now, paymentRequest = payReq\<rparr>, preimage))))"

section \<open>Properties\<close>

lemma bit_byte: "bit (x :: byte) n \<Longrightarrow> n < 8"
  using bit_imp_le_length [of x n] by simp

lemma bit_be_uint64_high: "bit (be_uint64 b) 63 \<longleftrightarrow> bit (b ! 0) 7"
  by (auto simp: be_uint64_def bit_simps dest: bit_byte)

lemma not_bit_small: "unat x < 2 ^ n \<Longrightarrow> n \<le> m \<Longrightarrow> \<not> bit x m" for x :: u64
proof
  assume lt: "unat x < 2 ^ n" "n \<le> m" and b: "bit x m"
  have "m < 64" using b bit_imp_le_length [of x m] by simp
  then have "bit (unat x) m" using b by (simp add: bit_unsigned_iff)
  moreover have "unat x < 2 ^ m" using lt by (meson less_le_trans one_le_numeral power_increasing)
  ultimately show False by (simp add: bit_iff_odd)
qed

text \<open>
  The virtual channel of a node has the highest bit set, so it differs from every channel id whose
  block height is below \<open>2 ^ 23\<close>, which all real channels have.
\<close>

lemma virtual_channel_is_not_real:
  assumes "length key = PubKeySize" and "unat blockHeight < 2 ^ 23" and "unat txIndex < 2 ^ 24" and "unat outIndex < 2 ^ 16"
  shows "2 ^ 63 \<le> unat (virtualChannelFromNode key) \<and>
    virtualChannelFromNode key \<noteq> (push_bit 40 blockHeight OR push_bit 16 txIndex OR outIndex :: u64)"
proof -
  have high: "bit (virtualChannelFromNode key) 63"
    using assms(1) by (simp add: virtualChannelFromNode_def Let_def bit_be_uint64_high PubKeySize_def bit_simps)
  then have "2 ^ 63 \<le> unat (virtualChannelFromNode key)" using not_bit_small [of _ 63 63] by (meson not_le order_refl)
  moreover have "\<not> bit (push_bit 40 blockHeight OR push_bit 16 txIndex OR outIndex) 63"
    using not_bit_small [OF assms(2), of 23] not_bit_small [OF assms(3), of 47] not_bit_small [OF assms(4), of 63]
    by (simp add: bit_simps)
  ultimately show ?thesis using high by auto
qed

text \<open>
  What a created invoice carries: the registry decodes amount, expiry (in whole seconds) and preimage from the
  payment address, and the options of the payment request have the amount, the payment address, a
  description and a hop hint over the virtual channel of every node.
\<close>

lemma Create_Ok:
  assumes "length r = 16" and "time_ok (now + expiry)"
    and "Create goCrypto ops encode features now (Some r) c amtMSat expiry memo descHash cltvDelta = Ok (invoice, p)"
  shows "decodeStatelessData goCrypto (serializePriv ops (krPrivKey (icKeyRing c))) (PaymentAddr (createdData invoice)) =
      Ok \<lparr>sdAmtMsat = amtMSat, sdExpiry = ((now + expiry) div second) * second, sdPreimage = p\<rparr> \<and>
    PaymentPreimage (createdData invoice) = p \<and> length (PaymentAddr (createdData invoice)) = 32 \<and>
    (\<exists>options. encode (preimageHash goCrypto p) now options = Some (paymentRequest invoice) \<and>
      (0 <s amtMSat \<longrightarrow> OptAmount amtMSat \<in> set options) \<and> OptPaymentAddr (PaymentAddr (createdData invoice)) \<in> set options \<and>
      ((\<exists>d. OptDescription d \<in> set options) \<or> (\<exists>d. OptDescriptionHash d \<in> set options)) \<and>
      (\<forall>k \<in> set (gwPubKeys c). \<exists>hint. OptRouteHint [hint] \<in> set options \<and> hintNodeID hint = k \<and>
         hintChannelID hint = virtualChannelFromNode (serializeCompressed ops k)))"
proof -
  let ?key = "serializePriv ops (krPrivKey (icKeyRing c))"
  from assms(3) obtain addr where enc: "encodeStatelessData goCrypto (Some r) ?key amtMSat (now + expiry) = Ok (addr, p)"
    and req: "encode (preimageHash goCrypto p) now (invoiceOptions ops c amtMSat expiry memo descHash cltvDelta addr) =
      Some (paymentRequest invoice)" and inv: "createdData invoice = \<lparr>PaymentPreimage = p, Value = amtMSat, PaymentAddr = addr\<rparr>"
    by (auto simp: Create_def DerivePrivKey_def Let_def split: outcome.splits option.splits prod.splits if_splits)
  note dec = go.decode_encode [OF assms(1,2) enc]
  have "(0 <s amtMSat \<longrightarrow> OptAmount amtMSat \<in> set opts) \<and> OptPaymentAddr addr \<in> set opts \<and>
      ((\<exists>d. OptDescription d \<in> set opts) \<or> (\<exists>d. OptDescriptionHash d \<in> set opts)) \<and>
      (\<forall>k \<in> set (gwPubKeys c). \<exists>hint. OptRouteHint [hint] \<in> set opts \<and> hintNodeID hint = k \<and>
         hintChannelID hint = virtualChannelFromNode (serializeCompressed ops k))"
    if "opts = invoiceOptions ops c amtMSat expiry memo descHash cltvDelta addr" for opts
    unfolding that by (cases descHash) (auto simp: invoiceOptions_def hopHint_def)
  with dec req inv show ?thesis by auto
qed

definition demoKeyOps :: "(bytes, bytes, unit) keyOps" where
  "demoKeyOps = \<lparr>privKeyFromBytes = (\<lambda>b. (b, b)), serializePriv = id, serializeCompressed = id, parsePubKey = Some,
     scalarMult = (\<lambda>_ p. p), ecdsaSign = (\<lambda>_ _. ()), ecdsaSignCompact = (\<lambda>_ m. Some m)\<rparr>"

definition demoCreator :: "(bytes, bytes) InvoiceCreator" where
  "demoCreator = \<lparr>icKeyRing = NewKeyRing demoKeyOps (replicate 32 7), gwPubKeys = [replicate 33 2], activeNetParams = ''testnet3'',
     idKeyDesc = \<lparr>descLocator = \<lparr>Family = KeyFamilyNodeKey, Index = 0\<rparr>, descPubKey = replicate 32 7\<rparr>, routingPolicy = \<lparr>CltvDelta = 40, FeeBaseMsat = 0, FeeRatePpm = 0\<rparr>\<rparr>"

end
