(* ===== verification/Mux.thy ===== *)
theory Mux
  imports Interceptor Invoice_Creator Registry_Steps
begin

text \<open>
  \<open>mux.go\<close>: the multiplexer of one node. It checks the HTLCs that the node intercepts for the virtual
  channel, decodes their onion and hands them to the registry, with a resolver that replies to the
  node. The onion processor of lnd and lightning-onion is a record of functions, an argument of the
  operations.
\<close>

section \<open>Onion processing and failures\<close>

datatype FailCode =
    CodeNone | CodeInvalidOnionHmac | CodeInvalidOnionVersion | CodeInvalidOnionKey | CodeFeeInsufficient
  | CodeIncorrectCltvExpiry | CodeOther nat

datatype FailureMessage =
    FailFinalIncorrectHtlcAmount u64 | FailFinalExpiryTooSoon | FailMPPTimeout | FailIncorrectDetails u64 u32

record hopPayload =
  AmountToForward :: u64
  OutgoingCTLV :: u32
  payloadMultiPath :: "mppRecord option"

record ('i, 'o) sphinxOps =
  DecodeHopIterator :: "bytes \<Rightarrow> hash \<Rightarrow> u32 \<Rightarrow> 'i \<times> FailCode"
  HopPayload :: "'i \<Rightarrow> hopPayload option"
  ExtractErrorEncrypter :: "'i \<Rightarrow> 'o \<times> FailCode"
  EncryptFirstHop :: "'o \<Rightarrow> FailureMessage \<Rightarrow> bytes option"

text \<open>
  The onion processor gets a replay log (\<open>replay_log.go\<close>) that accepts every packet, so that a node can offer an
  HTLC again.
\<close>

definition replayLog_Put :: "bytes \<Rightarrow> u32 \<Rightarrow> (unit, unit) outcome" where
  "replayLog_Put hash cltv = Ok ()"

record Mux =
  muxNode :: pubkey
  muxRoutingPolicy :: RoutingPolicy
  virtualChannel :: u64

text \<open>\<open>New\<close>: the virtual channel is the one of the connected node. Deriving the node key cannot fail.\<close>

definition New :: "('sk, 'pk) KeyRing \<Rightarrow> pubkey \<Rightarrow> RoutingPolicy \<Rightarrow> (unit, Mux) outcome" where
  "New keyRing node policy =
     (case DeriveKey keyRing \<lparr>Family = KeyFamilyNodeKey, Index = 0\<rparr> of
        Err e \<Rightarrow> Err e
      | Panic m \<Rightarrow> Panic m
      | Ok _ \<Rightarrow> Ok \<lparr>muxNode = node, muxRoutingPolicy = policy, virtualChannel = virtualChannelFromNode node\<rparr>)"

datatype muxError = ErrUnsupportedCode FailCode | ErrReply replyError | ErrHopPayload | ErrEncrypt

definition marshallFailureCode :: "FailCode \<Rightarrow> (muxError, rpcFailureCode) outcome" where
  "marshallFailureCode code =
     (case code of
        CodeInvalidOnionHmac \<Rightarrow> Ok FailureInvalidOnionHmac
      | CodeInvalidOnionVersion \<Rightarrow> Ok FailureInvalidOnionVersion
      | CodeInvalidOnionKey \<Rightarrow> Ok FailureInvalidOnionKey
      | CodeFeeInsufficient \<Rightarrow> Ok FailureReserved
      | CodeIncorrectCltvExpiry \<Rightarrow> Ok FailureReserved
      | _ \<Rightarrow> Err (ErrUnsupportedCode code))"

section \<open>Replying\<close>

text \<open>The zero value of the response, of which the code sets some fields.\<close>

definition zeroResponse :: "ResolveHoldForwardAction \<Rightarrow> interceptedHtlcResponse" where
  "zeroResponse a = \<lparr>action = a, respPreimage = replicate 32 0, failureMessage = [], failureCode = FailureReserved\<rparr>"

definition liftReply :: "(replyError, unit) outcome \<times> replyChannel \<Rightarrow> (muxError, unit) outcome \<times> replyChannel" where
  "liftReply p = (case p of (Ok u, ch) \<Rightarrow> (Ok u, ch) | (Err e, ch) \<Rightarrow> (Err (ErrReply e), ch) | (Panic m, ch) \<Rightarrow> (Panic m, ch))"

definition failHtlc :: "interceptedHtlc \<Rightarrow> FailCode \<Rightarrow> replyChannel \<Rightarrow> (muxError, unit) outcome \<times> replyChannel" where
  "failHtlc htlc code ch =
     (case marshallFailureCode code of
        Err e \<Rightarrow> (Err e, ch)
      | Panic m \<Rightarrow> (Panic m, ch)
      | Ok rpcCode \<Rightarrow> liftReply (replyTo htlc ((zeroResponse ActionFail)\<lparr>failureCode := rpcCode\<rparr>) ch))"

definition failLocal ::
    "('i, 'o) sphinxOps \<Rightarrow> interceptedHtlc \<Rightarrow> 'o \<Rightarrow> FailureMessage \<Rightarrow> replyChannel \<Rightarrow> (muxError, unit) outcome \<times> replyChannel" where
  "failLocal sx htlc obfuscator message ch =
     (case EncryptFirstHop sx obfuscator message of
        None \<Rightarrow> (Err ErrEncrypt, ch)
      | Some reason \<Rightarrow> liftReply (replyTo htlc ((zeroResponse ActionFail)\<lparr>failureMessage := reason\<rparr>) ch))"

text \<open>The resolver that the registry gets: the closure of \<open>resolve\<close> over the HTLC and its obfuscator.\<close>

record 'o muxResolver =
  mrHtlc :: interceptedHtlc
  mrNode :: pubkey
  mrObfuscator :: 'o

definition muxKey :: "'o muxResolver \<Rightarrow> HtlcKey" where
  "muxKey r = HtlcKey (mrNode r) (ckChanID (ihCircuitKey (mrHtlc r))) (ckHtlcID (ihCircuitKey (mrHtlc r)))"

definition resolveHtlc ::
    "('i, 'o) sphinxOps \<Rightarrow> 'o muxResolver \<Rightarrow> HtlcResolution \<Rightarrow> replyChannel \<Rightarrow> (muxError, unit) outcome \<times> replyChannel" where
  "resolveHtlc sx r resolution ch =
     (case resolution of
        HtlcSettleResolution p _ \<Rightarrow>
          liftReply (replyTo (mrHtlc r) ((zeroResponse ActionSettle)\<lparr>respPreimage := p\<rparr>) ch)
      | HtlcFailResolution outc \<Rightarrow>
          let message = (if outc = ResultMppTimeout then FailMPPTimeout
                         else FailIncorrectDetails (outgoingAmountMsat (mrHtlc r)) 0)
          in failLocal sx (mrHtlc r) (mrObfuscator r) message ch)"

section \<open>Processing an intercepted HTLC\<close>

definition expectedFee :: "RoutingPolicy \<Rightarrow> u64 \<Rightarrow> u64" where
  "expectedFee policy amt = FeeBaseMsat policy + (FeeRatePpm policy * amt) div 1000000"

text \<open>The result: whether the registry was notified, and of what, or the error.\<close>

definition ProcessHtlc ::
    "('i, 'o) sphinxOps \<Rightarrow> Mux \<Rightarrow> interceptedHtlc \<Rightarrow> int \<Rightarrow> replyChannel
     \<Rightarrow> (muxError, 'o muxResolver registryHtlc option) outcome \<times> replyChannel" where
  "ProcessHtlc sx p htlc height ch =
     (let replied = (\<lambda>r. case r of (Ok _, ch') \<Rightarrow> (Ok None, ch') | (Err e, ch') \<Rightarrow> (Err e, ch') | (Panic m, ch') \<Rightarrow> (Panic m, ch')) in
      if incomingAmountMsat htlc < outgoingAmountMsat htlc + expectedFee (muxRoutingPolicy p) (outgoingAmountMsat htlc)
      then replied (failHtlc htlc CodeFeeInsufficient ch)
      else if incomingExpiry htlc < outgoingExpiry htlc + ucast (CltvDelta (muxRoutingPolicy p))
      then replied (failHtlc htlc CodeIncorrectCltvExpiry ch)
      else
        let (iterator, failCode) = DecodeHopIterator sx (onionBlob htlc) (ihHash htlc) (word_of_int height) in
        if failCode \<noteq> CodeNone then replied (failHtlc htlc failCode ch)
        else (case HopPayload sx iterator of
          None \<Rightarrow> (Err ErrHopPayload, ch)
        | Some payload \<Rightarrow>
            let (obfuscator, failCode') = ExtractErrorEncrypter sx iterator in
            if failCode' \<noteq> CodeNone then replied (failHtlc htlc failCode' ch)
            else if AmountToForward payload \<noteq> outgoingAmountMsat htlc
            then replied (failLocal sx htlc obfuscator (FailFinalIncorrectHtlcAmount (outgoingAmountMsat htlc)) ch)
            else if OutgoingCTLV payload \<noteq> outgoingExpiry htlc
            then replied (failLocal sx htlc obfuscator FailFinalExpiryTooSoon ch)
            else
              let htlcKey = HtlcKey (muxNode p) (ckChanID (ihCircuitKey htlc)) (ckHtlcID (ihCircuitKey htlc)) in
              (Ok (Some \<lparr>rHash = ihHash htlc, amtPaid = outgoingAmountMsat htlc, htlcExpiry = outgoingExpiry htlc,
                         currentHeight = word_of_int height, circuitKey = htlcKey, multiPath = payloadMultiPath payload,
                         resolve = \<lparr>mrHtlc = htlc, mrNode = muxNode p, mrObfuscator = obfuscator\<rparr>\<rparr>), ch)))"

section \<open>The event loop\<close>

text \<open>
  What \<open>Run\<close> can receive. Before the first height arrives it waits for nothing else; \<open>None\<close> is that state.
  A step gives the new height, what the registry is notified of, and whether the loop goes on.
\<close>

datatype muxEvent = HeightReceived int | HtlcReceived interceptedHtlc | MuxDone

datatype 'o muxResult = MuxContinue "'o muxResolver registryHtlc option" | MuxReturn "muxError option" | MuxCrash string

definition Run_step ::
    "('i, 'o) sphinxOps \<Rightarrow> Mux \<Rightarrow> muxEvent \<Rightarrow> int option \<times> replyChannel \<Rightarrow> 'o muxResult \<times> int option \<times> replyChannel" where
  "Run_step sx p ev s =
     (case s of (height, ch) \<Rightarrow>
        (case ev of
           HeightReceived h \<Rightarrow>
             (MuxContinue None, Some (case height of None \<Rightarrow> h | Some old \<Rightarrow> if h > old then h else old), ch)
         | HtlcReceived htlc \<Rightarrow>
             (case height of
                None \<Rightarrow> (MuxContinue None, height, ch)
              | Some hgt \<Rightarrow>
                  if outgoingChanID htlc \<noteq> virtualChannel p
                  then (MuxContinue None, height, snd (replyTo htlc (zeroResponse ActionResume) ch))
                  else (case ProcessHtlc sx p htlc hgt ch of
                          (Ok n, ch') \<Rightarrow> (MuxContinue n, height, ch')
                        | (Err e, ch') \<Rightarrow> (MuxReturn (Some e), height, ch')
                        | (Panic m, ch') \<Rightarrow> (MuxCrash m, height, ch')))
         | MuxDone \<Rightarrow> (MuxReturn None, height, ch)))"

definition muxCanReceive :: "muxEvent \<Rightarrow> int option \<times> replyChannel \<Rightarrow> bool" where
  "muxCanReceive ev s = (case ev of HtlcReceived _ \<Rightarrow> fst s \<noteq> None | _ \<Rightarrow> True)"

section \<open>Properties\<close>

lemma replied_Some:
  "(case r of (Ok x, ch') \<Rightarrow> (Ok None, ch') | (Err e, ch') \<Rightarrow> (Err e, ch') | (Panic m, ch') \<Rightarrow> (Panic m, ch')) \<noteq> (Ok (Some h), c)"
  by (auto split: prod.splits outcome.splits)

text \<open>The HTLC of which the registry is notified, and its resolver, belong to the key of the intercepted HTLC.\<close>

lemma ProcessHtlc_notified:
  "ProcessHtlc sx p htlc height ch = (Ok (Some h), ch') \<Longrightarrow> ch' = ch \<and> muxKey (resolve h) = circuitKey h \<and>
     mrNode (resolve h) = muxNode p \<and> mrHtlc (resolve h) = htlc \<and> rHash h = ihHash htlc"
  by (auto simp: ProcessHtlc_def Let_def muxKey_def replied_Some split: if_splits option.splits prod.splits)

lemma Run_step_notified:
  "Run_step sx p (HtlcReceived htlc) s = (MuxContinue (Some h), s') \<Longrightarrow> s' = s \<and> muxKey (resolve h) = circuitKey h \<and>
     mrNode (resolve h) = muxNode p \<and> mrHtlc (resolve h) = htlc \<and> rHash h = ihHash htlc"
  by (auto simp: Run_step_def dest: ProcessHtlc_notified split: prod.splits option.splits if_splits outcome.splits)


text \<open>A small onion processor that answers with one payload, for concrete instances.\<close>

definition demoSphinx :: "hopPayload option \<Rightarrow> FailCode \<Rightarrow> (unit, unit) sphinxOps" where
  "demoSphinx payload code =
     \<lparr>DecodeHopIterator = (\<lambda>_ _ _. ((), code)), HopPayload = (\<lambda>_. payload), ExtractErrorEncrypter = (\<lambda>_. ((), CodeNone)),
      EncryptFirstHop = (\<lambda>_ m. Some (case m of FailMPPTimeout \<Rightarrow> [1] | _ \<Rightarrow> [2]))\<rparr>"

definition demoMux :: Mux where
  "demoMux = \<lparr>muxNode = replicate 33 2, muxRoutingPolicy = \<lparr>CltvDelta = 40, FeeBaseMsat = 1000, FeeRatePpm = 100\<rparr>,
     virtualChannel = 9\<rparr>"

definition demoIntercepted :: interceptedHtlc where
  "demoIntercepted = \<lparr>ihCircuitKey = CircuitKey 1 2, ihHash = replicate 32 3, onionBlob = [], incomingAmountMsat = 2000000,
     outgoingAmountMsat = 1000000, incomingExpiry = 200, outgoingExpiry = 150, outgoingChanID = 9\<rparr>"

definition demoPayload :: hopPayload where
  "demoPayload = \<lparr>AmountToForward = 1000000, OutgoingCTLV = 150, payloadMultiPath = None\<rparr>"

lemmas demoMuxDefs = ProcessHtlc_def demoSphinx_def demoMux_def demoIntercepted_def demoPayload_def expectedFee_def


text \<open>The fee check is exact when the products and sums of the policy stay below \<open>2 ^ 64\<close>.\<close>

lemma fee_check:
  assumes "unat (FeeRatePpm policy) * unat amt < 2 ^ 64"
    and "unat amt + unat (FeeBaseMsat policy) + unat (FeeRatePpm policy) * unat amt div 1000000 < 2 ^ 64"
  shows "incoming < amt + expectedFee policy amt \<longleftrightarrow>
    unat incoming < unat amt + unat (FeeBaseMsat policy) + unat (FeeRatePpm policy) * unat amt div 1000000"
proof -
  have prod: "unat (FeeRatePpm policy * amt) = unat (FeeRatePpm policy) * unat amt"
    using assms(1) by (simp add: unat_word_ariths)
  have fee: "unat (FeeRatePpm policy * amt div 1000000) = unat (FeeRatePpm policy) * unat amt div 1000000"
    by (simp add: unat_div_distrib prod)
  have "unat (expectedFee policy amt) = unat (FeeBaseMsat policy) + unat (FeeRatePpm policy) * unat amt div 1000000"
    using assms(2) by (simp add: expectedFee_def unat_word_ariths(1) fee)
  then have "unat (amt + expectedFee policy amt) =
      unat amt + unat (FeeBaseMsat policy) + unat (FeeRatePpm policy) * unat amt div 1000000"
    using assms(2) by (simp add: unat_word_ariths(1))
  then show ?thesis by (simp add: word_less_nat_alt)
qed

lemma reply_Ok: "reply q ch = (Ok u, ch') \<Longrightarrow> replies ch' = replies ch @ [q]"
  by (auto simp: reply_def split: if_splits)

lemma replyTo_fails:
  "liftReply (replyTo htlc r ch) = (Ok u, ch') \<Longrightarrow>
     replies ch' = replies ch @ [\<lparr>incomingKey = ihCircuitKey htlc, replyHash = ihHash htlc, resp = r\<rparr>]"
  by (auto simp: liftReply_def replyTo_def dest: reply_Ok split: prod.splits outcome.splits)

lemma failHtlc_Ok:
  "failHtlc htlc code ch = (Ok u, ch') \<Longrightarrow> \<exists>r. action r = ActionFail \<and>
     replies ch' = replies ch @ [\<lparr>incomingKey = ihCircuitKey htlc, replyHash = ihHash htlc, resp = r\<rparr>]"
  by (auto simp: failHtlc_def zeroResponse_def dest!: replyTo_fails split: outcome.splits)

lemma failLocal_Ok:
  "failLocal sx htlc o' m ch = (Ok u, ch') \<Longrightarrow> \<exists>r. action r = ActionFail \<and>
     replies ch' = replies ch @ [\<lparr>incomingKey = ihCircuitKey htlc, replyHash = ihHash htlc, resp = r\<rparr>]"
  by (auto simp: failLocal_def zeroResponse_def dest!: replyTo_fails split: option.splits)

lemma replied_None:
  "(case r of (Ok x, ch') \<Rightarrow> (Ok None, ch') | (Err e, ch') \<Rightarrow> (Err e, ch') | (Panic m, ch') \<Rightarrow> (Panic m, ch')) = (Ok None, c) \<longleftrightarrow>
     (\<exists>u. r = (Ok u, c))"
  by (auto split: prod.splits outcome.splits)

lemma ProcessHtlc_None:
  assumes "ProcessHtlc sx p htlc height ch = (Ok None, ch')"
  shows "\<exists>r. action r = ActionFail \<and>
    replies ch' = replies ch @ [\<lparr>incomingKey = ihCircuitKey htlc, replyHash = ihHash htlc, resp = r\<rparr>]"
  using assms failHtlc_Ok failLocal_Ok
  by (fastforce simp: ProcessHtlc_def Let_def replied_None split: if_splits option.splits prod.splits)

lemma replyTo_open:
  "\<not> replyChanClosed (snd (replyTo htlc r ch)) \<Longrightarrow> replies (snd (replyTo htlc r ch)) =
     replies ch @ [\<lparr>incomingKey = ihCircuitKey htlc, replyHash = ihHash htlc, resp = r\<rparr>]"
  by (auto simp: replyTo_def reply_def split: if_splits)

text \<open>
  C30: an HTLC that the registry does not get is answered exactly once. When the loop handles an HTLC and goes on
  without notifying the registry, and the reply channel has not overflown, one reply for this HTLC was
  added: to fail it if it is for the virtual channel, and to resume it if it is for another channel.
\<close>

theorem htlc_answered_once:
  assumes "Run_step sx p (HtlcReceived htlc) (Some height, ch) = (MuxContinue None, height', ch')"
    and "\<not> replyChanClosed ch'"
  shows "\<exists>r. action r = (if outgoingChanID htlc = virtualChannel p then ActionFail else ActionResume) \<and>
    replies ch' = replies ch @ [\<lparr>incomingKey = ihCircuitKey htlc, replyHash = ihHash htlc, resp = r\<rparr>]"
proof (cases "outgoingChanID htlc = virtualChannel p")
  case True
  with assms(1) have "ProcessHtlc sx p htlc height ch = (Ok None, ch')"
    by (auto simp: Run_step_def split: prod.splits outcome.splits)
  with ProcessHtlc_None True show ?thesis by fastforce
next
  case False
  with assms(1) have "ch' = snd (replyTo htlc (zeroResponse ActionResume) ch)" by (simp add: Run_step_def)
  with replyTo_open [of htlc "zeroResponse ActionResume" ch] assms(2) False show ?thesis by (auto simp: zeroResponse_def)
qed

theorem htlc_answered_once_witness:
  "\<exists>ch' r. Run_step (demoSphinx None CodeInvalidOnionHmac) demoMux (HtlcReceived demoIntercepted) (Some 100, emptyChannel) =
       (MuxContinue None, Some 100, ch') \<and>
     action r = ActionFail \<and> replies ch' = [\<lparr>incomingKey = CircuitKey 1 2, replyHash = replicate 32 3, resp = r\<rparr>]"
proof -
  obtain ch' where c: "Run_step (demoSphinx None CodeInvalidOnionHmac) demoMux (HtlcReceived demoIntercepted) (Some 100, emptyChannel) =
      (MuxContinue None, Some 100, ch')" and o: "\<not> replyChanClosed ch'"
    by (simp add: Run_step_def demoMuxDefs failHtlc_def marshallFailureCode_def liftReply_def replyTo_def reply_def emptyChannel_def
        resolutionQueueSize_def)
  from htlc_answered_once [OF c o] c show ?thesis by (auto simp: demoIntercepted_def emptyChannel_def demoMux_def)
qed

text \<open>
  The node gets the resolution of the registry. When the resolver of an HTLC returns without an error, one
  reply for that HTLC was added: a settle with exactly the preimage of the resolution, or a fail with an
  encrypted failure. The failure tells the sender only whether the HTLC timed out as part of an
  incomplete payment; all other reasons give the same message, which depends only on the HTLC.
\<close>

lemma resolution_is_replied:
  assumes "resolveHtlc sx r resolution ch = (Ok u, ch')"
  shows "\<exists>q. replies ch' = replies ch @ [\<lparr>incomingKey = ihCircuitKey (mrHtlc r), replyHash = ihHash (mrHtlc r), resp = q\<rparr>] \<and>
    (case resolution of
       HtlcSettleResolution p _ \<Rightarrow> action q = ActionSettle \<and> respPreimage q = p
     | HtlcFailResolution reason \<Rightarrow> action q = ActionFail \<and>
         EncryptFirstHop sx (mrObfuscator r)
           (if reason = ResultMppTimeout then FailMPPTimeout else FailIncorrectDetails (outgoingAmountMsat (mrHtlc r)) 0) =
         Some (failureMessage q))"
  using assms
  by (auto simp: resolveHtlc_def failLocal_def zeroResponse_def Let_def dest!: replyTo_fails
      split: HtlcResolution.splits option.splits if_splits)

section \<open>Invoices and the multiplexer\<close>

lemma unat_ucast_small: "unat x < 2 ^ LENGTH('b) \<Longrightarrow> unat (ucast x :: 'b::len word) = unat x" for x :: "'a::len word"
  by (simp add: unsigned_ucast_eq take_bit_nat_eq_self)

text \<open>
  C15: a payment that follows the hop hint of an invoice gets through. Take the hint that an invoice has for
  a node, and the multiplexer of that node with the same routing policy, which fits the fields of the
  hint (32, 32 and 16 bits). An HTLC for the channel of the hint that pays the hinted fees (base, and the
  proportional fee rounded down), leaves the hinted number of blocks, and has an onion whose payload
  agrees with it, is handed to the registry, and nothing is replied.
\<close>

theorem hinted_htlc_reaches_registry:
  assumes "New keyRing (serializeCompressed ops gw) policy = Ok p" and hint: "hint = hopHint ops policy gw"
    and fits: "unat (FeeBaseMsat policy) < 2 ^ 32" "unat (FeeRatePpm policy) < 2 ^ 32" "unat (CltvDelta policy) < 2 ^ 16"
    and chan: "outgoingChanID htlc = hintChannelID hint"
    and amt: "unat (hintFeeProportionalMillionths hint) * unat (outgoingAmountMsat htlc) < 2 ^ 64"
    and fee: "unat (outgoingAmountMsat htlc) + unat (hintFeeBaseMSat hint) +
      unat (hintFeeProportionalMillionths hint) * unat (outgoingAmountMsat htlc) div 1000000 \<le> unat (incomingAmountMsat htlc)"
    and cltv: "unat (outgoingExpiry htlc) + unat (hintCLTVExpiryDelta hint) \<le> unat (incomingExpiry htlc)"
    and onion: "DecodeHopIterator sx (onionBlob htlc) (ihHash htlc) (word_of_int height) = (iterator, CodeNone)"
      "HopPayload sx iterator = Some payload" "ExtractErrorEncrypter sx iterator = (obfuscator, CodeNone)"
      "AmountToForward payload = outgoingAmountMsat htlc" "OutgoingCTLV payload = outgoingExpiry htlc"
  shows "\<exists>h. Run_step sx p (HtlcReceived htlc) (Some height, ch) = (MuxContinue (Some h), Some height, ch) \<and>
    rHash h = ihHash htlc \<and> amtPaid h = outgoingAmountMsat htlc \<and> multiPath h = payloadMultiPath payload"
proof -
  from assms(1) have p: "muxRoutingPolicy p = policy" "virtualChannel p = hintChannelID hint"
    by (auto simp: New_def hint hopHint_def split: outcome.splits)
  have base: "unat (hintFeeBaseMSat hint) = unat (FeeBaseMsat policy)"
    and rate: "unat (hintFeeProportionalMillionths hint) = unat (FeeRatePpm policy)"
    and delta: "unat (hintCLTVExpiryDelta hint) = unat (CltvDelta policy)" "unat (ucast (CltvDelta policy) :: u32) = unat (CltvDelta policy)"
    using fits by (simp_all add: hint hopHint_def unat_ucast_small)
  have "\<not> incomingAmountMsat htlc < outgoingAmountMsat htlc + expectedFee policy (outgoingAmountMsat htlc)"
    using fee_check [of policy "outgoingAmountMsat htlc" "incomingAmountMsat htlc"] amt fee base rate
      unsigned_less [of "incomingAmountMsat htlc", where 'a = nat] by simp
  moreover have "unat (outgoingExpiry htlc + ucast (CltvDelta policy)) = unat (outgoingExpiry htlc) + unat (CltvDelta policy)"
    using cltv delta unsigned_less [of "incomingExpiry htlc", where 'a = nat] by (simp add: unat_word_ariths(1))
  then have "\<not> incomingExpiry htlc < outgoingExpiry htlc + ucast (CltvDelta policy)"
    using cltv delta by (simp add: word_less_nat_alt)
  ultimately show ?thesis using onion chan p by (auto simp: Run_step_def ProcessHtlc_def)
qed

theorem hinted_htlc_reaches_registry_witness:
  "\<exists>h. Run_step (demoSphinx (Some demoPayload) CodeNone)
      \<lparr>muxNode = replicate 33 2, muxRoutingPolicy = \<lparr>CltvDelta = 40, FeeBaseMsat = 1000, FeeRatePpm = 100\<rparr>,
       virtualChannel = virtualChannelFromNode (replicate 33 2)\<rparr>
      (HtlcReceived (demoIntercepted\<lparr>incomingAmountMsat := 1001100, outgoingChanID := virtualChannelFromNode (replicate 33 2)\<rparr>))
      (Some 100, emptyChannel) = (MuxContinue (Some h), Some 100, emptyChannel) \<and> amtPaid h = 1000000"
proof -
  let ?policy = "\<lparr>CltvDelta = 40, FeeBaseMsat = 1000, FeeRatePpm = 100\<rparr>"
  have "serializeCompressed demoKeyOps (replicate 33 2) = replicate 33 2" by (simp add: demoKeyOps_def)
  with hinted_htlc_reaches_registry [of "NewKeyRing demoKeyOps []" demoKeyOps "replicate 33 2" ?policy
      "\<lparr>muxNode = replicate 33 2, muxRoutingPolicy = ?policy, virtualChannel = virtualChannelFromNode (replicate 33 2)\<rparr>"
      "hopHint demoKeyOps ?policy (replicate 33 2)"
      "demoIntercepted\<lparr>incomingAmountMsat := 1001100, outgoingChanID := virtualChannelFromNode (replicate 33 2)\<rparr>"
      "demoSphinx (Some demoPayload) CodeNone" 100 "()" demoPayload "()" emptyChannel]
  show ?thesis
    by (auto simp: New_def DeriveKey_def hopHint_def demoIntercepted_def demoSphinx_def demoPayload_def)
qed

text \<open>
  C31: one HTLC with a payload that cannot be parsed stops the multiplexer of its node. When the onion
  decodes but its payload does not, which is in the hands of the sender, \<open>ProcessHtlc\<close> replies nothing
  and returns an error, and \<open>Run\<close> returns it.
\<close>

theorem malformed_payload_stops_mux:
  assumes "outgoingChanID htlc = virtualChannel p"
    and "outgoingAmountMsat htlc + expectedFee (muxRoutingPolicy p) (outgoingAmountMsat htlc) \<le> incomingAmountMsat htlc"
    and "outgoingExpiry htlc + ucast (CltvDelta (muxRoutingPolicy p)) \<le> incomingExpiry htlc"
    and "DecodeHopIterator sx (onionBlob htlc) (ihHash htlc) (word_of_int height) = (iterator, CodeNone)"
    and "HopPayload sx iterator = None"
  shows "Run_step sx p (HtlcReceived htlc) (Some height, ch) = (MuxReturn (Some ErrHopPayload), Some height, ch)"
proof -
  have "ProcessHtlc sx p htlc height ch = (Err ErrHopPayload, ch)"
    using assms(2-) by (simp add: ProcessHtlc_def Let_def leD)
  with assms(1) show ?thesis by (simp add: Run_step_def)
qed

theorem malformed_payload_stops_mux_witness:
  "Run_step (demoSphinx None CodeNone) demoMux (HtlcReceived demoIntercepted) (Some 100, emptyChannel) =
     (MuxReturn (Some ErrHopPayload), Some 100, emptyChannel)"
  by (rule malformed_payload_stops_mux [where iterator = "()"])
    (simp_all add: demoSphinx_def demoMux_def demoIntercepted_def expectedFee_def)

section \<open>Heights\<close>

text \<open>The height after a sequence of events in which the loop goes on.\<close>

fun muxRun :: "('i, 'o) sphinxOps \<Rightarrow> Mux \<Rightarrow> muxEvent list \<Rightarrow> int option \<times> replyChannel \<Rightarrow> (int option \<times> replyChannel) option" where
  "muxRun sx p [] s = Some s"
| "muxRun sx p (ev # evs) s =
     (if \<not> muxCanReceive ev s then None
      else case Run_step sx p ev s of (MuxContinue _, s') \<Rightarrow> muxRun sx p evs s' | _ \<Rightarrow> None)"

definition receivedHeights :: "muxEvent list \<Rightarrow> int set" where
  "receivedHeights evs = {h. HeightReceived h \<in> set evs}"

lemma finite_receivedHeights [simp]: "finite (receivedHeights evs)"
proof -
  have "receivedHeights evs \<subseteq> (\<lambda>ev. case ev of HeightReceived h \<Rightarrow> h | _ \<Rightarrow> 0) ` set evs"
    by (force simp: receivedHeights_def)
  then show ?thesis by (rule finite_subset) simp
qed

lemma Run_step_height:
  "Run_step sx p ev (hgt, ch) = (MuxContinue n, s') \<Longrightarrow>
     fst s' = (case ev of HeightReceived h \<Rightarrow> Some (case hgt of None \<Rightarrow> h | Some old \<Rightarrow> max old h) | _ \<Rightarrow> hgt)"
  by (auto simp: Run_step_def max_def split: muxEvent.splits option.splits if_splits prod.splits outcome.splits)

lemma muxRun_height:
  assumes "muxRun sx p evs s = Some s'"
  shows "fst s' = (let H = receivedHeights evs \<union> set_option (fst s) in if H = {} then None else Some (Max H))"
  using assms
proof (induction sx p evs s rule: muxRun.induct)
  case (1 sx p s)
  then show ?case by (cases "fst s") (auto simp: receivedHeights_def)
next
  case (2 sx p ev evs s)
  from "2.prems" obtain n s1 where st: "Run_step sx p ev s = (MuxContinue n, s1)" and run: "muxRun sx p evs s1 = Some s'"
    and can: "muxCanReceive ev s" by (auto split: if_splits prod.splits muxResult.splits)
  note ih = "2.IH" [of "MuxContinue n" s1 n, OF _ st [symmetric]]
  have h1: "fst s1 = (case ev of HeightReceived h \<Rightarrow> Some (case fst s of None \<Rightarrow> h | Some old \<Rightarrow> max old h) | _ \<Rightarrow> fst s)"
    using Run_step_height [of sx p ev "fst s" "snd s" n s1] st by simp
  have eq: "Max (receivedHeights evs \<union> {max old h}) = Max (insert h (receivedHeights evs) \<union> {old})" for old h
    by (cases "receivedHeights evs = {}") (auto simp: max.assoc max.commute max.left_commute)
  have hd: "receivedHeights (ev # evs) = (case ev of HeightReceived h \<Rightarrow> insert h (receivedHeights evs) | _ \<Rightarrow> receivedHeights evs)"
    by (auto simp: receivedHeights_def split: muxEvent.splits)
  show ?case
    using ih can run h1 hd eq by (cases ev; cases "fst s") (auto simp: Let_def)
qed

text \<open>
  HTLCs are judged by the highest block height received so far. While the loop runs its height is the
  maximum of the heights it received, and there is none before the first.
\<close>

lemma height_is_highest_received:
  assumes "muxRun sx p evs (None, ch) = Some (height, ch')"
  shows "height = (if receivedHeights evs = {} then None else Some (Max (receivedHeights evs)))"
  using muxRun_height [OF assms] by (simp add: Let_def)

end
