(* ===== verification/Payment_System.thy ===== *)
theory Payment_System
  imports Mux Settlement
begin

text \<open>
  The path of an HTLC through the whole daemon: the nodes with the streams of their interceptors
  (\<open>interceptor.go\<close>), the multiplexers (\<open>mux.go\<close>) and the registry with its database
  (\<open>invoiceregistry.go\<close>) as one step system. A resolver that the registry holds is bound to the reply
  channel of the stream on which its HTLC arrived, as the closures of \<open>htlcReceiveLoop\<close> and
  \<open>ProcessHtlc\<close> bind it: a resolution that comes after this stream has ended is queued on a channel
  that nobody reads. Streams come and go, the process dies at any callback and starts again.
\<close>

section \<open>State\<close>

text \<open>
  The streams of a node, the oldest first; only the last one can be alive. A resolver is the number of
  the stream of its node and the resolver of the multiplexer. The height is the one of \<open>Run\<close> of the
  multiplexer, and \<open>nsEnded\<close> has the nodes whose multiplexer has returned.
\<close>

type_synonym 'o streamResolver = "nat \<times> 'o muxResolver"

record ('o, 'c, 'q) nodeSystem =
  nsRegistry :: "('o streamResolver, 'c, 'q) InvoiceRegistry"
  nsStreams :: "pubkey \<Rightarrow> interceptorState list"
  nsLive :: "pubkey \<Rightarrow> bool"
  nsHeight :: "pubkey \<Rightarrow> int option"
  nsEnded :: "pubkey set"

definition streamKey :: "'o streamResolver \<Rightarrow> HtlcKey" where
  "streamKey r = muxKey (snd r)"

definition bindStream :: "nat \<Rightarrow> 'o muxResolver registryHtlc \<Rightarrow> 'o streamResolver registryHtlc" where
  "bindStream n h =
     \<lparr>rHash = rHash h, amtPaid = amtPaid h, htlcExpiry = htlcExpiry h, currentHeight = currentHeight h,
      circuitKey = circuitKey h, multiPath = multiPath h, resolve = (n, resolve h)\<rparr>"

definition lastStream :: "pubkey \<Rightarrow> ('o, 'c, 'q) nodeSystem \<Rightarrow> interceptorState" where
  "lastStream node s = last (nsStreams s node)"

definition setLast :: "pubkey \<Rightarrow> interceptorState \<Rightarrow> (pubkey \<Rightarrow> interceptorState list) \<Rightarrow> pubkey \<Rightarrow> interceptorState list" where
  "setLast node st ss = ss(node := butlast (ss node) @ [st])"

definition setChannel :: "replyChannel \<Rightarrow> interceptorState \<Rightarrow> interceptorState" where
  "setChannel ch st = st\<lparr>channel := ch\<rparr>"

text \<open>
  What the callbacks of the registry do: a resolution is replied on the channel of its stream (an error
  of the reply is only logged), an accept callback does not concern the nodes.
\<close>

definition deliverCall ::
    "('i, 'o) sphinxOps \<Rightarrow> ('o streamResolver, 'c) call \<Rightarrow> (pubkey \<Rightarrow> interceptorState list) \<Rightarrow> pubkey \<Rightarrow> interceptorState list" where
  "deliverCall sx c ss =
     (case c of
        CallAccept _ _ _ \<Rightarrow> ss
      | CallResolve (n, r) resolution \<Rightarrow>
          let st = ss (mrNode r) ! n
          in ss(mrNode r := (ss (mrNode r))[n := setChannel (snd (resolveHtlc sx r resolution (channel st))) st]))"

definition newCalls :: "('r, 'c, 'q) InvoiceRegistry \<Rightarrow> ('r, 'c, 'q) InvoiceRegistry \<Rightarrow> ('r, 'c) call list" where
  "newCalls s s' = drop (length (calls s)) (calls s')"

definition deliver ::
    "('i, 'o) sphinxOps \<Rightarrow> ('o streamResolver, 'c, 'q) InvoiceRegistry \<Rightarrow> ('o, 'c, 'q) nodeSystem \<Rightarrow> ('o, 'c, 'q) nodeSystem" where
  "deliver sx r s = s\<lparr>nsRegistry := r, nsStreams := fold (deliverCall sx) (newCalls (nsRegistry s) r) (nsStreams s)\<rparr>"

text \<open>The state in which a process starts: no stream is alive, and the registry has only its database.\<close>

definition processStart :: "'q registryEnv \<Rightarrow> ('o, 'c, 'q) nodeSystem \<Rightarrow> ('o, 'c, 'q) nodeSystem" where
  "processStart env s =
     s\<lparr>nsRegistry := restart env (nsRegistry s), nsLive := (\<lambda>_. False), nsHeight := (\<lambda>_. None), nsEnded := {}\<rparr>"

definition emptySystem :: "'q registryEnv \<Rightarrow> ('o, 'c, 'q) nodeSystem" where
  "emptySystem env =
     \<lparr>nsRegistry = NewRegistry env emptyDb, nsStreams = (\<lambda>_. []), nsLive = (\<lambda>_. False), nsHeight = (\<lambda>_. None), nsEnded = {}\<rparr>"

section \<open>Steps\<close>

text \<open>
  The multiplexer of a live stream takes an HTLC that the node offers: the receive loop converts it and
  \<open>Run\<close> handles it.
\<close>

definition muxTakes ::
    "'q registryEnv \<Rightarrow> ('i, 'o) sphinxOps \<Rightarrow> Mux \<Rightarrow> rpcInterceptRequest \<Rightarrow> ('o, 'c, 'q) nodeSystem
     \<Rightarrow> (interceptedHtlc \<times> 'o muxResult \<times> int option \<times> replyChannel) option" where
  "muxTakes env sx p req s =
     (if \<not> nsLive s (muxNode p) \<or> muxNode p \<in> nsEnded s then None
      else case htlcReceiveLoop_step (crypt env) (Ok req) True of
        Ok htlc \<Rightarrow>
          let ms = (nsHeight s (muxNode p), channel (lastStream (muxNode p) s))
          in if muxCanReceive (HtlcReceived htlc) ms then Some (htlc, Run_step sx p (HtlcReceived htlc) ms) else None
      | _ \<Rightarrow> None)"

text \<open>
  The events that the registry can receive: HTLCs of which a multiplexer notifies it, and everything
  else. The hash of an HTLC is a function of its key, which lnd guarantees: a circuit key names one HTLC.
\<close>

inductive offered ::
    "'q registryEnv \<Rightarrow> ('i, 'o) sphinxOps \<Rightarrow> Mux list \<Rightarrow> (HtlcKey \<Rightarrow> hash) \<Rightarrow> ('o, 'c, 'q) nodeSystem
     \<Rightarrow> ('o streamResolver, 'c) event \<Rightarrow> bool" for env sx muxes hashOf s where
  other: "(\<And>h. ev \<noteq> NewHtlc h) \<Longrightarrow> offered env sx muxes hashOf s ev"
| notified: "p \<in> set muxes \<Longrightarrow> muxTakes env sx p req s = Some (htlc, MuxContinue (Some h), height, ch) \<Longrightarrow>
     rHash h = hashOf (circuitKey h) \<Longrightarrow>
     offered env sx muxes hashOf s (NewHtlc (bindStream (length (nsStreams s (muxNode p)) - 1) h))"

datatype ('r, 'c) nodeEvent =
    NodeConnect pubkey int
  | NodeReply pubkey interceptedHtlc
  | NodeMuxReturn pubkey interceptedHtlc "muxError option"
  | NodeStream pubkey startEvent
  | NodeSys "('r, 'c) sysEvent"

inductive nodeStep ::
    "'q registryEnv \<Rightarrow> ('i, 'o) sphinxOps \<Rightarrow> Mux list \<Rightarrow> (HtlcKey \<Rightarrow> hash) \<Rightarrow> ('o, 'c, 'q) nodeSystem
     \<Rightarrow> ('o streamResolver, 'c) nodeEvent \<Rightarrow> ('o, 'c, 'q) nodeSystem \<Rightarrow> bool" for env sx muxes hashOf where
  connect: "p \<in> set muxes \<Longrightarrow> muxNode p = node \<Longrightarrow> \<not> nsLive s node \<Longrightarrow> node \<notin> nsEnded s \<Longrightarrow>
     start_init (InitBlock h) = Ok st \<Longrightarrow>
     Run_step sx p (HeightReceived h) (nsHeight s node, channel st) = (MuxContinue None, height, ch) \<Longrightarrow>
     nodeStep env sx muxes hashOf s (NodeConnect node h)
       (s\<lparr>nsStreams := (nsStreams s)(node := nsStreams s node @ [st]), nsLive := (nsLive s)(node := True),
          nsHeight := (nsHeight s)(node := height)\<rparr>)"
| replied: "p \<in> set muxes \<Longrightarrow> muxNode p = node \<Longrightarrow> muxTakes env sx p req s = Some (htlc, MuxContinue None, height, ch) \<Longrightarrow>
     nodeStep env sx muxes hashOf s (NodeReply node htlc)
       (s\<lparr>nsStreams := setLast node (setChannel ch (lastStream node s)) (nsStreams s)\<rparr>)"
| muxReturns: "p \<in> set muxes \<Longrightarrow> muxNode p = node \<Longrightarrow> muxTakes env sx p req s = Some (htlc, MuxReturn e, height, ch) \<Longrightarrow>
     nodeStep env sx muxes hashOf s (NodeMuxReturn node htlc e)
       (s\<lparr>nsStreams := setLast node (setChannel ch (lastStream node s)) (nsStreams s), nsLive := (nsLive s)(node := False),
          nsEnded := insert node (nsEnded s)\<rparr>)"
| stream: "nsLive s node \<Longrightarrow> startCanReceive sev (lastStream node s) \<Longrightarrow> start_step sev (lastStream node s) = (r, st) \<Longrightarrow>
     nodeStep env sx muxes hashOf s (NodeStream node sev)
       (s\<lparr>nsStreams := setLast node st (nsStreams s), nsLive := (nsLive s)(node := (r = Ok ())),
          nsHeight := (nsHeight s)(node := (case sev of NewBlock h True \<Rightarrow> Some (case nsHeight s node of None \<Rightarrow> h | Some old \<Rightarrow> max old h)
                                                    | _ \<Rightarrow> nsHeight s node))\<rparr>)"
| loop: "offered env sx muxes hashOf s ev \<Longrightarrow> canReceive env ev (nsRegistry s) \<Longrightarrow>
     invoiceEventLoop_step env inp ev (nsRegistry s) = (Continue answer, r) \<Longrightarrow>
     nodeStep env sx muxes hashOf s (NodeSys (SysLoop ev answer)) (deliver sx r s)"
| died: "offered env sx muxes hashOf s ev \<Longrightarrow> canReceive env ev (nsRegistry s) \<Longrightarrow>
     invoiceEventLoop_step env inp ev (nsRegistry s) = (res, r) \<Longrightarrow>
     nodeStep env sx muxes hashOf s (NodeSys (SysDied ev)) (processStart env (deliver sx (cutCalls n (nsRegistry s) r) s))"
| subscribe: "SubscribeAccept (nsRegistry s) = (sid, r) \<Longrightarrow>
     nodeStep env sx muxes hashOf s (NodeSys (SysSubscribe sid)) (s\<lparr>nsRegistry := r\<rparr>)"
| final: "MarkHtlcFinal f now key settled (cdb (nsRegistry s)) = (res, db) \<Longrightarrow>
     nodeStep env sx muxes hashOf s (NodeSys (SysFinal key settled res)) (s\<lparr>nsRegistry := (nsRegistry s)\<lparr>cdb := db\<rparr>\<rparr>)"

abbreviation nodeReach ::
    "'q registryEnv \<Rightarrow> ('i, 'o) sphinxOps \<Rightarrow> Mux list \<Rightarrow> (HtlcKey \<Rightarrow> hash) \<Rightarrow> ('o, 'c, 'q) nodeSystem \<Rightarrow> bool" where
  "nodeReach env sx muxes hashOf \<equiv> reach (\<lambda>s. s = emptySystem env) (nodeStep env sx muxes hashOf)"

section \<open>The registry of the system\<close>

lemma streamKey_bind [simp]: "streamKey (resolve (bindStream n h)) = muxKey (resolve h)"
  "circuitKey (bindStream n h) = circuitKey h" "rHash (bindStream n h) = rHash h" "resolve (bindStream n h) = (n, resolve h)"
  by (simp_all add: streamKey_def bindStream_def)

lemma muxTakes_Some:
  assumes "muxTakes env sx p req s = Some (htlc, res, ms)"
  obtains "htlcReceiveLoop_step (crypt env) (Ok req) True = Ok htlc" and "nsLive s (muxNode p)"
    and "Run_step sx p (HtlcReceived htlc) (nsHeight s (muxNode p), channel (lastStream (muxNode p) s)) = (res, ms)"
    and "nsHeight s (muxNode p) \<noteq> None"
  using assms by (auto simp: muxTakes_def Let_def muxCanReceive_def split: if_splits outcome.splits)

lemma offered_wf: "offered env sx muxes hashOf s ev \<Longrightarrow> wfEvent streamKey hashOf ev"
proof (induction rule: offered.induct)
  case (other ev)
  then show ?case by (cases ev) auto
next
  case (notified p req htlc h height ch)
  from notified(2) have "muxKey (resolve h) = circuitKey h" by (rule muxTakes_Some) (auto dest: Run_step_notified)
  with notified(3) show ?case by (simp add: wfHtlc_def streamKey_def)
qed

lemma deliver_sel [simp]: "nsRegistry (deliver sx r s) = r"
  by (simp add: deliver_def)

text \<open>
  A step of the system is a step of the registry with its database, or leaves it alone: all that is
  proved of \<open>sysStep\<close> holds in the whole daemon. The keys of the resolvers may be any function under which the
  received HTLCs are well-formed.
\<close>

lemma nodeStep_sys_for:
  assumes "nodeStep env sx muxes hashOf s e s'"
    and wf: "\<And>ev a. offered env sx muxes hashOf s ev \<Longrightarrow> e = NodeSys (SysLoop ev a) \<or> e = NodeSys (SysDied ev) \<Longrightarrow> wfEvent keyOf hashOf ev"
  shows "nsRegistry s' = nsRegistry s \<or> (\<exists>e'. sysStep env keyOf hashOf (nsRegistry s) e' (nsRegistry s'))"
  using assms(1)
proof cases
  case (loop ev inp answer r)
  moreover have "wfEvent keyOf hashOf ev" using wf [OF loop(3)] loop(1) by blast
  ultimately show ?thesis using sysStep.loop [OF _ loop(4,5), of keyOf hashOf] by auto
next
  case (died ev inp res r n)
  have "nsRegistry s' = restart env (cutCalls n (nsRegistry s) r)" using died(2) by (simp add: processStart_def)
  moreover have "wfEvent keyOf hashOf ev" using wf [OF died(3)] died(1) by blast
  ultimately show ?thesis using sysStep.died [OF _ died(4,5), of keyOf hashOf n] by auto
next
  case (subscribe sid r)
  with sysStep.subscribe show ?thesis by fastforce
next
  case (final f now key settled res db)
  with sysStep.final [of f now key settled "nsRegistry s" res db] show ?thesis by auto
qed auto

lemma nodeStep_sys:
  assumes "nodeStep env sx muxes hashOf s e s'"
  shows "nsRegistry s' = nsRegistry s \<or> (\<exists>e'. sysStep env streamKey hashOf (nsRegistry s) e' (nsRegistry s'))"
  using assms by (rule nodeStep_sys_for) (rule offered_wf)

lemma reach_project:
  assumes "reach (\<lambda>s. s = emptySystem env) step s"
    and "\<And>s e t. step s e t \<Longrightarrow> nsRegistry t = nsRegistry s \<or> (\<exists>e'. sysStep env keyOf hashOf (nsRegistry s) e' (nsRegistry t))"
  shows "sysReach env keyOf hashOf (nsRegistry s)"
  using assms(1)
proof (induction rule: reach.induct)
  case (reach_init s)
  then show ?case by (auto simp: emptySystem_def intro: reach.reach_init)
next
  case (reach_step s e t)
  from assms(2) [OF reach_step(2)] reach_step(3) show ?case by (auto intro: reach.reach_step)
qed

lemma nodeReach_sys: "nodeReach env sx muxes hashOf s \<Longrightarrow> sysReach env streamKey hashOf (nsRegistry s)"
  by (rule reach_project [where step = "nodeStep env sx muxes hashOf"]) (auto dest: nodeStep_sys)

section \<open>Replies\<close>

text \<open>What a stream has sent and what it still has queued.\<close>

definition outputs :: "interceptorState \<Rightarrow> rpcInterceptResponse list" where
  "outputs st = sent st @ map toRpc (replies (channel st))"

definition rpcKey :: "pubkey \<Rightarrow> rpcInterceptResponse \<Rightarrow> HtlcKey" where
  "rpcKey node m = HtlcKey node (rpcChanId m) (rpcHtlcId m)"

lemma toRpc_sel [simp]:
  "rpcAction (toRpc q) = action (resp q)" "rpcPreimage (toRpc q) = respPreimage (resp q)"
  "rpcChanId (toRpc q) = ckChanID (incomingKey q)" "rpcHtlcId (toRpc q) = ckHtlcID (incomingKey q)"
  by (simp_all add: toRpc_def)

lemma outputs_start_step: "start_step sev st = (r, st') \<Longrightarrow> set (outputs st') \<subseteq> set (outputs st)"
  by (auto simp: start_step_def outputs_def Let_def split: startEvent.splits list.splits if_splits)

lemma replies_replyTo:
  "set (replies (snd (replyTo htlc r ch))) \<subseteq> insert \<lparr>incomingKey = ihCircuitKey htlc, replyHash = ihHash htlc, resp = r\<rparr> (set (replies ch))"
  by (auto simp: replyTo_def reply_def)

lemma snd_liftReply [simp]: "snd (liftReply x) = snd x"
  by (auto simp: liftReply_def split: prod.splits outcome.splits)

text \<open>A channel that got only replies that satisfy a predicate.\<close>

definition extends :: "(queuedReply \<Rightarrow> bool) \<Rightarrow> replyChannel \<Rightarrow> replyChannel \<Rightarrow> bool" where
  "extends P ch ch' = (\<forall>q \<in> set (replies ch'). q \<in> set (replies ch) \<or> P q)"

lemma extends_refl [simp]: "extends P ch ch"
  by (simp add: extends_def)

lemma extends_replyTo:
  "P \<lparr>incomingKey = ihCircuitKey htlc, replyHash = ihHash htlc, resp = r\<rparr> \<Longrightarrow> extends P ch (snd (replyTo htlc r ch))"
  using replies_replyTo [of htlc r ch] by (auto simp: extends_def)

abbreviation noSettle :: "queuedReply \<Rightarrow> bool" where
  "noSettle q \<equiv> action (resp q) \<noteq> ActionSettle"

lemma extends_failHtlc: "extends noSettle ch (snd (failHtlc htlc code ch))"
  by (auto simp: failHtlc_def zeroResponse_def intro!: extends_replyTo split: outcome.splits)

lemma extends_failLocal: "extends noSettle ch (snd (failLocal sx htlc ob m ch))"
  by (auto simp: failLocal_def zeroResponse_def intro!: extends_replyTo split: option.splits)

lemma snd_replied:
  "snd (case r of (Ok x, c) \<Rightarrow> (Ok None, c) | (Err e, c) \<Rightarrow> (Err e, c) | (Panic m, c) \<Rightarrow> (Panic m, c)) = snd r"
  by (auto split: prod.splits outcome.splits)

lemma extends_ProcessHtlc: "extends noSettle ch (snd (ProcessHtlc sx p htlc height ch))"
  by (simp add: ProcessHtlc_def Let_def snd_replied extends_failHtlc extends_failLocal split: option.split prod.split)

lemma extends_Run_step:
  "Run_step sx p (HtlcReceived htlc) (hgt, ch) = (res, height, ch') \<Longrightarrow> extends noSettle ch ch'"
  using extends_ProcessHtlc [of ch sx p htlc "the hgt"]
  by (auto simp: Run_step_def zeroResponse_def intro!: extends_replyTo
      split: option.splits if_splits prod.splits outcome.splits)

lemma extends_resolveHtlc:
  "extends (\<lambda>q. noSettle q \<or> incomingKey q = ihCircuitKey (mrHtlc r) \<and> (\<exists>a. res = HtlcSettleResolution (respPreimage (resp q)) a))
     ch (snd (resolveHtlc sx r res ch))"
proof (cases res)
  case (HtlcSettleResolution p a)
  then show ?thesis by (auto simp: resolveHtlc_def zeroResponse_def intro!: extends_replyTo)
next
  case (HtlcFailResolution reason)
  then show ?thesis
    using extends_failLocal [of ch sx "mrHtlc r" "mrObfuscator r"] by (auto simp: resolveHtlc_def Let_def extends_def)
qed

section \<open>Every settle comes from the registry\<close>

text \<open>Every settle that a stream of a node has queued or sent is a resolution that the registry made for it.\<close>

definition backed :: "('o streamResolver, 'c) call list \<Rightarrow> HtlcKey \<Rightarrow> preimage \<Rightarrow> bool" where
  "backed cs k p = (\<exists>r a. CallResolve r (HtlcSettleResolution p a) \<in> set cs \<and> streamKey r = k)"

definition streamOk :: "('o streamResolver, 'c) call list \<Rightarrow> pubkey \<Rightarrow> interceptorState \<Rightarrow> bool" where
  "streamOk cs node st = (\<forall>m \<in> set (outputs st). rpcAction m = ActionSettle \<longrightarrow> backed cs (rpcKey node m) (rpcPreimage m))"

definition streamsOk :: "('o streamResolver, 'c) call list \<Rightarrow> (pubkey \<Rightarrow> interceptorState list) \<Rightarrow> bool" where
  "streamsOk cs ss = (\<forall>node. \<forall>st \<in> set (ss node). streamOk cs node st)"

definition nodeInv :: "('o, 'c, 'q) nodeSystem \<Rightarrow> bool" where
  "nodeInv s = (streamsOk (calls (nsRegistry s)) (nsStreams s) \<and> (\<forall>node. nsLive s node \<longrightarrow> nsStreams s node \<noteq> []))"

lemma backed_mono: "backed cs k p \<Longrightarrow> set cs \<subseteq> set cs' \<Longrightarrow> backed cs' k p"
  unfolding backed_def by blast

lemma streamsOk_mono: "streamsOk cs ss \<Longrightarrow> set cs \<subseteq> set cs' \<Longrightarrow> streamsOk cs' ss"
  unfolding streamsOk_def streamOk_def using backed_mono by blast

lemma streamOkD:
  "streamOk cs node st \<Longrightarrow> m \<in> set (outputs st) \<Longrightarrow> rpcAction m = ActionSettle \<Longrightarrow> backed cs (rpcKey node m) (rpcPreimage m)"
  by (simp add: streamOk_def)

lemma streamOk_extends:
  assumes "streamOk cs node st" and "extends P (channel st) ch"
    and "\<And>q. P q \<Longrightarrow> action (resp q) = ActionSettle \<Longrightarrow> backed cs (rpcKey node (toRpc q)) (respPreimage (resp q))"
  shows "streamOk cs node (setChannel ch st)"
  unfolding streamOk_def
proof (intro ballI impI)
  fix m assume m: "m \<in> set (outputs (setChannel ch st))" and a: "rpcAction m = ActionSettle"
  from m consider "m \<in> set (sent st)" | q where "q \<in> set (replies ch)" and "m = toRpc q"
    by (auto simp: outputs_def setChannel_def)
  then show "backed cs (rpcKey node m) (rpcPreimage m)"
  proof cases
    case (2 q)
    then consider "m \<in> set (outputs st)" | "P q" using assms(2) by (auto simp: extends_def outputs_def)
    then show ?thesis using streamOkD [OF assms(1), of m] assms(3) [of q] 2 a by cases auto
  qed (use streamOkD [OF assms(1)] a in \<open>simp add: outputs_def\<close>)
qed

lemma streamsOk_setLast: "streamsOk cs ss \<Longrightarrow> streamOk cs node st \<Longrightarrow> streamsOk cs (setLast node st ss)"
  by (auto simp: streamsOk_def setLast_def dest: in_set_butlastD)

lemma streamsOk_deliverCall:
  assumes "streamsOk cs ss" and "c \<in> set cs"
  shows "streamsOk cs (deliverCall sx c ss)"
proof (cases c)
  case (CallResolve nr res)
  obtain n r where nr: "nr = (n, r)" by fastforce
  let ?st = "ss (mrNode r) ! n"
  have "streamOk cs (mrNode r) (setChannel (snd (resolveHtlc sx r res (channel ?st))) ?st)" if "n < length (ss (mrNode r))"
  proof (rule streamOk_extends [OF _ extends_resolveHtlc])
    show "streamOk cs (mrNode r) ?st" using assms(1) that by (auto simp: streamsOk_def)
    show "backed cs (rpcKey (mrNode r) (toRpc q)) (respPreimage (resp q))"
      if "noSettle q \<or> incomingKey q = ihCircuitKey (mrHtlc r) \<and> (\<exists>a. res = HtlcSettleResolution (respPreimage (resp q)) a)"
        "action (resp q) = ActionSettle" for q
      using that assms(2) unfolding CallResolve nr
      by (auto simp: backed_def rpcKey_def streamKey_def muxKey_def intro!: exI [of _ n] exI [of _ r])
  qed
  with assms(1) show ?thesis
    by (cases "n < length (ss (mrNode r))")
      (auto simp: deliverCall_def CallResolve nr streamsOk_def Let_def list_update_beyond
        dest!: subsetD [OF set_update_subset_insert])
qed (use assms in \<open>simp add: deliverCall_def\<close>)

lemma streamsOk_deliver: "streamsOk cs ss \<Longrightarrow> set new \<subseteq> set cs \<Longrightarrow> streamsOk cs (fold (deliverCall sx) new ss)"
  by (induction new arbitrary: ss) (auto intro: streamsOk_deliverCall)

lemma length_deliver [simp]: "length (fold (deliverCall sx) new ss node) = length (ss node)"
  by (induction new arbitrary: ss) (auto simp: deliverCall_def Let_def split: call.splits)

lemma deliver_nonempty [simp]: "fold (deliverCall sx) new ss node = [] \<longleftrightarrow> ss node = []"
  using length_deliver [of sx new ss node] by (metis length_0_conv)

lemma nodeInv_last:
  assumes "nodeInv s" and "nsLive s node"
  shows "streamOk (calls (nsRegistry s)) node (lastStream node s)"
  using assms by (auto simp: nodeInv_def streamsOk_def lastStream_def)

lemma nodeInv_muxTakes:
  assumes "nodeInv s" and "muxTakes env sx p req s = Some (htlc, res, height, ch)"
  shows "streamsOk (calls (nsRegistry s)) (setLast (muxNode p) (setChannel ch (lastStream (muxNode p) s)) (nsStreams s))"
  using assms(2)
proof (rule muxTakes_Some)
  assume live: "nsLive s (muxNode p)"
    and run: "Run_step sx p (HtlcReceived htlc) (nsHeight s (muxNode p), channel (lastStream (muxNode p) s)) = (res, height, ch)"
  from streamOk_extends [OF nodeInv_last [OF assms(1) live] extends_Run_step [OF run]]
  have "streamOk (calls (nsRegistry s)) (muxNode p) (setChannel ch (lastStream (muxNode p) s))" by simp
  with assms(1) show ?thesis by (intro streamsOk_setLast) (simp_all add: nodeInv_def)
qed

text \<open>The log of the registry only grows, so what a step delivers is in the new log.\<close>

lemma nodeInv_deliver:
  assumes "nodeInv s" and "calls r = calls (nsRegistry s) @ new"
  shows "nodeInv (deliver sx r s)"
proof -
  have "newCalls (nsRegistry s) r = new" using assms(2) by (simp add: newCalls_def)
  moreover have "streamsOk (calls r) (nsStreams s)"
    using assms streamsOk_mono [of _ "nsStreams s" "calls r"] by (auto simp: nodeInv_def)
  ultimately show ?thesis
    using assms streamsOk_deliver [of "calls r" "nsStreams s" new sx]
    by (simp add: nodeInv_def deliver_def)
qed

lemma nodeInv_processStart: "nodeInv s \<Longrightarrow> nodeInv (processStart env s)"
  by (simp add: nodeInv_def processStart_def restart_def)

lemma loop_calls:
  assumes "sysInv env streamKey hashOf (nsRegistry s)" and "offered env sx muxes hashOf s ev"
    and "invoiceEventLoop_step env inp ev (nsRegistry s) = (res, r)"
  obtains new where "calls r = calls (nsRegistry s) @ new"
proof -
  have "regInv (crypt env) streamKey hashOf (nsRegistry s)" using assms(1) by (simp add: sysInv_def)
  from goodStep_loop [OF this offered_wf [OF assms(2)] assms(3)] have "\<exists>new. calls r = calls (nsRegistry s) @ new"
    unfolding goodStep_def by (elim conjE exE) (rule exI)
  with that show thesis by blast
qed

lemma nodeInv_step:
  assumes inv: "nodeInv s" "sysInv env streamKey hashOf (nsRegistry s)" and step: "nodeStep env sx muxes hashOf s e s'"
  shows "nodeInv s'"
  using step
proof cases
  case (connect p node h st height ch)
  then have "outputs st = []" by (auto simp: start_init_def outputs_def emptyChannel_def)
  with inv(1) connect show ?thesis by (auto simp: nodeInv_def streamsOk_def streamOk_def)
next
  case (replied p node req htlc height ch)
  with nodeInv_muxTakes [OF inv(1)] inv(1) show ?thesis by (auto simp: nodeInv_def setLast_def)
next
  case (muxReturns p node req htlc e height ch)
  with nodeInv_muxTakes [OF inv(1)] inv(1) show ?thesis by (auto simp: nodeInv_def setLast_def)
next
  case (stream node sev r st)
  have "streamOk (calls (nsRegistry s)) node st"
    using nodeInv_last [OF inv(1) stream(3)] outputs_start_step [OF stream(5)] by (auto simp: streamOk_def)
  with inv(1) streamsOk_setLast stream(2) show ?thesis by (auto simp: nodeInv_def setLast_def)
next
  case (loop ev inp answer r)
  from loop_calls [OF inv(2) loop(3,5)] nodeInv_deliver [OF inv(1)] loop(2) show ?thesis by metis
next
  case (died ev inp res r n)
  from loop_calls [OF inv(2) died(3,5)] obtain new where new: "calls r = calls (nsRegistry s) @ new" .
  then have "calls (cutCalls n (nsRegistry s) r) = calls (nsRegistry s) @ take n new" by (simp add: cutCalls_def)
  from nodeInv_processStart [OF nodeInv_deliver [OF inv(1) this]] died(2) show ?thesis by simp
next
  case (subscribe sid r)
  then have "calls r = calls (nsRegistry s)" by (auto simp: SubscribeAccept_def split: prod.splits)
  with inv(1) subscribe show ?thesis by (simp add: nodeInv_def)
next
  case (final f now key settled res db)
  with inv(1) show ?thesis by (simp add: nodeInv_def)
qed

interpretation daemon: inv_system "\<lambda>s. s = emptySystem env" "nodeStep env sx muxes hashOf"
    "\<lambda>s. nodeInv s \<and> sysInv env streamKey hashOf (nsRegistry s)"
  for env :: "'q registryEnv" and sx :: "('i, 'o) sphinxOps" and muxes hashOf
proof
  show "nodeInv s \<and> sysInv env streamKey hashOf (nsRegistry s)" if "s = emptySystem env" for s
    using that sysInv_init [of env streamKey hashOf] by (simp add: nodeInv_def emptySystem_def streamsOk_def)
  show "nodeInv t \<and> sysInv env streamKey hashOf (nsRegistry t)"
    if "nodeInv s \<and> sysInv env streamKey hashOf (nsRegistry s)" "nodeStep env sx muxes hashOf s e t" for s e t
    using that nodeInv_step nodeStep_sys [OF that(2)] sysInv_step by metis
qed

section \<open>The preimage on the wire\<close>

text \<open>
  C1: no node ever receives a preimage that the database does not back. In every state that the daemon
  reaches, over all reconnections of the nodes, failing database statements and deaths of the process,
  a settle that was sent to a node, or waits in a queue to be sent, is for an HTLC of that node which
  the database holds under an invoice with exactly the preimage that was sent, and this preimage
  hashes to the payment hash of the HTLC.
\<close>

theorem node_settles_only_recorded:
  assumes "nodeReach env sx muxes hashOf s" and "st \<in> set (nsStreams s node)"
    and "m \<in> set (outputs st)" and "rpcAction m = ActionSettle"
  shows "\<exists>x i. findHtlc (rpcKey node m) (cdb (nsRegistry s)) = Some x \<and>
    findInvoice (dhHash x) (cdb (nsRegistry s)) = Some i \<and> diPreimage i = rpcPreimage m \<and>
    preimageHash (crypt env) (rpcPreimage m) = dhHash x \<and> dhHash x = hashOf (rpcKey node m)"
proof -
  from daemon.reach_inv [OF assms(1)] assms(2-) have "backed (calls (nsRegistry s)) (rpcKey node m) (rpcPreimage m)"
    by (auto simp: nodeInv_def streamsOk_def streamOk_def)
  then obtain r a where "CallResolve r (HtlcSettleResolution (rpcPreimage m) a) \<in> set (calls (nsRegistry s))"
    and k: "streamKey r = rpcKey node m" by (auto simp: backed_def)
  from settled_call_recorded [OF nodeReach_sys [OF assms(1)] this(1)] k show ?thesis by force
qed

section \<open>Redelivery\<close>

lemma lastStream_deliver:
  assumes "nsStreams s node \<noteq> []" and "mrNode r = node" and "calls reg = calls (nsRegistry s) @ [CallResolve (length (nsStreams s node) - 1, r) res]"
  shows "lastStream node (deliver sx reg s) =
    setChannel (snd (resolveHtlc sx r res (channel (lastStream node s)))) (lastStream node s)"
  using assms by (simp add: lastStream_def deliver_def newCalls_def deliverCall_def Let_def last_conv_nth)

lemma outputs_settle:
  assumes "\<not> replyChanClosed (channel st)" and "length (replies (channel st)) < resolutionQueueSize"
  shows "\<exists>m. outputs (setChannel (snd (resolveHtlc sx r (HtlcSettleResolution p a) (channel st))) st) = outputs st @ [m] \<and>
    rpcAction m = ActionSettle \<and> rpcPreimage m = p \<and> rpcKey (mrNode r) m = muxKey r"
  using assms
  by (simp add: outputs_def setChannel_def resolveHtlc_def replyTo_def reply_def rpcKey_def muxKey_def zeroResponse_def)


end
