(* ===== verification/Multi_Part.thy ===== *)
theory Multi_Part
  imports Payment_System Registry_Requests
begin

text \<open>
  A payment in several parts: the registry holds every part silently until the amount of the invoice is
  reached, and then, in auto-settle mode, settles all of them. The parts may come through the
  multiplexers of different nodes; each node gets exactly the settles of its own parts.
\<close>

section \<open>The parts of a payment\<close>

definition natPaid :: "'r registryHtlc list \<Rightarrow> nat" where
  "natPaid hs = sum_list (map (unat \<circ> amtPaid) hs)"

definition partSet :: "bytes \<Rightarrow> statelessData \<Rightarrow> 'r registryHtlc list \<Rightarrow> htlcSetImpl" where
  "partSet addr sd hs =
     \<lparr>params = \<lparr>setPreimage = sdPreimage sd, setValue = sdAmtMsat sd, setPaymentAddr = addr\<rparr>,
      htlcs = map (\<lambda>h. (circuitKey h, amtPaid h)) hs\<rparr>"

text \<open>A part names the payment address and the total of the invoice, and leaves enough blocks.\<close>

definition isPart :: "'q registryEnv \<Rightarrow> hash \<Rightarrow> bytes \<Rightarrow> u64 \<Rightarrow> 'r registryHtlc \<Rightarrow> bool" where
  "isPart env hash addr amt h =
     (rHash h = hash \<and> multiPath h = Some \<lparr>mppPaymentAddr = addr, mppTotalMsat = amt\<rparr> \<and> amtPaid h \<noteq> 0 \<and>
      currentHeight h + FinalCltvRejectDelta (cfg env) \<le> htlcExpiry h)"

text \<open>The address decodes to an invoice that is neither expired nor stored, and the database answers.\<close>

definition payable ::
    "'q registryEnv \<Rightarrow> inputs \<Rightarrow> hash \<Rightarrow> bytes \<Rightarrow> statelessData \<Rightarrow> ('r, 'c, 'q) InvoiceRegistry \<Rightarrow> bool" where
  "payable env inp hash addr sd s =
     (decodeStatelessData (crypt env) (PrivKey (cfg env)) addr = Ok sd \<and> preimageHash (crypt env) (sdPreimage sd) = hash \<and>
      nowExpiry inp \<le> sdExpiry sd \<and> getFaults inp = noFaults \<and> findInvoice hash (cdb s) = None \<and>
      (AutoSettle (cfg env) \<or> hasRecentSubscribers (nowSubscribers inp) (subscriptions s)))"

text \<open>The second state holds the parts, in addition to what the first one held.\<close>

definition holdsParts ::
    "hash \<Rightarrow> bytes \<Rightarrow> statelessData \<Rightarrow> 'r registryHtlc list \<Rightarrow> ('r, 'c, 'q) InvoiceRegistry \<Rightarrow> ('r, 'c, 'q) InvoiceRegistry \<Rightarrow> bool" where
  "holdsParts hash addr sd hs s s' =
     (gm_get (sets s') hash = (if hs = [] then None else Some (partSet addr sd hs)) \<and>
      calls s' = calls s \<and> cdb s' = cdb s \<and> subscriptions s' = subscriptions s \<and>
      (\<forall>k. subsOf s' k = subsOf s k @ map resolve (filter (\<lambda>h. circuitKey h = k) hs)))"

lemma unat_partSet: "natPaid hs < 2 ^ 64 \<Longrightarrow> unat (totalSetAmt (partSet addr sd hs)) = natPaid hs"
proof (induction hs)
  case (Cons h hs)
  then show ?case by (simp add: natPaid_def totalSetAmt_def partSet_def unat_word_ariths comp_def)
qed (simp add: natPaid_def totalSetAmt_def partSet_def)

lemma natPaid_snoc: "natPaid (hs @ [h]) = natPaid hs + unat (amtPaid h)"
  by (simp add: natPaid_def)

lemma nextSet_parts:
  assumes "gm_get (sets s') hash = (if hs = [] then None else Some (partSet addr sd hs))" and "isPart env hash addr amt h"
  shows "nextSet h \<lparr>mppPaymentAddr = addr, mppTotalMsat = amt\<rparr> sd (gm_get (sets s') (rHash h)) = partSet addr sd (hs @ [h])"
  using assms by (cases "hs = []") (simp_all add: nextSet_def partSet_def isPart_def)

lemma part_admitted:
  assumes held: "holdsParts hash addr sd hs s s'" and pay: "payable env inp hash addr sd s"
    and part: "isPart env hash addr (sdAmtMsat sd) h" and fresh: "circuitKey h \<notin> circuitKey ` set hs"
    and amt: "natPaid (hs @ [h]) \<le> unat (sdAmtMsat sd)"
  shows "admitted env inp h \<lparr>mppPaymentAddr = addr, mppTotalMsat = sdAmtMsat sd\<rparr> sd s'"
proof -
  have set: "gm_get (sets s') (rHash h) = (if hs = [] then None else Some (partSet addr sd hs))"
    using held part by (simp add: holdsParts_def isPart_def)
  have lt: "natPaid (hs @ [h]) < 2 ^ 64" using amt unsigned_less [of "sdAmtMsat sd", where 'a = nat] by simp
  have "setTotalOf (gm_get (sets s') (rHash h)) + amtPaid h = totalSetAmt (partSet addr sd (hs @ [h]))"
    using nextSet_parts [of s' hash hs addr sd env "sdAmtMsat sd" h] held part nextSet_total [of h _ sd]
    unfolding holdsParts_def by metis
  then have "unat (setTotalOf (gm_get (sets s') (rHash h)) + amtPaid h) = natPaid (hs @ [h])" using unat_partSet [OF lt] by simp
  then have "setTotalOf (gm_get (sets s') (rHash h)) + amtPaid h \<le> sdAmtMsat sd" using amt by (simp add: word_le_nat_alt)
  moreover have "sdAmtMsat sd \<noteq> 0" using amt part by (auto simp: natPaid_snoc isPart_def unat_eq_0)
  moreover have "circuitKey h \<notin> keysOf (gm_get (sets s') (rHash h))"
    using fresh by (auto simp: set keysOf_def partSet_def gm_keys_def)
  ultimately show ?thesis
    using held pay part by (simp add: admitted_def payable_def isPart_def holdsParts_def)
qed

section \<open>Holding the parts\<close>

lemma subsOf_unchanged [simp]:
  "subsOf (startHtlcTimer env hash key t s) k = subsOf s k" "subsOf (startAcceptTimer env t hash s) k = subsOf s k"
  "subsOf (s\<lparr>sets := sts\<rparr>) k = subsOf s k" "subsOf (s\<lparr>cdb := db\<rparr>) k = subsOf s k" "subsOf (s\<lparr>calls := cs\<rparr>) k = subsOf s k"
  by (simp_all add: subsOf_def startHtlcTimer_def startAcceptTimer_def)

lemma hold_part:
  assumes held: "holdsParts hash addr sd hs s s'" and pay: "payable env inp hash addr sd s" and db: "db_inv (crypt env) (cdb s)"
    and part: "isPart env hash addr (sdAmtMsat sd) h" and fresh: "circuitKey h \<notin> circuitKey ` set hs"
    and amt: "natPaid (hs @ [h]) < unat (sdAmtMsat sd)"
  shows "\<exists>s''. process env inp h s' = (Ok (), s'') \<and> holdsParts hash addr sd (hs @ [h]) s s''"
proof -
  let ?st = "partSet addr sd (hs @ [h])" and ?mpp = "\<lparr>mppPaymentAddr = addr, mppTotalMsat = sdAmtMsat sd\<rparr>"
  have cdb: "cdb s' = cdb s" and hash: "rHash h = hash" using held part by (simp_all add: holdsParts_def isPart_def)
  have st: "nextSet h ?mpp sd (gm_get (sets s') (rHash h)) = ?st" using held part by (intro nextSet_parts) (auto simp: holdsParts_def)
  have "process env inp h s' = processAccepted env inp h sd ?st (s'\<lparr>sets := gm_put hash ?st (sets s')\<rparr>)"
    using process_admitted [OF _ _ _ part_admitted [OF held pay part fresh]] pay db cdb hash amt st by (simp add: payable_def)
  moreover have "unat (totalSetAmt ?st) \<noteq> unat (sdAmtMsat sd)"
    using amt unat_partSet [of "hs @ [h]" addr sd] unsigned_less [of "sdAmtMsat sd", where 'a = nat] by simp
  then have "isComplete (crypt env) ?st = None" by (auto simp: isComplete_def partSet_def)
  ultimately have "process env inp h s' = (Ok (), startHtlcTimer env hash (circuitKey h) (releaseTimeOf env inp sd)
      (hodlSubscribe (resolve h) (circuitKey h) (s'\<lparr>sets := gm_put hash ?st (sets s')\<rparr>)))" (is "_ = (Ok (), ?s'')")
    by (auto simp: processAccepted_def releaseTimeOf_def min_def Let_def hash)
  moreover have "holdsParts hash addr sd (hs @ [h]) s ?s''"
    using held by (auto simp: holdsParts_def subsOf_hodl) (auto simp: startHtlcTimer_def hodlSubscribe_def Let_def)
  ultimately show ?thesis by blast
qed

section \<open>Settling the parts\<close>

lemma sint_part: "x \<noteq> 0 \<Longrightarrow> unat x \<le> unat w \<Longrightarrow> 0 < sint w \<Longrightarrow> 0 < sint x" for w x :: u64
proof -
  assume a: "x \<noteq> 0" "unat x \<le> unat w" "0 < sint w"
  then have "unat x < 2 ^ 63" using sint_nonneg_bound [of w] by linarith
  then have "sint x = int (unat x)" by (rule sint_small)
  with a(1) show "0 < sint x" by (metis of_nat_0_less_iff unat_gt_0)
qed

lemma part_bound: "h \<in> set hs \<Longrightarrow> unat (amtPaid h) \<le> natPaid hs"
  by (simp add: natPaid_def member_le_sum_list)

lemma resolutions_parts:
  assumes "distinct (map circuitKey hs)" and "\<And>k. k \<in> circuitKey ` set hs \<Longrightarrow> subsOf s k = map resolve (filter (\<lambda>h. circuitKey h = k) hs)"
  shows "resolutions res s (map circuitKey hs) = map (\<lambda>h. CallResolve (resolve h) res) hs"
proof -
  have "filter (\<lambda>x. circuitKey x = circuitKey h) hs = [h]" if "h \<in> set hs" for h
    using assms(1) that
  proof (induction hs)
    case (Cons x hs)
    have none: "filter (\<lambda>y. circuitKey y = circuitKey x) hs = []"
      using Cons.prems(1) by (auto simp: filter_empty_conv image_iff)
    show ?case using Cons none by (cases "h = x") (auto simp: image_iff)
  qed simp
  then have "map (\<lambda>k. map (\<lambda>r. CallResolve r res) (subsOf s k)) (map circuitKey hs) = map (\<lambda>h. [CallResolve (resolve h) res]) hs"
    using assms(2) by simp
  then have "resolutions res s (map circuitKey hs) = concat (map (\<lambda>h. [CallResolve (resolve h) res]) hs)"
    unfolding resolutions_def by (rule arg_cong)
  then show ?thesis by (simp only: concat_map_singleton)
qed

lemma settle_parts:
  fixes s :: "('r, 'c, 'q) InvoiceRegistry" and hs :: "'r registryHtlc list"
  assumes held: "holdsParts hash addr sd hs s s'" and pay: "payable env inp hash addr sd s"
    and inv: "regInv (crypt env) keyOf hashOf s'" and distinct: "distinct (map circuitKey (hs @ [h]))"
    and parts: "\<And>x. x \<in> set (hs @ [h]) \<Longrightarrow> isPart env hash addr (sdAmtMsat sd) x \<and> length (Node (circuitKey x)) = 33 \<and> subsOf s (circuitKey x) = []"
    and wf: "wfHtlc keyOf hashOf h" and amt: "natPaid (hs @ [h]) = unat (sdAmtMsat sd)" "0 < sint (sdAmtMsat sd)"
    and len: "length (sdPreimage sd) = 32" "length hash = 32" and auto: "AutoSettle (cfg env)" "settleFaults inp = noFaults"
  shows "\<exists>s'' setID. process env inp h s' = (Ok (), s'') \<and> calls s'' = calls s @ announced h setID s @
    map (\<lambda>x. CallResolve (resolve x) (HtlcSettleResolution (sdPreimage sd) ResultSettled)) (hs @ [h])"
proof -
  let ?st = "partSet addr sd (hs @ [h])" and ?mpp = "\<lparr>mppPaymentAddr = addr, mppTotalMsat = sdAmtMsat sd\<rparr>"
  let ?s = "s'\<lparr>sets := gm_put hash ?st (sets s')\<rparr>"
  have part: "isPart env hash addr (sdAmtMsat sd) h" and fresh: "circuitKey h \<notin> circuitKey ` set hs" using parts distinct by simp_all
  have cdb: "cdb s' = cdb s" and hash: "rHash h = hash" using held part by (simp_all add: holdsParts_def isPart_def)
  have st: "nextSet h ?mpp sd (gm_get (sets s') (rHash h)) = ?st" using held part by (intro nextSet_parts) (auto simp: holdsParts_def)
  note adm = part_admitted [OF held pay part fresh, OF amt(1) [THEN eq_refl]]
  have dbi: "db_inv (crypt env) (cdb s)" using inv cdb by (simp add: regInv_def storeInv_def)
  obtain r s'' where r: "process env inp h s' = (r, s'')" by fastforce
  then have acc: "processAccepted env inp h sd ?st ?s = (r, s'')"
    using process_admitted [OF _ _ _ adm] pay dbi cdb hash st by (simp add: payable_def)
  have keys: "gm_keys (htlcs ?st) = map circuitKey (hs @ [h])" by (simp add: partSet_def gm_keys_def comp_def)
  have ws: "wf_set (crypt env) hash ?st"
    using pay distinct by (auto simp: wf_set_def setHash_def partSet_def gm_wf_def gm_keys_def payable_def comp_def)
  have total: "totalSetAmt ?st = sdAmtMsat sd"
    using unat_partSet [of "hs @ [h]" addr sd] amt(1) unsigned_less [of "sdAmtMsat sd", where 'a = nat] by (simp add: word_unat_eq_iff)
  have "storable ?st"
    using parts amt len part_bound [of _ "hs @ [h]"] sint_part [of _ "sdAmtMsat sd"]
    by (fastforce simp: storable_def partSet_def isPart_def)
  moreover have "regInv (crypt env) keyOf hashOf (hodlSubscribe (resolve h) (circuitKey h) ?s)"
    using inv wf fresh ws pay cdb hash held keys memInv_added [of "crypt env" keyOf hashOf s' "resolve h" hash ?st]
    by (auto simp: regInv_def wfHtlc_def payable_def holdsParts_def keysOf_def partSet_def gm_keys_def)
  ultimately have ins: "invoiceInsertable (crypt env) (settleData ?st) (cdb s)" "htlcsInsertable (htlcs ?st) (cdb s)"
    using storable_insertable [of "crypt env" keyOf hashOf "hodlSubscribe (resolve h) (circuitKey h) ?s" hash ?st] cdb len by simp_all
  then have ok: "RequestSettle (crypt env) (settleFaults inp) (nowSettle inp) (settleData ?st) (htlcs ?st) (cdb ?s) =
      (Ok (), settledDb (crypt env) (nowSettle inp) (settleData ?st) (htlcs ?st) (cdb s))" by (simp add: auto(2) RequestSettle_Ok cdb)
  have complete: "isComplete (crypt env) ?st \<noteq> None" using total by (simp add: isComplete_def) (simp add: partSet_def)
  have "gm_get (sets ?s) (rHash h) = Some ?st" "wf_set (crypt env) (rHash h) ?st" using ws hash by simp_all
  with acc have "\<exists>setID. r = Ok () \<and> calls s'' = calls s @ announced h setID s @
    map (\<lambda>x. CallResolve (resolve x) (HtlcSettleResolution (sdPreimage sd) ResultSettled)) (hs @ [h])"
  proof (cases rule: processAccepted_cases)
    case (settled setID db')
    let ?a = "(acceptState env inp h setID ?s)\<lparr>cdb := db'\<rparr>" and ?res = "HtlcSettleResolution (sdPreimage sd) ResultSettled"
    have sub: "subsOf ?a k = subsOf s k @ map resolve (filter (\<lambda>x. circuitKey x = k) (hs @ [h]))" for k
      using held by (simp add: holdsParts_def acceptState_def Let_def subsOf_hodl)
    have "resolutions ?res ?a (map circuitKey (hs @ [h])) = map (\<lambda>x. CallResolve (resolve x) ?res) (hs @ [h])"
    proof (rule resolutions_parts [OF distinct])
      show "subsOf ?a k = map resolve (filter (\<lambda>x. circuitKey x = k) (hs @ [h]))" if "k \<in> circuitKey ` set (hs @ [h])" for k
        unfolding sub using that parts by auto
    qed
    moreover have "calls ?a = calls s @ announced h setID s"
      using held by (simp add: holdsParts_def acceptState_def Let_def announced_def startAcceptTimer_def)
    moreover have "calls s'' = calls ?a @ resolutions ?res ?a (map circuitKey (hs @ [h]))"
      unfolding settled(5) releasedState_def keys by (simp add: partSet_def)
    ultimately show ?thesis using settled(1) by (intro exI [of _ setID]) (simp del: map_append)
  qed (use complete ok auto(1) in simp_all)
  with r show ?thesis by blast
qed

section \<open>The nodes\<close>

text \<open>A part as a node offers it: the multiplexer that takes it, the request, and the HTLC of which the registry is notified.\<close>

record 'o part =
  partMux :: Mux
  partRequest :: rpcInterceptRequest
  partHtlc :: "'o muxResolver registryHtlc"

definition partStream :: "('o, 'c, 'q) nodeSystem \<Rightarrow> 'o part \<Rightarrow> 'o streamResolver registryHtlc" where
  "partStream s pt = bindStream (length (nsStreams s (muxNode (partMux pt))) - 1) (partHtlc pt)"

definition partEvent :: "('o, 'c, 'q) nodeSystem \<Rightarrow> 'o part \<Rightarrow> ('o streamResolver, 'c) nodeEvent" where
  "partEvent s pt = NodeSys (SysLoop (NewHtlc (partStream s pt)) None)"

text \<open>The multiplexer takes the part, whose key has the hash of the part.\<close>

definition offersPart ::
    "'q registryEnv \<Rightarrow> ('i, 'o) sphinxOps \<Rightarrow> Mux list \<Rightarrow> (HtlcKey \<Rightarrow> hash) \<Rightarrow> ('o, 'c, 'q) nodeSystem \<Rightarrow> 'o part \<Rightarrow> bool" where
  "offersPart env sx muxes hashOf s pt =
     (partMux pt \<in> set muxes \<and>
      (\<exists>htlc height ch. muxTakes env sx (partMux pt) (partRequest pt) s = Some (htlc, MuxContinue (Some (partHtlc pt)), height, ch)) \<and>
      rHash (partHtlc pt) = hashOf (circuitKey (partHtlc pt)))"

lemma muxTakes_unchanged: "muxTakes env sx p req (s\<lparr>nsRegistry := r\<rparr>) = muxTakes env sx p req s"
  by (auto simp: muxTakes_def lastStream_def split: outcome.split)

lemma offersPart_unchanged [simp]: "offersPart env sx muxes hashOf (s\<lparr>nsRegistry := r\<rparr>) pt = offersPart env sx muxes hashOf s pt"
  by (simp add: offersPart_def muxTakes_unchanged)

lemma partStream_unchanged [simp]: "partStream (s\<lparr>nsRegistry := r\<rparr>) pt = partStream s pt"
  "partEvent (s\<lparr>nsRegistry := r\<rparr>) pt = partEvent s pt"
  by (simp_all add: partStream_def partEvent_def)

lemma partStream_sel [simp]:
  "circuitKey (partStream s pt) = circuitKey (partHtlc pt)" "amtPaid (partStream s pt) = amtPaid (partHtlc pt)"
  "isPart env hash addr amt (partStream s pt) = isPart env hash addr amt (partHtlc pt)"
  "resolve (partStream s pt) = (length (nsStreams s (muxNode (partMux pt))) - 1, resolve (partHtlc pt))"
  by (simp_all add: partStream_def bindStream_def isPart_def)

lemma natPaid_parts [simp]: "natPaid (map (partStream s) pts) = natPaid (map partHtlc pts)"
  by (simp add: natPaid_def comp_def)

lemma offersPart_key:
  assumes "offersPart env sx muxes hashOf s pt"
  shows "muxKey (resolve (partHtlc pt)) = circuitKey (partHtlc pt)" "mrNode (resolve (partHtlc pt)) = muxNode (partMux pt)"
    "Node (circuitKey (partHtlc pt)) = muxNode (partMux pt)" "nsLive s (muxNode (partMux pt))"
proof -
  from assms obtain htlc height ch where
    "muxTakes env sx (partMux pt) (partRequest pt) s = Some (htlc, MuxContinue (Some (partHtlc pt)), height, ch)"
    unfolding offersPart_def by blast
  then show "muxKey (resolve (partHtlc pt)) = circuitKey (partHtlc pt)" and "mrNode (resolve (partHtlc pt)) = muxNode (partMux pt)"
    and "nsLive s (muxNode (partMux pt))" by (auto elim!: muxTakes_Some dest: Run_step_notified)
  then show "Node (circuitKey (partHtlc pt)) = muxNode (partMux pt)" by (metis HtlcKey.sel(1) muxKey_def)
qed

lemma offersPart_offered: "offersPart env sx muxes hashOf s pt \<Longrightarrow> offered env sx muxes hashOf s (NewHtlc (partStream s pt))"
  unfolding offersPart_def partStream_def by (blast intro: offered.notified)

lemma part_step:
  assumes "offersPart env sx muxes hashOf s pt" and "process env inp (partStream s pt) (nsRegistry s) = (Ok (), r)"
  shows "nodeStep env sx muxes hashOf s (partEvent s pt) (deliver sx r s)"
  unfolding partEvent_def
  by (rule nodeStep.loop [OF offersPart_offered [OF assms(1)], where inp = inp]) (simp_all add: canReceive_def assms(2))

lemma deliver_silent: "calls r = calls (nsRegistry s) \<Longrightarrow> deliver sx r s = s\<lparr>nsRegistry := r\<rparr>"
  by (simp add: deliver_def newCalls_def)

lemma hold_run:
  assumes "payable env inp hash addr sd (nsRegistry s)" and "db_inv (crypt env) (cdb (nsRegistry s))"
    and "gm_get (sets (nsRegistry s)) hash = None" and "distinct (map (circuitKey \<circ> partHtlc) pts)"
    and "\<And>pt. pt \<in> set pts \<Longrightarrow> offersPart env sx muxes hashOf s pt \<and> isPart env hash addr (sdAmtMsat sd) (partHtlc pt)"
    and "natPaid (map partHtlc pts) < unat (sdAmtMsat sd)"
  shows "\<exists>r. run (nodeStep env sx muxes hashOf) s (map (partEvent s) pts) (s\<lparr>nsRegistry := r\<rparr>) \<and>
    holdsParts hash addr sd (map (partStream s) pts) (nsRegistry s) r"
  using assms(4-6)
proof (induction pts rule: rev_induct)
  case Nil
  have "holdsParts hash addr sd [] (nsRegistry s) (nsRegistry s)" using assms(3) by (simp add: holdsParts_def)
  then show ?case using run_nil [of "nodeStep env sx muxes hashOf" s] by (intro exI [of _ "nsRegistry s"]) simp
next
  case (snoc pt pts)
  have "natPaid (map partHtlc pts) < unat (sdAmtMsat sd)" using snoc.prems(3) by (simp add: natPaid_snoc)
  with snoc.IH snoc.prems(1,2) obtain r where run: "run (nodeStep env sx muxes hashOf) s (map (partEvent s) pts) (s\<lparr>nsRegistry := r\<rparr>)"
    and held: "holdsParts hash addr sd (map (partStream s) pts) (nsRegistry s) r" by auto
  have "natPaid (map (partStream s) pts @ [partStream s pt]) < unat (sdAmtMsat sd)" using snoc.prems(3) by (simp add: natPaid_snoc)
  with hold_part [OF held assms(1,2), of "partStream s pt"] snoc.prems obtain r' where
    r': "process env inp (partStream s pt) r = (Ok (), r')" "holdsParts hash addr sd (map (partStream s) (pts @ [pt])) (nsRegistry s) r'"
    by (auto simp: image_comp)
  have "nodeStep env sx muxes hashOf (s\<lparr>nsRegistry := r\<rparr>) (partEvent s pt) (deliver sx r' (s\<lparr>nsRegistry := r\<rparr>))"
    using part_step [of env sx muxes hashOf "s\<lparr>nsRegistry := r\<rparr>" pt inp r'] r'(1) snoc.prems(2) by simp
  moreover have "deliver sx r' (s\<lparr>nsRegistry := r\<rparr>) = s\<lparr>nsRegistry := r'\<rparr>"
    using held r'(2) by (simp add: deliver_silent holdsParts_def)
  ultimately show ?case using run r'(2) by (auto intro: run_snoc)
qed

section \<open>The settles on the wire\<close>

definition settleMessage :: "preimage \<Rightarrow> 'o muxResolver \<Rightarrow> rpcInterceptResponse" where
  "settleMessage p r = \<lparr>rpcChanId = ckChanID (ihCircuitKey (mrHtlc r)), rpcHtlcId = ckHtlcID (ihCircuitKey (mrHtlc r)),
     rpcAction = ActionSettle, rpcPreimage = p, rpcFailureMessage = [], rpcFailureCode = FailureReserved\<rparr>"

definition hasRoom :: "nat \<Rightarrow> interceptorState list \<Rightarrow> bool" where
  "hasRoom n ss = (ss \<noteq> [] \<and> \<not> replyChanClosed (channel (last ss)) \<and> length (replies (channel (last ss))) + n \<le> resolutionQueueSize)"

lemma deliver_settle:
  assumes c: "c = (CallResolve (length (ss (mrNode r)) - 1, r) (HtlcSettleResolution p a) :: ('o streamResolver, 'c) call)"
    and room: "hasRoom (Suc n) (ss (mrNode r))"
  shows "outputs (last (deliverCall sx c ss (mrNode r))) = outputs (last (ss (mrNode r))) @ [settleMessage p r]"
    and "hasRoom n (deliverCall sx c ss (mrNode r))"
proof -
  let ?ss = "ss (mrNode r)"
  have last: "?ss ! (length ?ss - 1) = last ?ss" and ne: "?ss \<noteq> []" using room by (simp_all add: hasRoom_def last_conv_nth)
  have "deliverCall sx c ss (mrNode r) =
      ?ss[length ?ss - 1 := setChannel (snd (resolveHtlc sx r (HtlcSettleResolution p a) (channel (last ?ss)))) (last ?ss)]"
    unfolding deliverCall_def c last [symmetric] by (simp add: Let_def)
  then have "last (deliverCall sx c ss (mrNode r)) = setChannel (snd (resolveHtlc sx r (HtlcSettleResolution p a) (channel (last ?ss)))) (last ?ss)"
    and "deliverCall sx c ss (mrNode r) \<noteq> []" using ne by (simp_all add: last_list_update)
  with room show "outputs (last (deliverCall sx c ss (mrNode r))) = outputs (last ?ss) @ [settleMessage p r]"
    and "hasRoom n (deliverCall sx c ss (mrNode r))"
    by (simp_all add: hasRoom_def setChannel_def resolveHtlc_def replyTo_def reply_def outputs_def settleMessage_def toRpc_def zeroResponse_def)
qed

lemma deliver_settles:
  fixes call :: "'o muxResolver \<Rightarrow> ('o streamResolver, 'c) call"
  assumes "\<And>r. r \<in> set rs \<Longrightarrow> hasRoom (length rs) (ss (mrNode r))"
    and "\<And>r. r \<in> set rs \<Longrightarrow> call r = CallResolve (length (ss (mrNode r)) - 1, r) (HtlcSettleResolution p a)"
  shows "outputs (last (fold (deliverCall sx) (map call rs) ss node)) =
    outputs (last (ss node)) @ map (settleMessage p) (filter (\<lambda>r. mrNode r = node) rs)"
  using assms
proof (induction rs arbitrary: ss)
  case (Cons r rs)
  let ?ss = "deliverCall sx (call r) ss"
  have call: "call r = CallResolve (length (ss (mrNode r)) - 1, r) (HtlcSettleResolution p a)" using Cons.prems(2) by simp
  have other: "?ss n = ss n" if "n \<noteq> mrNode r" for n using that by (simp add: deliverCall_def call Let_def)
  have len: "length (?ss n) = length (ss n)" for n by (simp add: deliverCall_def call Let_def)
  note room = deliver_settle [where ss = ss, OF call Cons.prems(1) [of r, simplified], of sx]
  have "hasRoom (length rs) (?ss (mrNode x))" if "x \<in> set rs" for x
    using room(2) other [of "mrNode x"] Cons.prems(1) [of x] that by (cases "mrNode x = mrNode r") (auto simp: hasRoom_def)
  moreover have "call x = CallResolve (length (?ss (mrNode x)) - 1, x) (HtlcSettleResolution p a)" if "x \<in> set rs" for x
    using Cons.prems(2) [of x] that len by simp
  ultimately have "outputs (last (fold (deliverCall sx) (map call rs) ?ss node)) =
      outputs (last (?ss node)) @ map (settleMessage p) (filter (\<lambda>r. mrNode r = node) rs)" by (rule Cons.IH)
  then show ?case using room(1) other [of node] by (cases "mrNode r = node") auto
qed simp

lemma deliver_accepts: "\<forall>c \<in> set cs. \<exists>cb x i. c = CallAccept cb x i \<Longrightarrow> fold (deliverCall sx) cs ss = ss"
  by (induction cs) (auto simp: deliverCall_def)

text \<open>What a payment in parts has to satisfy in the state in which it starts.\<close>

definition paidInParts ::
    "'q registryEnv \<Rightarrow> ('i, 'o) sphinxOps \<Rightarrow> Mux list \<Rightarrow> (HtlcKey \<Rightarrow> hash) \<Rightarrow> hash \<Rightarrow> bytes \<Rightarrow> u64 \<Rightarrow> ('o, 'c, 'q) nodeSystem \<Rightarrow> 'o part list \<Rightarrow> bool" where
  "paidInParts env sx muxes hashOf hash addr amt s pts =
     (distinct (map (circuitKey \<circ> partHtlc) pts) \<and> natPaid (map partHtlc pts) = unat amt \<and>
      (\<forall>pt \<in> set pts. offersPart env sx muxes hashOf s pt \<and> isPart env hash addr amt (partHtlc pt) \<and>
         hasRoom (length pts) (nsStreams s (muxNode (partMux pt)))))"

lemma parts_settled:
  fixes s :: "('o, 'c, 'q) nodeSystem"
  assumes reach: "nodeReach env sx muxes hashOf s" and pay: "payable env inp hash addr sd (nsRegistry s)"
    and none: "setsGet (sets (nsRegistry s)) hash = None" and parts: "paidInParts env sx muxes hashOf hash addr (sdAmtMsat sd) s pts"
    and amt: "0 < sint (sdAmtMsat sd)" and len: "length (sdPreimage sd) = 32" "length hash = 32"
    and auto: "AutoSettle (cfg env)" "settleFaults inp = noFaults" and node: "\<And>p. p \<in> set muxes \<Longrightarrow> length (muxNode p) = 33"
  shows "\<exists>s'. run (nodeStep env sx muxes hashOf) s (map (partEvent s) pts) s' \<and>
    (\<forall>node. outputs (lastStream node s') = outputs (lastStream node s) @
       map (settleMessage (sdPreimage sd) \<circ> resolve \<circ> partHtlc) (filter (\<lambda>pt. muxNode (partMux pt) = node) pts))"
proof -
  have "pts \<noteq> []" using parts amt by (auto simp: paidInParts_def natPaid_def unat_eq_0)
  then obtain hs pt where pts: "pts = hs @ [pt]" by (metis rev_exhaust)
  have inv: "regInv (crypt env) streamKey hashOf (nsRegistry s)" using daemon.reach_inv [OF reach] by (simp add: sysInv_def)
  then have dbi: "db_inv (crypt env) (cdb (nsRegistry s))" and mem: "memInv (crypt env) streamKey hashOf (nsRegistry s)"
    by (auto simp: regInv_def storeInv_def)
  have part: "offersPart env sx muxes hashOf s x" "isPart env hash addr (sdAmtMsat sd) (partHtlc x)"
    "hasRoom (length pts) (nsStreams s (muxNode (partMux x)))" if "x \<in> set pts" for x using parts that by (auto simp: paidInParts_def)
  have "0 < unat (amtPaid (partHtlc pt))" using part(2) [of pt] by (simp add: pts isPart_def unat_gt_0)
  then have "natPaid (map partHtlc hs) < unat (sdAmtMsat sd)" using parts by (simp add: paidInParts_def pts natPaid_snoc)
  moreover have "gm_get (sets (nsRegistry s)) hash = None" using none by (simp add: setsGet_def)
  ultimately obtain r where run: "run (nodeStep env sx muxes hashOf) s (map (partEvent s) hs) (s\<lparr>nsRegistry := r\<rparr>)"
    and held: "holdsParts hash addr sd (map (partStream s) hs) (nsRegistry s) r"
    using hold_run [OF pay dbi, of hs sx muxes hashOf] part parts by (auto simp: paidInParts_def pts)
  have inv': "regInv (crypt env) streamKey hashOf r"
    using daemon.reach_inv [OF run_reach [OF run reach]] by (simp add: sysInv_def)
  have wf: "wfHtlc streamKey hashOf (partStream s pt)" using offered_wf [OF offersPart_offered [OF part(1)]] by (simp add: pts)
  have facts: "isPart env hash addr (sdAmtMsat sd) (partStream s x) \<and> length (Node (circuitKey (partStream s x))) = 33 \<and>
      subsOf (nsRegistry s) (circuitKey (partStream s x)) = []" if "x \<in> set pts" for x
  proof -
    have "hashOf (circuitKey (partHtlc x)) = hash" "length (muxNode (partMux x)) = 33"
      using part(1,2) [OF that] node by (auto simp: offersPart_def isPart_def)
    then show ?thesis
      using memInv_held [OF mem, of "circuitKey (partHtlc x)"] none part(2) [OF that] offersPart_key(3) [OF part(1) [OF that]]
      by (simp add: heldIn_def setsGet_def keysOf_def)
  qed
  have all: "map (partStream s) hs @ [partStream s pt] = map (partStream s) pts" by (simp add: pts)
  have "\<exists>r' setID. process env inp (partStream s pt) r = (Ok (), r') \<and>
      calls r' = calls (nsRegistry s) @ announced (partStream s pt) setID (nsRegistry s) @
        map (\<lambda>x. CallResolve (resolve x) (HtlcSettleResolution (sdPreimage sd) ResultSettled)) (map (partStream s) pts)"
    unfolding all [symmetric]
  proof (rule settle_parts [OF held pay inv' _ _ wf _ amt len auto])
    show "distinct (map circuitKey (map (partStream s) hs @ [partStream s pt]))"
      using parts unfolding all by (simp add: paidInParts_def comp_def)
    show "natPaid (map (partStream s) hs @ [partStream s pt]) = unat (sdAmtMsat sd)" using parts unfolding all by (simp add: paidInParts_def)
  qed (use facts in \<open>unfold all, auto\<close>)
  then obtain r' setID where step: "process env inp (partStream s pt) r = (Ok (), r')"
    and calls: "calls r' = calls (nsRegistry s) @ announced (partStream s pt) setID (nsRegistry s) @
      map (\<lambda>x. CallResolve (resolve x) (HtlcSettleResolution (sdPreimage sd) ResultSettled)) (map (partStream s) pts)" by blast
  let ?s' = "deliver sx r' (s\<lparr>nsRegistry := r\<rparr>)"
  have "run (nodeStep env sx muxes hashOf) s (map (partEvent s) pts) ?s'"
    using run_snoc [OF run] part_step [of env sx muxes hashOf "s\<lparr>nsRegistry := r\<rparr>" pt inp r'] step part(1) by (simp add: pts)
  moreover have "outputs (lastStream node ?s') = outputs (lastStream node s) @
       map (settleMessage (sdPreimage sd) \<circ> resolve \<circ> partHtlc) (filter (\<lambda>pt. muxNode (partMux pt) = node) pts)" for node
  proof -
    let ?rs = "map (resolve \<circ> partHtlc) pts"
    let ?call = "\<lambda>x. CallResolve (length (nsStreams s (mrNode x)) - 1, x) (HtlcSettleResolution (sdPreimage sd) ResultSettled)
        :: ('o streamResolver, 'c) call"
    have node: "mrNode (resolve (partHtlc x)) = muxNode (partMux x)" if "x \<in> set pts" for x using offersPart_key(2) [OF part(1) [OF that]] .
    have "newCalls r r' = announced (partStream s pt) setID (nsRegistry s) @ map ?call ?rs"
      using held calls node by (simp add: newCalls_def holdsParts_def)
    moreover have "fold (deliverCall sx) (announced (partStream s pt) setID (nsRegistry s)) (nsStreams s) = nsStreams s"
      by (rule deliver_accepts) (auto simp: announced_def)
    ultimately have "nsStreams ?s' node = fold (deliverCall sx) (map ?call ?rs) (nsStreams s) node" by (simp add: deliver_def)
    then have "outputs (lastStream node ?s') = outputs (last (nsStreams s node)) @ map (settleMessage (sdPreimage sd)) (filter (\<lambda>x. mrNode x = node) ?rs)"
      unfolding lastStream_def using part(3) node by (subst deliver_settles [symmetric, where call = ?call]) auto
    also have "filter (\<lambda>x. mrNode x = node) ?rs = map (resolve \<circ> partHtlc) (filter (\<lambda>pt. muxNode (partMux pt) = node) pts)"
      using node by (simp add: filter_map comp_def cong: filter_cong)
    finally show ?thesis by (simp add: lastStream_def comp_assoc)
  qed
  ultimately show ?thesis by blast
qed

end
