(* ===== verification/Final_Status.thy ===== *)
theory Final_Status
  imports Invoice_Lifecycle
begin

text \<open>
  How an invoice reaches its final status: which final events of HTLCs are announced, the outcome of
  every branch of \<open>MarkHtlcFinal\<close>, and what a repeated event gives.
\<close>

section \<open>Announcing the final status\<close>

definition announces :: "hash \<Rightarrow> dbEvent \<Rightarrow> bool" where
  "announces hash e = (case e of EvMarkFinal _ _ (Ok (Some h)) \<Rightarrow> h = hash | _ \<Rightarrow> False)"

definition finalInvoice :: "hash \<Rightarrow> database \<Rightarrow> bool" where
  "finalInvoice hash db = (case findInvoice hash db of None \<Rightarrow> False | Some i \<Rightarrow> IsFinal (diStatus i))"

lemma not_final_status: "\<not> IsFinal s \<longleftrightarrow> s = InvoiceStatusSettleRequested"
  by (cases s) auto

lemma finalInvoice_same: "sameTables db db' \<Longrightarrow> finalInvoice hash db' = finalInvoice hash db"
  by (simp add: finalInvoice_def)

lemma finalInvoice_request:
  assumes "RequestSettle cr f now invoice hs db = (r, db')"
  shows "finalInvoice hash db' = finalInvoice hash db"
proof (cases r)
  case (Ok u)
  with assms show ?thesis
    by (auto simp: RequestSettle_Ok finalInvoice_def findInvoice_settledDb newInvoiceRow_def invoiceInsertable_def split: option.splits)
qed (use RequestSettle_not_Ok [OF assms] finalInvoice_same in auto)

text \<open>A final event that is recorded makes at most one invoice final, the one it returns.\<close>

lemma finalInvoice_final_Ok:
  assumes "MarkHtlcFinal f now key settled db = (Ok u, db')"
  shows "(finalInvoice hash db' \<longleftrightarrow> finalInvoice hash db \<or> u = Some hash) \<and> (u = Some hash \<longrightarrow> \<not> finalInvoice hash db)"
proof -
  from MarkHtlcFinal_Ok [OF assms] obtain h :: dbHtlc and i :: dbInvoice where
    i: "findInvoice (dhHash h) db = Some i" and st: "diStatus i \<noteq> InvoiceStatusSettled" and
    res: "if diStatus i = InvoiceStatusFailed \<or> settled \<and> pendingIn (dhHash h) (htlcTable db')
     then u = None \<and> invoiceTable db' = invoiceTable db
     else u = Some (dhHash h) \<and> invoiceTable db' = map (updInvoice (dhHash h) settled now) (invoiceTable db)"
    by blast
  show ?thesis
  proof (cases u)
    case None
    with res have "invoiceTable db' = invoiceTable db" by (simp split: if_splits)
    with None show ?thesis by (simp add: finalInvoice_def findInvoice_def)
  next
    case (Some h')
    with res have h': "h' = dhHash h" "diStatus i \<noteq> InvoiceStatusFailed"
      and it: "invoiceTable db' = map (updInvoice (dhHash h) settled now) (invoiceTable db)"
      by (simp_all split: if_splits)
    with st have "diStatus i = InvoiceStatusSettleRequested" by (cases "diStatus i") simp_all
    moreover have "findInvoice hash db' = map_option (updInvoice (dhHash h) settled now) (findInvoice hash db)"
      by (simp add: findInvoice_def it find_map_same)
    ultimately show ?thesis
      using Some h' i findInvoice_hash by (auto simp: finalInvoice_def updInvoice_def split: option.splits)
  qed
qed

lemma announce_step:
  assumes "dbStep cr db e db'"
  shows "(finalInvoice hash db' \<longleftrightarrow> finalInvoice hash db \<or> announces hash e) \<and> (announces hash e \<longrightarrow> \<not> finalInvoice hash db)"
  using assms
proof cases
  case (request f now invoice hs r)
  with finalInvoice_request show ?thesis by (simp add: announces_def)
next
  case (final f now key settled r)
  show ?thesis
  proof (cases r)
    case (Ok u)
    have "announces hash e \<longleftrightarrow> u = Some hash" using final(1) Ok by (auto simp: announces_def split: option.splits)
    with finalInvoice_final_Ok [of f now key settled db u db' hash] final(2) Ok show ?thesis by simp
  qed (use final MarkHtlcFinal_not_Ok [OF final(2)] finalInvoice_same in \<open>auto simp: announces_def\<close>)
qed

text \<open>
  C20: along every run of the store from empty tables, the final status of an invoice is announced
  (\<open>MarkHtlcFinal\<close> returns its hash) exactly once if the invoice is final at the end of the run, and
  never if it is not: no announcement is lost and none is repeated, whatever statements fail.
\<close>

theorem final_announced_once:
  assumes "run (dbStep cr) emptyDb es db"
  shows "length (filter (announces hash) es) = (if finalInvoice hash db then 1 else 0)"
  using assms
proof (induction "emptyDb" es db rule: run.induct)
  case run_nil
  show ?case by (simp add: finalInvoice_def findInvoice_def emptyDb_def)
next
  case (run_snoc es t e u)
  from announce_step [OF run_snoc(3), of hash] run_snoc(2) show ?case by auto
qed

theorem final_announced_once_witness:
  "length (filter (announces demoHash)
     [EvRequestSettle (Ok ()), EvMarkFinal demoKey True (Ok (Some demoHash))]) = 1 \<and>
   finalInvoice demoHash (snd (demoFinal True))"
proof -
  have "run (dbStep goCrypto) emptyDb ([] @ [EvRequestSettle (Ok ())]) demoDb"
    by (rule run_snoc [where step = "dbStep goCrypto", OF run_nil demo_step1])
  from run_snoc [where step = "dbStep goCrypto", OF this demo_step2 [of True]]
  have "run (dbStep goCrypto) emptyDb [EvRequestSettle (Ok ()), EvMarkFinal demoKey True (Ok (Some demoHash))]
    (snd (demoFinal True))" by simp
  from final_announced_once [OF this, of demoHash] show ?thesis
    by (simp add: announces_def split: if_splits)
qed

section \<open>The outcome of every branch\<close>

lemma findHtlc_foreign:
  assumes "db_inv cr db" and "findHtlc key db = Some h"
  shows "\<exists>i. findInvoice (dhHash h) db = Some i"
proof -
  have "dhHash h \<in> diHash ` set (invoiceTable db)"
    using assms findHtlc_key [OF assms(2)] by (auto simp: db_inv_def)
  then have "findInvoice (dhHash h) db \<noteq> None" by (auto simp: findInvoice_def find_None_iff)
  then show ?thesis by blast
qed

lemma pending_after:
  assumes inv: "db_inv cr db" and h: "findHtlc key db = Some h"
  shows "pendingIn (dhHash h) (map (updHtlc key settled now) (htlcTable db)) \<longleftrightarrow>
    (\<exists>x \<in> set (htlcsOf (dhHash h) db). dhKey x \<noteq> key \<and> dhStatus x = HtlcStatusSettleRequested)"
  by (auto simp: pendingIn_def htlcsOf_key updHtlc_def split: if_splits)

text \<open>
  The result of recording the final resolution of an HTLC, on every branch, when the database answers.
\<close>

lemma MarkHtlcFinal_result:
  assumes inv: "db_inv cr db"
  shows "fst (MarkHtlcFinal noFaults now key settled db) =
    (case findHtlc key db of
       None \<Rightarrow> Err ErrHtlcNotFound
     | Some h \<Rightarrow>
         let st = diStatus (the (findInvoice (dhHash h) db)) in
         if st = InvoiceStatusSettled then Err ErrHtlcReceivedButInvoiceAlreadySettled
         else if dhStatus h \<noteq> HtlcStatusSettleRequested then Err ErrHtlcAlreadyFinal
         else if st = InvoiceStatusFailed then Ok None
         else if settled \<and> (\<exists>x \<in> set (htlcsOf (dhHash h) db).
                dhKey x \<noteq> key \<and> dhStatus x = HtlcStatusSettleRequested) then Ok None
         else Ok (Some (dhHash h)))"
proof (cases "findHtlc key db")
  case None
  then show ?thesis
    by (simp add: MarkHtlcFinal_def runInTransaction_def selectInvoiceForUpdate_def getHtlcHash_def)
next
  case (Some h)
  from findHtlc_foreign [OF inv Some] obtain i where i: "findInvoice (dhHash h) db = Some i" by blast
  note hi = findInvoice_hash [OF i] and hk = findHtlc_key [OF Some]
  have sel: "selectInvoiceForUpdate noFaults key db = Ok i"
    using Some i by (simp add: selectInvoiceForUpdate_Ok)
  have pend: "(\<exists>x \<in> set (htlcTable db). dhKey x = key \<and> dhStatus x = HtlcStatusSettleRequested) \<longleftrightarrow>
      dhStatus h = HtlcStatusSettleRequested"
    using hk db_inv_htlc_unique [OF inv] by metis
  let ?tx = "db\<lparr>htlcTable := map (updHtlc key settled now) (htlcTable db)\<rparr>"
  have fin: "finalizeHTLC noFaults key settled now db =
      (if dhStatus h = HtlcStatusSettleRequested then (Ok (), ?tx) else (Err ErrHtlcAlreadyFinal, db))"
  proof (cases "dhStatus h = HtlcStatusSettleRequested")
    case True
    then have "finalizeHTLC noFaults key settled now db = (Ok (), ?tx)" by (simp add: finalizeHTLC_Ok pend)
    with True show ?thesis by simp
  next
    case False
    with pend show ?thesis by (auto simp: finalizeHTLC_def Let_def filter_empty_conv)
  qed
  have all: "allHtlcsAreSettled noFaults (dhHash h) ?tx = Ok (\<not> (\<exists>x \<in> set (htlcsOf (dhHash h) db).
        dhKey x \<noteq> key \<and> dhStatus x = HtlcStatusSettleRequested))"
    by (simp add: allHtlcsAreSettled_Ok pending_after [OF inv Some])
  have finI: "\<exists>tx. finalizeInvoice noFaults (dhHash h) settled now ?tx = (Ok (), tx)"
    if "diStatus i = InvoiceStatusSettleRequested"
    using that hi by (auto simp: finalizeInvoice_Ok)
  show ?thesis
    unfolding MarkHtlcFinal_def runInTransaction_def sel using Some i hi fin all finI
    by (cases "diStatus i") (auto simp: Let_def split: outcome.splits)
qed

section \<open>All HTLCs of an invoice become final\<close>

definition pendingKeys :: "hash \<Rightarrow> database \<Rightarrow> HtlcKey set" where
  "pendingKeys hash db = set (map dhKey (filter (\<lambda>x. dhStatus x = HtlcStatusSettleRequested) (htlcsOf hash db)))"

text \<open>The final events of some HTLCs, all settled, with the result of each.\<close>

fun finalEvents :: "time \<Rightarrow> HtlcKey list \<Rightarrow> database \<Rightarrow> (dbError, hash option) outcome list \<times> database" where
  "finalEvents now [] db = ([], db)"
| "finalEvents now (k # ks) db =
     (let (r, db') = MarkHtlcFinal noFaults now k True db; (rs, db'') = finalEvents now ks db' in (r # rs, db''))"

lemma final_event_settled:
  assumes inv: "db_inv cr db" and i: "findInvoice hash db = Some i" "diStatus i = InvoiceStatusSettleRequested"
    and k: "k \<in> pendingKeys hash db" and op: "MarkHtlcFinal noFaults now k True db = (r, db')"
  shows "r = Ok (if pendingKeys hash db = {k} then Some hash else None)" and "pendingKeys hash db' = pendingKeys hash db - {k}"
    and "\<exists>i'. findInvoice hash db' = Some i' \<and>
      diStatus i' = (if pendingKeys hash db = {k} then InvoiceStatusSettled else InvoiceStatusSettleRequested)"
proof -
  from k obtain x where x: "x \<in> set (htlcTable db)" "dhHash x = hash" "dhStatus x = HtlcStatusSettleRequested" "dhKey x = k"
    by (auto simp: pendingKeys_def htlcsOf_key)
  then have "findHtlc k db \<noteq> None" by (auto simp: findHtlc_def find_None_iff)
  then obtain h where h: "findHtlc k db = Some h" by blast
  with x have hx: "h = x" using findHtlc_key [OF h] db_inv_htlc_unique [OF inv] by metis
  have last: "(\<exists>y \<in> set (htlcsOf hash db). dhKey y \<noteq> k \<and> dhStatus y = HtlcStatusSettleRequested) \<longleftrightarrow> pendingKeys hash db \<noteq> {k}"
    using k by (auto simp: pendingKeys_def)
  then show r: "r = Ok (if pendingKeys hash db = {k} then Some hash else None)"
    using MarkHtlcFinal_result [OF inv, of now k True] h hx x i op by (simp add: Let_def)
  from MarkHtlcFinal_Ok [OF op [unfolded r]] obtain h' i' where h': "findHtlc k db = Some h'" "findInvoice (dhHash h') db = Some i'"
    and ht: "htlcTable db' = map (updHtlc k True now) (htlcTable db)"
    and it: "if diStatus i' = InvoiceStatusFailed \<or> True \<and> pendingIn (dhHash h') (htlcTable db')
      then (if pendingKeys hash db = {k} then Some hash else None) = None \<and> invoiceTable db' = invoiceTable db
      else (if pendingKeys hash db = {k} then Some hash else None) = Some (dhHash h') \<and>
        invoiceTable db' = map (updInvoice (dhHash h') True now) (invoiceTable db)"
    by (elim exE conjE) (rule that; assumption)
  have same: "dhHash h' = hash" "i' = i" using h h' hx x(2) i(1) by auto
  have "dhStatus (updHtlc k True now y) = HtlcStatusSettleRequested \<longleftrightarrow> dhStatus y = HtlcStatusSettleRequested \<and> dhKey y \<noteq> k" for y
    by (auto simp: updHtlc_def)
  then have "pendingKeys hash db' = set (map dhKey (filter (\<lambda>y. dhStatus y = HtlcStatusSettleRequested \<and> dhKey y \<noteq> k) (htlcsOf hash db)))"
    unfolding pendingKeys_def htlcsOf_upd [OF ht] by (simp add: filter_map comp_def image_image)
  also have "\<dots> = pendingKeys hash db - {k}" unfolding pendingKeys_def by (simp add: set_eq_iff) blast
  finally show "pendingKeys hash db' = pendingKeys hash db - {k}" .
  show "\<exists>i'. findInvoice hash db' = Some i' \<and>
      diStatus i' = (if pendingKeys hash db = {k} then InvoiceStatusSettled else InvoiceStatusSettleRequested)"
    using it [unfolded same] i findInvoice_hash [OF i(1)] by (auto simp: findInvoice_def find_map_same updInvoice_def split: if_splits)
qed

text \<open>
  C21: an invoice is settled exactly when the last of its HTLCs is. Take a stored invoice whose settlement was requested
  and the HTLCs of it that are still pending, in any order. When all of them are reported as settled, one
  after the other, every event but the last is recorded silently, the last one returns the hash of the
  invoice, and the invoice is settled.
\<close>

theorem final_events_settle_invoice:
  assumes "db_inv cr db" and "findInvoice hash db = Some i" and "diStatus i = InvoiceStatusSettleRequested"
    and "distinct ks" and "set ks = pendingKeys hash db" and "ks \<noteq> []"
  shows "\<exists>db' i'. finalEvents now ks db = (replicate (length ks - 1) (Ok None) @ [Ok (Some hash)], db') \<and>
    findInvoice hash db' = Some i' \<and> diStatus i' = InvoiceStatusSettled \<and> pendingKeys hash db' = {}"
  using assms
proof (induction ks arbitrary: db i)
  case (Cons k ks)
  obtain r db' where op: "MarkHtlcFinal noFaults now k True db = (r, db')" by fastforce
  have "k \<in> pendingKeys hash db" using Cons.prems(5) by auto
  note step = final_event_settled [OF Cons.prems(1-3) this op]
  show ?case
  proof (cases ks)
    case Nil
    with step op Cons.prems(5) show ?thesis by auto
  next
    case (Cons k' ks')
    have keys: "pendingKeys hash db \<noteq> {k}" "set ks = pendingKeys hash db'" using Cons.prems(4,5) step(2) Cons by auto
    with step(3) obtain i' where "findInvoice hash db' = Some i'" "diStatus i' = InvoiceStatusSettleRequested" by auto
    from Cons.IH [OF MarkHtlcFinal_inv [OF Cons.prems(1) op] this] Cons.prems(4) keys Cons step(1) op show ?thesis by auto
  qed
qed simp

theorem final_events_settle_invoice_witness:
  "\<exists>db' i'. finalEvents 9 [demoKey] demoDb = ([Ok (Some demoHash)], db') \<and> findInvoice demoHash db' = Some i' \<and>
     diStatus i' = InvoiceStatusSettled"
proof -
  have inv: "db_inv goCrypto demoDb"
    by (rule RequestSettle_inv [OF db_inv_empty _ demo_request]) simp
  obtain i where "findInvoice demoHash demoDb = Some i" "diStatus i = InvoiceStatusSettleRequested"
    by (simp add: findInvoice_def demoDb_def)
  moreover have "set [demoKey] = pendingKeys demoHash demoDb" by (simp add: pendingKeys_def htlcsOf_def demoDb_def)
  ultimately show ?thesis using final_events_settle_invoice [OF inv, of demoHash i "[demoKey]" 9] by auto
qed

text \<open>
  C22: a final event that arrives twice. If the first one settled its invoice, the second gives the
  error \<open>ErrHtlcReceivedButInvoiceAlreadySettled\<close>, which the caller treats as a failure of the
  event stream, and not \<open>ErrHtlcAlreadyFinal\<close>, which it ignores; on every other invoice the
  repetition is recognised. In both cases nothing changes in the tables.
\<close>

theorem duplicate_final_event:
  assumes inv: "db_inv cr db" and first: "MarkHtlcFinal f now key settled db = (Ok r, db')"
    and second: "MarkHtlcFinal noFaults now' key settled' db' = (r', db'')"
  shows "r' = (if settled \<and> r \<noteq> None then Err ErrHtlcReceivedButInvoiceAlreadySettled
               else Err ErrHtlcAlreadyFinal) \<and> sameTables db' db''"
proof -
  from MarkHtlcFinal_Ok [OF first] obtain h i where
    h: "findHtlc key db = Some h" and i: "findInvoice (dhHash h) db = Some i" and
    st: "diStatus i \<noteq> InvoiceStatusSettled" and
    pend: "\<exists>x \<in> set (htlcTable db). dhKey x = key \<and> dhStatus x = HtlcStatusSettleRequested" and
    ht: "htlcTable db' = map (updHtlc key settled now) (htlcTable db)" and
    res: "if diStatus i = InvoiceStatusFailed \<or> settled \<and> pendingIn (dhHash h) (htlcTable db')
     then r = None \<and> invoiceTable db' = invoiceTable db
     else r = Some (dhHash h) \<and> invoiceTable db' = map (updInvoice (dhHash h) settled now) (invoiceTable db)"
    by blast
  have "dhStatus h = HtlcStatusSettleRequested"
    using pend findHtlc_key [OF h] db_inv_htlc_unique [OF inv] by metis
  moreover have h': "findHtlc key db' = Some (updHtlc key settled now h)"
    using h by (simp add: findHtlc_def ht find_map_same)
  ultimately have hst: "dhStatus (updHtlc key settled now h) \<noteq> HtlcStatusSettleRequested"
    using findHtlc_key [OF h] by (simp add: updHtlc_def)
  have ist: "diStatus (the (findInvoice (dhHash h) db')) = InvoiceStatusSettled \<longleftrightarrow> settled \<and> r \<noteq> None"
  proof (cases "diStatus i = InvoiceStatusFailed \<or> settled \<and> pendingIn (dhHash h) (htlcTable db')")
    case True
    with res i st show ?thesis by (simp add: findInvoice_def)
  next
    case False
    with res st have "diStatus i = InvoiceStatusSettleRequested" by (cases "diStatus i") auto
    with False res i findInvoice_hash [OF i] show ?thesis
      by (simp add: findInvoice_def find_map_same updInvoice_def)
  qed
  have "r' = (if settled \<and> r \<noteq> None then Err ErrHtlcReceivedButInvoiceAlreadySettled else Err ErrHtlcAlreadyFinal)"
    using MarkHtlcFinal_result [OF MarkHtlcFinal_inv [OF inv first], of now' key settled'] second hst ist
    by (simp add: h' Let_def)
  moreover from this have "sameTables db' db''"
    by (intro MarkHtlcFinal_not_Ok [OF second]) simp
  ultimately show ?thesis by blast
qed

theorem duplicate_final_event_witness:
  "fst (MarkHtlcFinal noFaults 10 demoKey True (snd (demoFinal True))) =
     Err ErrHtlcReceivedButInvoiceAlreadySettled"
proof -
  have inv: "db_inv goCrypto demoDb"
    by (rule RequestSettle_inv [OF db_inv_empty _ demo_request]) simp
  have first: "MarkHtlcFinal noFaults 9 demoKey True demoDb = (Ok (Some demoHash), snd (demoFinal True))"
    using demo_final [of True] by (simp add: demoFinal_def prod_eq_iff)
  show ?thesis
    using duplicate_final_event [OF inv first, of 10 True] by (metis prod.collapse option.distinct(1))
qed

end
