(* ===== verification/Settled_Handlers.thy ===== *)
theory Settled_Handlers
  imports Final_Status
begin

text \<open>
  \<open>node_settled_handler.go\<close> and \<open>settled_handler.go\<close>: the final resolutions that a node reports are recorded,
  and callers that wait for the final status of an invoice are told. The streams and lookups of lnd
  are inputs. The waiting callers, the recording of final events and the callbacks run in different
  goroutines: they are steps of a system that interleave in any order.
\<close>

section \<open>The handler of a node\<close>

datatype handlerError = ErrFinalize dbError | ErrPending dbError | ErrLookup | ErrNotifier | ErrRecv | ErrDeadline | ErrCancel
  | HandlerPanic string

text \<open>The result is the final callback that was made, if one was.\<close>

definition handleFinalHtlc ::
    "faults \<Rightarrow> time \<Rightarrow> pubkey \<Rightarrow> CircuitKey \<Rightarrow> bool \<Rightarrow> database
     \<Rightarrow> (handlerError, (hash \<times> bool) option) outcome \<times> database" where
  "handleFinalHtlc f now node key settled db =
     (let htlcKey = HtlcKey node (ckChanID key) (ckHtlcID key) in
      case MarkHtlcFinal f now htlcKey settled db of
        (Err e, db') \<Rightarrow>
          if e = ErrHtlcAlreadyFinal then (Ok None, db')
          else if e = ErrHtlcNotFound then (Ok None, db')
          else (Err (ErrFinalize e), db')
      | (Panic m, db') \<Rightarrow> (Panic m, db')
      | (Ok None, db') \<Rightarrow> (Ok None, db')
      | (Ok (Some invoiceHash), db') \<Rightarrow> (Ok (Some (invoiceHash, settled)), db'))"

datatype lookupResult = LookupSettled bool | LookupNotFound | LookupError

text \<open>
  The pending HTLCs of the node are looked up one after the other, then the events of the stream are
  handled until it ends. \<open>inp\<close> gives the faults and the time of each database call by its position.
  The result has the callbacks that were made.
\<close>

fun lookupPending ::
    "(nat \<Rightarrow> faults \<times> time) \<Rightarrow> pubkey \<Rightarrow> (CircuitKey \<Rightarrow> lookupResult) \<Rightarrow> CircuitKey list \<Rightarrow> database
     \<Rightarrow> handlerError option \<times> (hash \<times> bool) list \<times> database" where
  "lookupPending inp node lookup [] db = (None, [], db)"
| "lookupPending inp node lookup (key # keys) db =
     (case lookup key of
        LookupNotFound \<Rightarrow> lookupPending inp node lookup keys db
      | LookupError \<Rightarrow> (Some ErrLookup, [], db)
      | LookupSettled settled \<Rightarrow>
          (case handleFinalHtlc (fst (inp (length keys))) (snd (inp (length keys))) node key settled db of
             (Ok c, db') \<Rightarrow>
               (case lookupPending inp node lookup keys db' of
                  (e, cs, db'') \<Rightarrow> (e, (case c of None \<Rightarrow> cs | Some x \<Rightarrow> x # cs), db''))
           | (Err e, db') \<Rightarrow> (Some e, [], db')
           | (Panic m, db') \<Rightarrow> (Some (HandlerPanic m), [], db')))"

datatype htlcEvent = FinalHtlcEvent CircuitKey bool | OtherHtlcEvent | RecvFailed handlerError

fun receiveEvents ::
    "(nat \<Rightarrow> faults \<times> time) \<Rightarrow> pubkey \<Rightarrow> htlcEvent list \<Rightarrow> database \<Rightarrow> handlerError option \<times> (hash \<times> bool) list \<times> database" where
  "receiveEvents inp node [] db = (None, [], db)"
| "receiveEvents inp node (RecvFailed e # evs) db = (Some e, [], db)"
| "receiveEvents inp node (OtherHtlcEvent # evs) db = receiveEvents inp node evs db"
| "receiveEvents inp node (FinalHtlcEvent key settled # evs) db =
     (case handleFinalHtlc (fst (inp (length evs))) (snd (inp (length evs))) node key settled db of
        (Ok c, db') \<Rightarrow>
          (case receiveEvents inp node evs db' of
             (e, cs, db'') \<Rightarrow> (e, (case c of None \<Rightarrow> cs | Some x \<Rightarrow> x # cs), db''))
      | (Err e, db') \<Rightarrow> (Some e, [], db')
      | (Panic m, db') \<Rightarrow> (Some (HandlerPanic m), [], db'))"

text \<open>\<open>order\<close> is the order in which the range loop visits the map of pending HTLCs.\<close>

definition subscribeEvents ::
    "(nat \<Rightarrow> faults \<times> time) \<Rightarrow> (nat \<Rightarrow> faults \<times> time) \<Rightarrow> (CircuitKey list \<Rightarrow> CircuitKey list) \<Rightarrow> faults \<Rightarrow> pubkey
     \<Rightarrow> handlerError option \<Rightarrow> (CircuitKey \<Rightarrow> lookupResult) \<Rightarrow> htlcEvent list \<Rightarrow> database
     \<Rightarrow> handlerError option \<times> (hash \<times> bool) list \<times> database" where
  "subscribeEvents inp inp' order f node notifier lookup evs db =
     (case notifier of
        Some e \<Rightarrow> (Some e, [], db)
      | None \<Rightarrow>
          (case GetPendingHtlcs f node db of
             Err e \<Rightarrow> (Some (ErrPending e), [], db)
           | Panic m \<Rightarrow> (Some (HandlerPanic m), [], db)
           | Ok keys \<Rightarrow>
               (case lookupPending inp node lookup (order keys) db of
                  (Some e, cs, db') \<Rightarrow> (Some e, cs, db')
                | (None, cs, db') \<Rightarrow>
                    (case receiveEvents inp' node evs db' of (e, cs', db'') \<Rightarrow> (e, cs @ cs', db'')))))"

text \<open>
  \<open>Run\<close> subscribes again after every end of the stream but a cancelled context, after a delay unless a
  deadline passed. The input has the result of every subscription and whether the context is cancelled during
  the delay; the result is the number of subscriptions and whether \<open>Run\<close> returned.
\<close>

fun nodeHandler_run :: "(handlerError option \<times> bool) list \<Rightarrow> nat \<times> bool" where
  "nodeHandler_run [] = (0, False)"
| "nodeHandler_run ((res, cancelled) # rs) =
     (if res = Some ErrDeadline then map_prod Suc id (nodeHandler_run rs)
      else if res = Some ErrCancel then (1, True)
      else if cancelled then (1, True)
      else map_prod Suc id (nodeHandler_run rs))"

section \<open>Waiting for the final status\<close>

record SettledHandler =
  waiters :: "(hash, nat list) gomap"
  waitChans :: "(nat, bool) gomap"
  nextChan :: nat

definition NewSettledHandler :: SettledHandler where
  "NewSettledHandler = \<lparr>waiters = [], waitChans = [], nextChan = 0\<rparr>"

definition waitersOf :: "hash \<Rightarrow> SettledHandler \<Rightarrow> nat list" where
  "waitersOf hash p = (case gm_get (waiters p) hash of None \<Rightarrow> [] | Some l \<Rightarrow> l)"

definition InvoiceSettled :: "hash \<Rightarrow> bool \<Rightarrow> SettledHandler \<Rightarrow> SettledHandler" where
  "InvoiceSettled hash settled p =
     p\<lparr>waitChans := fold (\<lambda>waiter. gm_put waiter settled) (waitersOf hash p) (waitChans p),
       waiters := gm_put hash [] (waiters p)\<rparr>"

text \<open>
  \<open>WaitForInvoiceFinalStatus\<close> in its three parts: it registers a channel, reads the database, and waits on
  the channel.
\<close>

definition waitRegister :: "hash \<Rightarrow> SettledHandler \<Rightarrow> nat \<times> SettledHandler" where
  "waitRegister hash p =
     (nextChan p, p\<lparr>nextChan := Suc (nextChan p), waiters := gm_put hash (waitersOf hash p @ [nextChan p]) (waiters p)\<rparr>)"

definition waitRead :: "faults \<Rightarrow> hash \<Rightarrow> database \<Rightarrow> (dbError, bool option) outcome" where
  "waitRead f hash db =
     (case Get f hash db of
        Err e \<Rightarrow> Err e
      | Panic m \<Rightarrow> Panic m
      | Ok (invoice, _) \<Rightarrow>
          if IsFinal (invStatus invoice) then Ok (Some (invStatus invoice = InvoiceStatusSettled)) else Ok None)"

definition waitReceive :: "nat \<Rightarrow> SettledHandler \<Rightarrow> bool option" where
  "waitReceive ch p = gm_get (waitChans p) ch"

section \<open>The interleaving of callers, recordings and callbacks\<close>

datatype waitPhase = Registered | Waiting | Returned "(dbError, bool) outcome" | WaitCanceled

record waitSystem =
  wsDb :: database
  wsHandler :: SettledHandler
  wsCalls :: "(nat, hash \<times> waitPhase) gomap"
  wsCallbacks :: "(hash \<times> bool) list"

definition wsInit :: waitSystem where
  "wsInit = \<lparr>wsDb = emptyDb, wsHandler = NewSettledHandler, wsCalls = [], wsCallbacks = []\<rparr>"

inductive wsStep :: "crypto \<Rightarrow> waitSystem \<Rightarrow> unit \<Rightarrow> waitSystem \<Rightarrow> bool" for cr where
  register: "waitRegister hash (wsHandler s) = (ch, p) \<Longrightarrow>
     wsStep cr s () (s\<lparr>wsHandler := p, wsCalls := gm_put ch (hash, Registered) (wsCalls s)\<rparr>)"
| read_final: "gm_get (wsCalls s) ch = Some (hash, Registered) \<Longrightarrow> waitRead f hash (wsDb s) = Ok (Some settled) \<Longrightarrow>
     wsStep cr s () (s\<lparr>wsCalls := gm_put ch (hash, Returned (Ok settled)) (wsCalls s)\<rparr>)"
| read_open: "gm_get (wsCalls s) ch = Some (hash, Registered) \<Longrightarrow> waitRead f hash (wsDb s) = Ok None \<Longrightarrow>
     wsStep cr s () (s\<lparr>wsCalls := gm_put ch (hash, Waiting) (wsCalls s)\<rparr>)"
| read_error: "gm_get (wsCalls s) ch = Some (hash, Registered) \<Longrightarrow> waitRead f hash (wsDb s) = Err e \<Longrightarrow>
     wsStep cr s () (s\<lparr>wsCalls := gm_put ch (hash, Returned (Err e)) (wsCalls s)\<rparr>)"
| receive: "gm_get (wsCalls s) ch = Some (hash, Waiting) \<Longrightarrow> waitReceive ch (wsHandler s) = Some settled \<Longrightarrow>
     wsStep cr s () (s\<lparr>wsCalls := gm_put ch (hash, Returned (Ok settled)) (wsCalls s)\<rparr>)"
| cancel: "gm_get (wsCalls s) ch = Some (hash, Waiting) \<Longrightarrow>
     wsStep cr s () (s\<lparr>wsCalls := gm_put ch (hash, WaitCanceled) (wsCalls s)\<rparr>)"
| record_final: "handleFinalHtlc f now node key settled (wsDb s) = (Ok (Some c), db) \<Longrightarrow>
     wsStep cr s () (s\<lparr>wsDb := db, wsCallbacks := c # wsCallbacks s\<rparr>)"
| record_other: "handleFinalHtlc f now node key settled (wsDb s) = (r, db) \<Longrightarrow> (\<And>c. r \<noteq> Ok (Some c)) \<Longrightarrow>
     wsStep cr s () (s\<lparr>wsDb := db\<rparr>)"
| callback: "(hash, settled) \<in> set (wsCallbacks s) \<Longrightarrow>
     wsStep cr s () (s\<lparr>wsHandler := InvoiceSettled hash settled (wsHandler s),
        wsCallbacks := remove1 (hash, settled) (wsCallbacks s)\<rparr>)"
| request: "RequestSettle cr f now invoice hs (wsDb s) = (r, db) \<Longrightarrow> hs \<noteq> [] \<Longrightarrow> wsStep cr s () (s\<lparr>wsDb := db\<rparr>)"

section \<open>The final status in the database\<close>

definition finalStatus :: "hash \<Rightarrow> database \<Rightarrow> bool option" where
  "finalStatus hash db =
     (case findInvoice hash db of
        None \<Rightarrow> None
      | Some i \<Rightarrow> if IsFinal (diStatus i) then Some (diStatus i = InvoiceStatusSettled) else None)"

lemma finalStatus_final: "finalStatus hash db \<noteq> None \<longleftrightarrow> finalInvoice hash db"
  by (auto simp: finalStatus_def finalInvoice_def split: option.splits)

lemma finalStatus_le: "db_le db db' \<Longrightarrow> finalStatus hash db = Some v \<Longrightarrow> finalStatus hash db' = Some v"
proof -
  assume le: "db_le db db'" and v: "finalStatus hash db = Some v"
  from v obtain i where i: "findInvoice hash db = Some i" "IsFinal (diStatus i)"
    by (auto simp: finalStatus_def split: option.splits if_splits)
  with le have "findInvoice hash db' = Some i" unfolding db_le_def by blast
  with v i show ?thesis by (simp add: finalStatus_def)
qed

lemma finalStatus_unannounced:
  assumes "db_inv cr db" and "dbStep cr db e db'" and "\<not> announces hash e"
  shows "finalStatus hash db' = finalStatus hash db"
proof (cases "finalStatus hash db")
  case None
  then have "\<not> finalInvoice hash db'"
    using announce_step [OF assms(2), of hash] assms(3) finalStatus_final by metis
  with None show ?thesis by (metis finalStatus_final)
next
  case (Some v)
  with finalStatus_le [OF dbStep_le [OF assms(2)]] show ?thesis by simp
qed

lemma finalStatus_announced:
  assumes "MarkHtlcFinal f now key settled db = (Ok (Some hash), db')"
  shows "finalStatus hash db' = Some settled"
proof -
  from MarkHtlcFinal_Ok [OF assms] obtain h :: dbHtlc and i :: dbInvoice where
    i: "findInvoice (dhHash h) db = Some i" and st: "diStatus i \<noteq> InvoiceStatusSettled" and
    res: "if diStatus i = InvoiceStatusFailed \<or> settled \<and> pendingIn (dhHash h) (htlcTable db')
       then Some hash = None \<and> invoiceTable db' = invoiceTable db
       else Some hash = Some (dhHash h) \<and> invoiceTable db' = map (updInvoice (dhHash h) settled now) (invoiceTable db)"
    by blast
  then have h: "hash = dhHash h" and it: "invoiceTable db' = map (updInvoice (dhHash h) settled now) (invoiceTable db)"
    and nf: "diStatus i \<noteq> InvoiceStatusFailed" by (auto split: if_splits)
  have "findInvoice hash db' = Some (updInvoice hash settled now i)"
    using i by (simp add: findInvoice_def it find_map_same h)
  moreover have "diStatus i = InvoiceStatusSettleRequested" using st nf by (cases "diStatus i") auto
  ultimately show ?thesis
    using findInvoice_hash [OF i] by (simp add: finalStatus_def updInvoice_def h)
qed

lemma waitRead_eq:
  assumes "db_inv cr db" and "waitRead f hash db = Ok v"
  shows "v = finalStatus hash db"
  using assms(2) by (auto simp: waitRead_def Get_eq [OF assms(1)] finalStatus_def unmarshallDbInvoice_def
      split: option.splits if_splits prod.splits outcome.splits)

lemma handleFinalHtlc_step:
  assumes "handleFinalHtlc f now node key settled db = (r, db')"
  obtains q where "MarkHtlcFinal f now (HtlcKey node (ckChanID key) (ckHtlcID key)) settled db = (q, db')"
    and "\<And>hash v. r = Ok (Some (hash, v)) \<longleftrightarrow> q = Ok (Some hash) \<and> v = settled"
  using assms by (auto simp: handleFinalHtlc_def Let_def split: prod.splits outcome.splits option.splits if_splits)

section \<open>No caller is forgotten\<close>

definition callOk :: "waitSystem \<Rightarrow> nat \<Rightarrow> hash \<Rightarrow> waitPhase \<Rightarrow> bool" where
  "callOk s ch hash ph =
     (case ph of
        Registered \<Rightarrow> (case waitReceive ch (wsHandler s) of
            None \<Rightarrow> ch \<in> set (waitersOf hash (wsHandler s)) | Some v \<Rightarrow> finalStatus hash (wsDb s) = Some v)
      | Waiting \<Rightarrow> (case waitReceive ch (wsHandler s) of
            None \<Rightarrow> ch \<in> set (waitersOf hash (wsHandler s)) \<and>
              (\<forall>v. finalStatus hash (wsDb s) = Some v \<longrightarrow> (hash, v) \<in> set (wsCallbacks s))
          | Some v \<Rightarrow> finalStatus hash (wsDb s) = Some v)
      | Returned (Ok v) \<Rightarrow> finalStatus hash (wsDb s) = Some v
      | _ \<Rightarrow> True)"

definition wsInv :: "crypto \<Rightarrow> waitSystem \<Rightarrow> bool" where
  "wsInv cr s =
     (db_inv cr (wsDb s) \<and>
      (\<forall>hash v. (hash, v) \<in> set (wsCallbacks s) \<longrightarrow> finalStatus hash (wsDb s) = Some v) \<and>
      (\<forall>ch hash ph. gm_get (wsCalls s) ch = Some (hash, ph) \<longrightarrow> ch < nextChan (wsHandler s) \<and> callOk s ch hash ph) \<and>
      (\<forall>hash ch. ch \<in> set (waitersOf hash (wsHandler s)) \<longrightarrow> (\<exists>ph. gm_get (wsCalls s) ch = Some (hash, ph))) \<and>
      (\<forall>ch. nextChan (wsHandler s) \<le> ch \<longrightarrow> waitReceive ch (wsHandler s) = None))"

lemma wsInv_calls:
  assumes "wsInv cr s" and "gm_get (wsCalls s) ch = Some (hash, ph)" and "callOk s ch hash ph'"
  shows "wsInv cr (s\<lparr>wsCalls := gm_put ch (hash, ph') (wsCalls s)\<rparr>)"
proof -
  have "callOk (s\<lparr>wsCalls := c\<rparr>) ch' hash' q = callOk s ch' hash' q" for c ch' hash' q
    by (cases q) (simp_all add: callOk_def split: option.splits outcome.splits)
  moreover have "h = hash" if "ch \<in> set (waitersOf h (wsHandler s))" for h
    using assms(1,2) that unfolding wsInv_def by (metis option.inject prod.inject)
  ultimately show ?thesis using assms by (auto simp: wsInv_def)
qed

lemma callOk_db:
  assumes "callOk s ch hash ph" and le: "db_le (wsDb s) db"
    and "\<And>v. finalStatus hash (wsDb s) = None \<Longrightarrow> finalStatus hash db = Some v \<Longrightarrow> (hash, v) \<in> set cbs"
    and "set (wsCallbacks s) \<subseteq> set cbs"
  shows "callOk (s\<lparr>wsDb := db, wsCallbacks := cbs\<rparr>) ch hash ph"
proof -
  have keep: "finalStatus hash (wsDb s) = Some v \<Longrightarrow> finalStatus hash db = Some v" for v
    using finalStatus_le [OF le] .
  have "(hash, v) \<in> set cbs"
    if w: "\<forall>v. finalStatus hash (wsDb s) = Some v \<longrightarrow> (hash, v) \<in> set (wsCallbacks s)" and v: "finalStatus hash db = Some v" for v
  proof (cases "finalStatus hash (wsDb s)")
    case None
    with assms(3) v show ?thesis by blast
  next
    case (Some v')
    with keep v w assms(4) show ?thesis by auto
  qed
  with assms(1) keep show ?thesis
    by (auto simp: callOk_def split: waitPhase.splits option.splits outcome.splits)
qed

lemma wsInv_db:
  assumes inv: "wsInv cr s" and le: "db_le (wsDb s) db" and dbi: "db_inv cr db"
    and new: "\<And>hash v. finalStatus hash (wsDb s) = None \<Longrightarrow> finalStatus hash db = Some v \<Longrightarrow> (hash, v) \<in> set cbs"
    and cbs: "set (wsCallbacks s) \<subseteq> set cbs"
      "\<And>hash v. (hash, v) \<in> set cbs \<Longrightarrow> finalStatus hash db = Some v"
  shows "wsInv cr (s\<lparr>wsDb := db, wsCallbacks := cbs\<rparr>)"
proof -
  have "callOk (s\<lparr>wsDb := db, wsCallbacks := cbs\<rparr>) ch hash ph" if "gm_get (wsCalls s) ch = Some (hash, ph)" for ch hash ph
    using callOk_db [OF _ le new cbs(1)] inv that by (simp add: wsInv_def)
  with inv dbi cbs show ?thesis by (auto simp: wsInv_def)
qed

lemma gm_get_fold_put:
  "gm_get (fold (\<lambda>w. gm_put w v) ws m) k = (if k \<in> set ws then Some v else gm_get m k)"
  by (induction ws arbitrary: m) auto

lemma InvoiceSettled_view:
  "waitersOf h (InvoiceSettled hash v p) = (if h = hash then [] else waitersOf h p)"
  "waitReceive ch (InvoiceSettled hash v p) = (if ch \<in> set (waitersOf hash p) then Some v else waitReceive ch p)"
  "nextChan (InvoiceSettled hash v p) = nextChan p"
  by (auto simp: InvoiceSettled_def waitersOf_def [of h] waitReceive_def gm_get_fold_put)

lemma waitRegister_view:
  assumes "waitRegister hash p = (ch, p')"
  shows "ch = nextChan p" and "nextChan p' = Suc ch" and "waitReceive c p' = waitReceive c p"
    and "waitersOf h p' = (if h = hash then waitersOf hash p @ [ch] else waitersOf h p)"
  using assms by (auto simp: waitRegister_def waitReceive_def waitersOf_def split: option.splits)

lemma wsInv_register:
  assumes inv: "wsInv cr s" and reg: "waitRegister hash (wsHandler s) = (ch, p)"
  shows "wsInv cr (s\<lparr>wsHandler := p, wsCalls := gm_put ch (hash, Registered) (wsCalls s)\<rparr>)"
proof -
  note view = waitRegister_view [OF reg]
  let ?t = "s\<lparr>wsHandler := p, wsCalls := gm_put ch (hash, Registered) (wsCalls s)\<rparr>"
  have fresh: "gm_get (wsCalls s) ch = None"
    using inv view(1) unfolding wsInv_def by (metis less_irrefl_nat option.exhaust surj_pair)
  then have unused: "ch \<notin> set (waitersOf h (wsHandler s))" for h
    using inv unfolding wsInv_def by (metis option.distinct(1))
  have old: "callOk ?t c h q" if "callOk s c h q" for c h q
    using that view(3,4) by (cases q) (auto simp: callOk_def split: option.splits outcome.splits)
  have "callOk ?t ch hash Registered"
    using inv view by (simp add: callOk_def wsInv_def)
  with inv old fresh unused view show ?thesis
    by (auto simp: wsInv_def less_Suc_eq split: if_splits)
qed

lemma wsInv_callback:
  assumes inv: "wsInv cr s" and cb: "(hash, v) \<in> set (wsCallbacks s)"
  shows "wsInv cr (s\<lparr>wsHandler := InvoiceSettled hash v (wsHandler s), wsCallbacks := remove1 (hash, v) (wsCallbacks s)\<rparr>)"
proof -
  let ?t = "s\<lparr>wsHandler := InvoiceSettled hash v (wsHandler s), wsCallbacks := remove1 (hash, v) (wsCallbacks s)\<rparr>"
  have st: "finalStatus hash (wsDb s) = Some v" using inv cb by (simp add: wsInv_def)
  have "callOk ?t c h q" if call: "gm_get (wsCalls s) c = Some (h, q)" for c h q
  proof -
    have ok: "callOk s c h q" using inv call by (simp add: wsInv_def)
    have own: "h = hash" if "c \<in> set (waitersOf hash (wsHandler s))"
      using inv that call by (fastforce simp: wsInv_def)
    have keep: "(h, w) \<in> set (remove1 (hash, v) (wsCallbacks s))" if "h \<noteq> hash" "(h, w) \<in> set (wsCallbacks s)" for w
      using that by (simp add: in_set_remove1)
    show ?thesis
      using ok own keep st by (cases q) (auto simp: callOk_def InvoiceSettled_view split: option.splits outcome.splits)
  qed
  moreover have "(h, w) \<in> set (wsCallbacks s)" if "(h, w) \<in> set (remove1 (hash, v) (wsCallbacks s))" for h w
    using that by (meson notin_set_remove1)
  moreover have "c < nextChan (wsHandler s)" if "c \<in> set (waitersOf hash (wsHandler s))" for c
    using inv that unfolding wsInv_def by blast
  ultimately show ?thesis
    using inv by (fastforce simp: wsInv_def InvoiceSettled_view split: if_splits)
qed

text \<open>A step of the store changes no final status but the one it announces.\<close>

lemma wsInv_store:
  assumes inv: "wsInv cr s" and st: "dbStep cr (wsDb s) e db"
    and new: "\<And>hash. announces hash e \<Longrightarrow> \<exists>v. finalStatus hash db = Some v \<and> (hash, v) \<in> set cbs"
    and old: "set (wsCallbacks s) \<subseteq> set cbs"
    and cbs: "\<And>hash v. (hash, v) \<in> set cbs \<Longrightarrow> (hash, v) \<in> set (wsCallbacks s) \<or> finalStatus hash db = Some v"
  shows "wsInv cr (s\<lparr>wsDb := db, wsCallbacks := cbs\<rparr>)"
proof (rule wsInv_db [OF inv dbStep_le [OF st]])
  have dbi: "db_inv cr (wsDb s)" using inv by (simp add: wsInv_def)
  then show "db_inv cr db" using dbStep_inv st by blast
  show "(hash, v) \<in> set cbs" if "finalStatus hash (wsDb s) = None" "finalStatus hash db = Some v" for hash v
    using finalStatus_unannounced [OF dbi st, of hash] new [of hash] that by fastforce
  show "finalStatus hash db = Some v" if "(hash, v) \<in> set cbs" for hash v
    using cbs [OF that] inv finalStatus_le [OF dbStep_le [OF st]] by (auto simp: wsInv_def)
qed (rule old)

lemma wsInv_record:
  assumes inv: "wsInv cr s" and h: "handleFinalHtlc f now node key settled (wsDb s) = (r, db)"
  shows "wsInv cr (s\<lparr>wsDb := db, wsCallbacks := (case r of Ok (Some c) \<Rightarrow> c # wsCallbacks s | _ \<Rightarrow> wsCallbacks s)\<rparr>)"
proof -
  from handleFinalHtlc_step [OF h] obtain q where
    q: "MarkHtlcFinal f now (HtlcKey node (ckChanID key) (ckHtlcID key)) settled (wsDb s) = (q, db)"
    and r: "\<And>hash v. r = Ok (Some (hash, v)) \<longleftrightarrow> q = Ok (Some hash) \<and> v = settled" by blast
  note st = dbStep.final [OF q, where cr = cr]
  have fin: "finalStatus hash db = Some settled" if "q = Ok (Some hash)" for hash
    using finalStatus_announced q that by simp
  show ?thesis
  proof (cases "\<exists>hash. q = Ok (Some hash)")
    case True
    then obtain hash where hash: "q = Ok (Some hash)" ..
    then have "r = Ok (Some (hash, settled))" using r by simp
    with wsInv_store [OF inv st, of "(hash, settled) # wsCallbacks s"] fin [OF hash] hash show ?thesis
      by (auto simp: announces_def)
  next
    case False
    then have "r \<noteq> Ok (Some c)" for c using r by (cases c) simp
    then have "(case r of Ok (Some c) \<Rightarrow> c # wsCallbacks s | _ \<Rightarrow> wsCallbacks s) = wsCallbacks s"
      by (simp split: outcome.split option.split)
    moreover have "\<not> announces hash (EvMarkFinal (HtlcKey node (ckChanID key) (ckHtlcID key)) settled q)" for hash
      using False by (simp add: announces_def split: outcome.split option.split)
    ultimately show ?thesis using wsInv_store [OF inv st, of "wsCallbacks s"] by simp
  qed
qed

lemma wsInv_request:
  assumes inv: "wsInv cr s" and "RequestSettle cr f now invoice hs (wsDb s) = (r, db)" and "hs \<noteq> []"
  shows "wsInv cr (s\<lparr>wsDb := db\<rparr>)"
  using wsInv_store [OF inv dbStep.request [OF assms(2,3)], of "wsCallbacks s"]
  by (auto simp: announces_def)

text \<open>The steps of a caller: it reads the database, or receives from its channel.\<close>

lemma callOk_read:
  assumes "wsInv cr s" and "gm_get (wsCalls s) ch = Some (hash, Registered)"
  shows "waitRead f hash (wsDb s) = Ok (Some settled) \<Longrightarrow> callOk s ch hash (Returned (Ok settled))"
    and "waitRead f hash (wsDb s) = Ok None \<Longrightarrow> callOk s ch hash Waiting"
proof -
  show "callOk s ch hash (Returned (Ok settled))" if "waitRead f hash (wsDb s) = Ok (Some settled)"
    using that assms waitRead_eq by (fastforce simp: wsInv_def callOk_def)
  show "callOk s ch hash Waiting" if r: "waitRead f hash (wsDb s) = Ok None"
  proof -
    have "finalStatus hash (wsDb s) = None" and "callOk s ch hash Registered"
      using r assms waitRead_eq by (fastforce simp: wsInv_def)+
    then show ?thesis by (simp add: callOk_def split: option.splits)
  qed
qed

lemma callOk_receive:
  assumes "wsInv cr s" and "gm_get (wsCalls s) ch = Some (hash, Waiting)" and "waitReceive ch (wsHandler s) = Some settled"
  shows "callOk s ch hash (Returned (Ok settled))"
proof -
  have "callOk s ch hash Waiting" using assms(1,2) by (simp add: wsInv_def)
  with assms(3) show ?thesis by (simp add: callOk_def)
qed

lemma callOk_end: "callOk s ch hash (Returned (Err e))" "callOk s ch hash WaitCanceled"
  by (simp_all add: callOk_def)

lemma wsInv_recorded:
  assumes "wsInv cr s" and "handleFinalHtlc f now node key settled (wsDb s) = (r, db)"
  shows "r = Ok (Some c) \<Longrightarrow> wsInv cr (s\<lparr>wsDb := db, wsCallbacks := c # wsCallbacks s\<rparr>)"
    and "(\<And>c. r \<noteq> Ok (Some c)) \<Longrightarrow> wsInv cr (s\<lparr>wsDb := db\<rparr>)"
proof -
  note rec = wsInv_record [OF assms]
  show "wsInv cr (s\<lparr>wsDb := db, wsCallbacks := c # wsCallbacks s\<rparr>)" if "r = Ok (Some c)" using rec that by simp
  show "wsInv cr (s\<lparr>wsDb := db\<rparr>)" if "\<And>c. r \<noteq> Ok (Some c)"
  proof -
    have "wsInv cr (s\<lparr>wsDb := db, wsCallbacks := wsCallbacks s\<rparr>)" using rec that by (auto split: outcome.splits option.splits)
    then show ?thesis by simp
  qed
qed

lemma wsInv_step: "wsInv cr s \<Longrightarrow> wsStep cr s e t \<Longrightarrow> wsInv cr t"
  by (erule wsStep.cases)
    (blast intro: wsInv_register wsInv_callback wsInv_request wsInv_calls callOk_read callOk_receive callOk_end wsInv_recorded)+

lemma wsInv_init: "wsInv cr wsInit"
  by (simp add: wsInv_def wsInit_def NewSettledHandler_def db_inv_empty waitersOf_def waitReceive_def)

interpretation waiting: inv_system "\<lambda>s. s = wsInit" "wsStep cr" "wsInv cr" for cr
  by unfold_locales (auto intro: wsInv_init wsInv_step)

section \<open>Properties\<close>

text \<open>
  C23: no wakeup is lost. Whatever the interleaving of callers, database writes and callbacks, once the
  database has the final status of an invoice, every caller still waiting for that invoice either has the
  status in its channel, or the callback that puts exactly this status there is still to run.
\<close>

theorem no_lost_wakeup:
  assumes "reach (\<lambda>s. s = wsInit) (wsStep cr) s" and "gm_get (wsCalls s) ch = Some (hash, Waiting)"
    and "finalStatus hash (wsDb s) = Some v"
  shows "waitReceive ch (wsHandler s) = Some v \<or>
    (hash, v) \<in> set (wsCallbacks s) \<and> waitReceive ch (InvoiceSettled hash v (wsHandler s)) = Some v"
proof -
  have "callOk s ch hash Waiting" using waiting.reach_inv [OF assms(1)] assms(2) by (simp add: wsInv_def)
  with assms(3) show ?thesis by (auto simp: callOk_def InvoiceSettled_view split: option.splits)
qed

text \<open>
  C24: a caller of \<open>WaitForInvoiceFinalStatus\<close> that is answered gets the truth: the invoice is final in the
  database, and the answer is true exactly when it is settled. The answer stays true, since a final status never
  changes.
\<close>

theorem wait_answer_is_final_status:
  assumes "reach (\<lambda>s. s = wsInit) (wsStep cr) s" and "gm_get (wsCalls s) ch = Some (hash, Returned (Ok v))"
  shows "finalStatus hash (wsDb s) = Some v \<and> (\<forall>db. db_le (wsDb s) db \<longrightarrow> finalStatus hash db = Some v)"
proof -
  have "callOk s ch hash (Returned (Ok v))" using waiting.reach_inv [OF assms(1)] assms(2) by (simp add: wsInv_def)
  then show ?thesis using finalStatus_le by (auto simp: callOk_def)
qed

section \<open>An example\<close>

text \<open>A caller registers and reads before the only HTLC settles; then the callback wakes it.\<close>

definition demoWait :: waitSystem where
  "demoWait = \<lparr>wsDb = snd (demoFinal True), wsHandler = snd (waitRegister demoHash NewSettledHandler),
     wsCalls = [(0, demoHash, Waiting)], wsCallbacks = [(demoHash, True)]\<rparr>"

definition demoAnswered :: waitSystem where
  "demoAnswered = demoWait\<lparr>wsHandler := InvoiceSettled demoHash True (wsHandler demoWait), wsCallbacks := [],
     wsCalls := [(0, demoHash, Returned (Ok True))]\<rparr>"

lemma demo_handle:
  "handleFinalHtlc noFaults 9 (replicate 33 2) (CircuitKey 1 2) True demoDb = (Ok (Some (demoHash, True)), snd (demoFinal True))"
  using demo_final [of True] by (simp add: handleFinalHtlc_def demoFinal_def demoKey_def prod_eq_iff split: prod.splits)

lemma demo_read: "waitRead noFaults demoHash demoDb = Ok None"
proof -
  have "db_inv goCrypto demoDb" using dbStep_inv [OF db_inv_empty demo_step1] .
  then show ?thesis
    by (simp add: waitRead_def Get_eq findInvoice_def demoDb_def unmarshallDbInvoice_def)
qed

lemma demoWait_reach: "reach (\<lambda>s. s = wsInit) (wsStep goCrypto) demoWait"
proof -
  let ?s1 = "wsInit\<lparr>wsDb := demoDb\<rparr>"
  let ?p = "snd (waitRegister demoHash NewSettledHandler)"
  let ?s2 = "?s1\<lparr>wsHandler := ?p, wsCalls := [(0, demoHash, Registered)]\<rparr>"
  let ?s3 = "?s2\<lparr>wsCalls := [(0, demoHash, Waiting)]\<rparr>"
  have "wsStep goCrypto wsInit () ?s1"
    using wsStep.request [of goCrypto noFaults 7 demoInvoice "[(demoKey, 500)]" wsInit "Ok ()" demoDb] demo_request
    by (simp add: wsInit_def)
  moreover have "wsStep goCrypto ?s1 () ?s2"
    using wsStep.register [of demoHash ?s1 0 ?p goCrypto]
    by (simp add: wsInit_def waitRegister_def NewSettledHandler_def gm_put_def)
  moreover have "wsStep goCrypto ?s2 () ?s3"
    using wsStep.read_open [of ?s2 0 demoHash noFaults goCrypto] demo_read by (simp add: gm_put_def)
  moreover have "wsStep goCrypto ?s3 () demoWait"
    using wsStep.record_final [of noFaults 9 "replicate 33 2" "CircuitKey 1 2" True ?s3 "(demoHash, True)" "snd (demoFinal True)" goCrypto]
      demo_handle by (simp add: wsInit_def demoWait_def)
  moreover have "reach (\<lambda>s. s = wsInit) (wsStep goCrypto) wsInit" by (simp add: reach_init)
  ultimately show ?thesis
    using reach_step [where step = "wsStep goCrypto" and init = "\<lambda>s. s = wsInit" and e = "()"] by blast
qed

lemma demoAnswered_reach: "reach (\<lambda>s. s = wsInit) (wsStep goCrypto) demoAnswered"
proof -
  let ?s1 = "demoWait\<lparr>wsHandler := InvoiceSettled demoHash True (wsHandler demoWait), wsCallbacks := []\<rparr>"
  have "wsStep goCrypto demoWait () ?s1"
    using wsStep.callback [of demoHash True demoWait goCrypto] by (simp add: demoWait_def)
  moreover have "waitReceive 0 (wsHandler ?s1) = Some True"
    by (simp add: demoWait_def InvoiceSettled_view waitRegister_def waitersOf_def NewSettledHandler_def)
  then have "wsStep goCrypto ?s1 () demoAnswered"
    using wsStep.receive [of ?s1 0 demoHash True goCrypto] by (simp add: demoAnswered_def demoWait_def gm_put_def)
  ultimately show ?thesis
    using demoWait_reach reach_step [where step = "wsStep goCrypto" and init = "\<lambda>s. s = wsInit" and e = "()"] by blast
qed

theorem no_lost_wakeup_witness:
  "waitReceive 0 (wsHandler demoWait) = Some True \<or>
    (demoHash, True) \<in> set (wsCallbacks demoWait) \<and>
    waitReceive 0 (InvoiceSettled demoHash True (wsHandler demoWait)) = Some True"
proof (rule no_lost_wakeup [OF demoWait_reach])
  show "gm_get (wsCalls demoWait) 0 = Some (demoHash, Waiting)" by (simp add: demoWait_def)
  have "MarkHtlcFinal noFaults 9 demoKey True demoDb = (Ok (Some demoHash), snd (demoFinal True))"
    using demo_final [of True] by (simp add: demoFinal_def prod_eq_iff)
  then show "finalStatus demoHash (wsDb demoWait) = Some True"
    using finalStatus_announced by (simp add: demoWait_def)
qed

theorem wait_answer_is_final_status_witness: "finalStatus demoHash (wsDb demoAnswered) = Some True"
  using wait_answer_is_final_status [OF demoAnswered_reach, of 0 demoHash True] by (simp add: demoAnswered_def)

end
