(* ===== verification/Server.thy ===== *)
theory Server
  imports Registry_Example Registry_Api Settled_Handlers Invoice_Creator Bounded_Channel
begin

text \<open>
  \<open>cmd/lnmuxd/server.go\<close>: the rpc service. Requests are parsed, passed to the invoice creator, the
  registry, the settled handler or the database, and the answers are mapped to rpc responses and
  status codes. The texts of errors are not modelled.
\<close>

section \<open>Status codes\<close>

datatype grpcCode = NotFound | Internal | InvalidArgument | Unavailable | FailedPrecondition | ResourceExhausted

text \<open>An error that is returned as it is has no status of its own (gRPC reports it as unknown).\<close>

datatype rpcError = Status grpcCode | PlainError

definition finalCltvExpiry :: u64 where
  "finalCltvExpiry = 40"

definition subscriberQueueSize :: nat where
  "subscriberQueueSize = 100"

section \<open>Information\<close>

record GetInfoResponse =
  infoAutoSettle :: bool
  infoNodes :: "bytes list"
  infoPubKey :: bytes
  infoNetwork :: string

definition GetInfo ::
    "('sk, 'pk, 'sg) keyOps \<Rightarrow> ('sk, 'pk) InvoiceCreator \<Rightarrow> RegistryConfig \<Rightarrow> (rpcError, GetInfoResponse) outcome" where
  "GetInfo ops creator rcfg =
     (let nodes = map (serializeCompressed ops) (NodePubKeys creator);
          network = Network creator;
          network' = (if network = ''testnet3'' then ''testnet'' else network)
      in case creatorPubKey creator of
           Ok pubKey \<Rightarrow> Ok \<lparr>infoAutoSettle = AutoSettle rcfg, infoNodes = nodes, infoPubKey = serializeCompressed ops pubKey,
                          infoNetwork = network'\<rparr>
         | Err _ \<Rightarrow> Panic ''derive''
         | Panic m \<Rightarrow> Panic m)"

section \<open>Accept events\<close>

record acceptedEvent =
  aeHash :: hash
  aeSetID :: bytes

record acceptStream =
  bufferChan :: "acceptedEvent list"
  bufferClosed :: bool
  streamed :: "(bytes \<times> bytes) list"

definition newStream :: acceptStream where
  "newStream = \<lparr>bufferChan = [], bufferClosed = False, streamed = []\<rparr>"

text \<open>
  The callback that the registry calls. \<open>ended\<close> says that the context of the subscription is done and that
  \<open>select\<close> chose this case; the default case is left to a full buffer.
\<close>

definition acceptCallback :: "bool \<Rightarrow> acceptedEvent \<Rightarrow> acceptStream \<Rightarrow> acceptStream" where
  "acceptCallback ended ev s =
     (if bufferClosed s then s
      else if ended then s\<lparr>bufferClosed := True\<rparr>
      else if length (bufferChan s) < subscriberQueueSize then s\<lparr>bufferChan := bufferChan s @ [ev]\<rparr>
      else s\<lparr>bufferClosed := True\<rparr>)"

text \<open>The loop that sends to the client: the result of a step is \<open>None\<close> while the stream goes on.\<close>

datatype streamEvent = StreamDone | StreamItem bool

definition toResponse :: "acceptedEvent \<Rightarrow> bytes \<times> bytes" where
  "toResponse item = (aeHash item, aeSetID item)"

definition stream_step :: "streamEvent \<Rightarrow> acceptStream \<Rightarrow> (rpcError, unit) outcome option \<times> acceptStream" where
  "stream_step ev s =
     (case ev of
        StreamDone \<Rightarrow> (Some (Ok ()), s)
      | StreamItem sendOk \<Rightarrow>
          (case bufferChan s of
             [] \<Rightarrow> (Some (Err (Status ResourceExhausted)), s)
           | item # rest \<Rightarrow>
               let s' = s\<lparr>bufferChan := rest\<rparr>
               in if sendOk then (None, s'\<lparr>streamed := streamed s' @ [toResponse item]\<rparr>) else (Some (Err PlainError), s')))"

definition streamCanReceive :: "streamEvent \<Rightarrow> acceptStream \<Rightarrow> bool" where
  "streamCanReceive ev s = (case ev of StreamDone \<Rightarrow> True | StreamItem _ \<Rightarrow> bufferChan s \<noteq> [] \<or> bufferClosed s)"

section \<open>Waiting for the final status\<close>

datatype protoStatus = UNKNOWN | FAILED | SETTLE_REQUESTED | SETTLED

datatype waitError = WaitDb dbError | WaitCancelled

text \<open>\<open>wait\<close> is what \<open>SettledHandler.WaitForInvoiceFinalStatus\<close> returns for a hash.\<close>

definition WaitForInvoiceFinalStatus ::
    "crypto \<Rightarrow> (hash \<Rightarrow> (waitError, bool) outcome) \<Rightarrow> bytes \<Rightarrow> (rpcError, protoStatus) outcome" where
  "WaitForInvoiceFinalStatus cr wait reqHash =
     (case makeHash cr reqHash of
        None \<Rightarrow> Err PlainError
      | Some hash \<Rightarrow>
          (case wait hash of
             Err e \<Rightarrow> if e = WaitDb ErrInvoiceNotFound then Err (Status NotFound) else Err (Status Internal)
           | Panic m \<Rightarrow> Panic m
           | Ok settled \<Rightarrow> Ok (if settled then SETTLED else FAILED)))"

section \<open>Adding an invoice\<close>

text \<open>The fields of type \<open>int64\<close> are words, read as signed numbers.\<close>

record AddInvoiceRequest =
  AmtMsat :: u64
  Description :: bytes
  DescriptionHash :: bytes
  ExpirySecs :: u64

record AddInvoiceResponse =
  rspPaymentRequest :: bytes
  rspHash :: bytes
  rspPreimage :: bytes

text \<open>\<open>time.Duration(secs) * time.Second\<close> is a product of 64-bit integers.\<close>

definition secondsDuration :: "u64 \<Rightarrow> duration" where
  "secondsDuration secs = sint (secs * 1000000000)"

definition AddInvoice ::
    "crypto \<Rightarrow> ('sk, 'pk, 'sg) keyOps \<Rightarrow> (hash \<Rightarrow> time \<Rightarrow> 'pk invoiceOption list \<Rightarrow> bytes option) \<Rightarrow> bool \<Rightarrow> time \<Rightarrow> bytes option
     \<Rightarrow> ('sk, 'pk) InvoiceCreator \<Rightarrow> AddInvoiceRequest \<Rightarrow> (rpcError, AddInvoiceResponse) outcome" where
  "AddInvoice cr ops encode features now rnd creator req =
     (if sint (ExpirySecs req) \<le> 0 then Err (Status InvalidArgument)
      else if sint (AmtMsat req) \<le> 0 then Err (Status InvalidArgument)
      else if 0 < length (DescriptionHash req) \<and> makeHash cr (DescriptionHash req) = None then Err (Status InvalidArgument)
      else
        let descHash = (if 0 < length (DescriptionHash req) then makeHash cr (DescriptionHash req) else None) in
        case Create cr ops encode features now rnd creator (AmtMsat req) (secondsDuration (ExpirySecs req))
               (Description req) descHash finalCltvExpiry of
          Err _ \<Rightarrow> Err (Status Internal)
        | Panic m \<Rightarrow> Panic m
        | Ok (invoice, p) \<Rightarrow>
            Ok \<lparr>rspPaymentRequest = paymentRequest invoice, rspHash = preimageHash cr p, rspPreimage = p\<rparr>)"

section \<open>Settling and cancelling\<close>

definition parseSetID :: "bytes \<Rightarrow> bytes option" where
  "parseSetID setIDBytes = (if length setIDBytes \<noteq> 32 then None else Some setIDBytes)"

text \<open>
  A call to the registry, when nothing else happens in between: \<open>None\<close> if it does not return because the
  event loop ended with an error.
\<close>

definition RequestSettle_call ::
    "'q registryEnv \<Rightarrow> inputs \<Rightarrow> hash \<Rightarrow> bytes \<Rightarrow> ('r, 'c, 'q) InvoiceRegistry
     \<Rightarrow> (apiError, unit) outcome option \<times> ('r, 'c, 'q) InvoiceRegistry" where
  "RequestSettle_call env inp hash setID s =
     (case invoiceEventLoop_step env inp (SettleReq hash setID) s of
        (Continue a, s') \<Rightarrow> (Some (awaitAnswer True a), s')
      | (_, s') \<Rightarrow> (None, s'))"

definition CancelInvoice_call ::
    "'q registryEnv \<Rightarrow> inputs \<Rightarrow> hash \<Rightarrow> bytes \<Rightarrow> ('r, 'c, 'q) InvoiceRegistry
     \<Rightarrow> (apiError, unit) outcome option \<times> ('r, 'c, 'q) InvoiceRegistry" where
  "CancelInvoice_call env inp hash setID s =
     (case invoiceEventLoop_step env inp (CancelReq hash setID) s of
        (Continue a, s') \<Rightarrow> (Some (awaitAnswer True a), s')
      | (_, s') \<Rightarrow> (None, s'))"

definition settleStatus :: "(apiError, unit) outcome \<Rightarrow> (rpcError, unit) outcome" where
  "settleStatus r =
     (case r of
        Err e \<Rightarrow> if e = ApiRequest ReqInvoiceNotFound then Err (Status NotFound)
                 else if e = ApiRequest ErrAutoSettling then Err (Status Unavailable)
                 else Err (Status Internal)
      | Panic m \<Rightarrow> Panic m
      | Ok u \<Rightarrow> Ok u)"

definition cancelStatus :: "(apiError, unit) outcome \<Rightarrow> (rpcError, unit) outcome" where
  "cancelStatus r =
     (case r of
        Err e \<Rightarrow> if e = ApiRequest ReqInvoiceNotFound then Err (Status NotFound)
                 else if e = ApiRequest ErrSettleRequested then Err (Status FailedPrecondition)
                 else Err (Status Internal)
      | Panic m \<Rightarrow> Panic m
      | Ok u \<Rightarrow> Ok u)"

definition SettleInvoice ::
    "'q registryEnv \<Rightarrow> inputs \<Rightarrow> bytes \<Rightarrow> bytes \<Rightarrow> ('r, 'c, 'q) InvoiceRegistry
     \<Rightarrow> (rpcError, unit) outcome option \<times> ('r, 'c, 'q) InvoiceRegistry" where
  "SettleInvoice env inp reqHash reqSetId s =
     (case makeHash (crypt env) reqHash of
        None \<Rightarrow> (Some (Err PlainError), s)
      | Some hash \<Rightarrow>
          (case parseSetID reqSetId of
             None \<Rightarrow> (Some (Err PlainError), s)
           | Some setID \<Rightarrow> map_prod (map_option settleStatus) id (RequestSettle_call env inp hash setID s)))"

definition CancelInvoice ::
    "'q registryEnv \<Rightarrow> inputs \<Rightarrow> bytes \<Rightarrow> bytes \<Rightarrow> ('r, 'c, 'q) InvoiceRegistry
     \<Rightarrow> (rpcError, unit) outcome option \<times> ('r, 'c, 'q) InvoiceRegistry" where
  "CancelInvoice env inp reqHash reqSetId s =
     (case makeHash (crypt env) reqHash of
        None \<Rightarrow> (Some (Err PlainError), s)
      | Some hash \<Rightarrow>
          (case parseSetID reqSetId of
             None \<Rightarrow> (Some (Err PlainError), s)
           | Some setID \<Rightarrow> map_prod (map_option cancelStatus) id (CancelInvoice_call env inp hash setID s)))"

section \<open>Listing invoices\<close>

record protoInvoice =
  piHash :: bytes
  piPreimage :: bytes
  piAmountMsat :: u64
  piStatus :: protoStatus
  piSettleRequestedAt :: u64
  piFinalizedAt :: u64
  piSequenceNumber :: nat

fun invoiceStatusToProto :: "InvoiceStatus \<Rightarrow> protoStatus" where
  "invoiceStatusToProto InvoiceStatusSettled = SETTLED"
| "invoiceStatusToProto InvoiceStatusSettleRequested = SETTLE_REQUESTED"
| "invoiceStatusToProto InvoiceStatusFailed = FAILED"

definition dbInvoiceToProto :: "crypto \<Rightarrow> Invoice \<Rightarrow> protoInvoice" where
  "dbInvoiceToProto cr invoice =
     (let preimage = preimageHash cr (PaymentPreimage (invCreation invoice)) in
      \<lparr>piHash = PaymentPreimage (invCreation invoice), piPreimage = preimage,
       piAmountMsat = Value (invCreation invoice), piStatus = invoiceStatusToProto (invStatus invoice),
       piSettleRequestedAt = unixOf (invSettleRequestedAt invoice),
       piFinalizedAt = unixOf (case invFinalizedAt invoice of None \<Rightarrow> zeroTime | Some t \<Rightarrow> t),
       piSequenceNumber = invSequenceNum invoice\<rparr>)"

record ListInvoicesResponse =
  liInvoices :: "protoInvoice list"
  liFirst :: nat
  liLast :: nat

text \<open>The loop over the rows, with the index of the row.\<close>

fun listLoop :: "crypto \<Rightarrow> nat \<Rightarrow> Invoice list \<Rightarrow> ListInvoicesResponse \<Rightarrow> ListInvoicesResponse" where
  "listLoop cr i [] r = r"
| "listLoop cr i (dbInv # rest) r =
     listLoop cr (Suc i) rest
       (let r' = (if i = 0 then r\<lparr>liFirst := invSequenceNum dbInv\<rparr> else r)
        in r'\<lparr>liInvoices := liInvoices r' @ [dbInvoiceToProto cr dbInv], liLast := invSequenceNum dbInv\<rparr>)"

definition ListInvoices ::
    "crypto \<Rightarrow> (int \<Rightarrow> dbInvoice list \<Rightarrow> dbInvoice list) \<Rightarrow> faults \<Rightarrow> u64 \<Rightarrow> u64 \<Rightarrow> database
     \<Rightarrow> (rpcError, ListInvoicesResponse) outcome" where
  "ListInvoices cr limitRows f maxInvoicesCount sequenceStart db =
     (if maxInvoicesCount = 0 then Err (Status InvalidArgument)
      else case GetInvoices limitRows f (sint maxInvoicesCount) (sint sequenceStart) db of
             Err _ \<Rightarrow> Err (Status Internal)
           | Panic m \<Rightarrow> Panic m
           | Ok dbInvoices \<Rightarrow> Ok (listLoop cr 0 dbInvoices \<lparr>liInvoices = [], liFirst = 0, liLast = 0\<rparr>))"

end
