(* ===== verification/Server_Facts.thy ===== *)
theory Server_Facts
  imports Server
begin

text \<open>
  Properties of the rpc service, across the components it calls: the stream of accept events, settling and
  cancelling, an invoice from its creation to the accepted payment, and the listing of invoices.
\<close>

section \<open>The stream of accept events\<close>

definition pushEvent :: "bool \<times> acceptedEvent \<Rightarrow> acceptStream \<Rightarrow> bool \<times> acceptStream" where
  "pushEvent ev s = (let s' = acceptCallback (fst ev) (snd ev) s in (length (bufferChan s) < length (bufferChan s'), s'))"

definition pullEvent :: "acceptStream \<Rightarrow> acceptStream" where
  "pullEvent s =
     (if streamCanReceive (StreamItem True) s \<and> fst (stream_step (StreamItem True) s) = None
      then snd (stream_step (StreamItem True) s) else s)"

interpretation acceptChan: bounded_channel subscriberQueueSize pushEvent pullEvent "\<lambda>s. map (Pair False) (bufferChan s)"
    bufferClosed streamed "toResponse \<circ> snd"
  by unfold_locales
    (auto simp: pushEvent_def pullEvent_def acceptCallback_def stream_step_def streamCanReceive_def Let_def split: if_splits)

text \<open>
  A subscriber is told of accepted sets in order and without gaps. However the callbacks of the registry
  and the sends to the client interleave, what was sent followed by what is buffered is the sequence
  of the accepted events, at most \<open>subscriberQueueSize\<close> are buffered, and once the buffer overflowed the
  client receives everything that was buffered and is then disconnected with \<open>ResourceExhausted\<close>.
\<close>

lemma accept_stream_in_order:
  assumes "chanRun pushEvent pullEvent ops newStream = (acc, s)"
  shows "map (toResponse \<circ> snd) acc = streamed s @ map toResponse (bufferChan s) \<and>
    length (bufferChan s) \<le> subscriberQueueSize \<and>
    (bufferClosed s \<longrightarrow>
      (\<exists>t. t = (pullEvent ^^ subscriberQueueSize) s \<and> streamed t = map (toResponse \<circ> snd) acc \<and>
         streamCanReceive (StreamItem sendOk) t \<and>
         stream_step (StreamItem sendOk) t = (Some (Err (Status ResourceExhausted)), t)))"
proof -
  have fifo: "map (toResponse \<circ> snd) acc = streamed s @ map toResponse (bufferChan s)"
    using acceptChan.chanRun_fifo [OF assms] by (simp add: newStream_def comp_def)
  have bound: "length (bufferChan s) \<le> subscriberQueueSize"
    using acceptChan.chanRun_bound [OF assms] by (simp add: newStream_def)
  with acceptChan.pull_drain [of s subscriberQueueSize] fifo show ?thesis
    by (auto simp: stream_step_def streamCanReceive_def comp_def)
qed

definition demoEvent :: "byte \<Rightarrow> bool \<times> acceptedEvent" where
  "demoEvent n = (False, \<lparr>aeHash = [n], aeSetID = [n]\<rparr>)"

section \<open>Settling and cancelling\<close>

lemma RequestSettle_call_Ok:
  "handleSettleRequest env inp hash setID s = (Ok r, s') \<Longrightarrow>
     RequestSettle_call env inp hash setID s = (Some (awaitAnswer True (Some r)), s')"
  by (simp add: RequestSettle_call_def)

lemma CancelInvoice_call_Ok:
  "handleCancelRequest env inp hash setID s = (Ok r, s') \<Longrightarrow>
     CancelInvoice_call env inp hash setID s = (Some (awaitAnswer True (Some r)), s')"
  by (simp add: CancelInvoice_call_def)

lemma SettleInvoice_Ok:
  assumes "SettleInvoice env inp reqHash reqSetId s = (Some (Ok ()), s')"
  obtains hash where "makeHash (crypt env) reqHash = Some hash" and "parseSetID reqSetId = Some reqSetId"
    and "handleSettleRequest env inp hash reqSetId s = (Ok None, s')"
  using assms
  by (auto simp: SettleInvoice_def RequestSettle_call_def parseSetID_def settleStatus_def awaitAnswer_def
      split: option.splits if_splits prod.splits outcome.splits loopResult.splits)

text \<open>
  C33: the settle call is idempotent, and it decides the race with a cancel. After a successful \<open>SettleInvoice\<close> the
  same call succeeds again and changes nothing, \<open>CancelInvoice\<close> for that set fails with
  \<open>FailedPrecondition\<close>, and both calls with another set id fail with \<open>NotFound\<close>.
\<close>

theorem settle_rpc_idempotent:
  assumes "sysReach env keyOf hashOf s" and "SettleInvoice env inp reqHash reqSetId s = (Some (Ok ()), s')"
    and "getFaults inp = noFaults" and "getFaults inp' = noFaults"
  shows "SettleInvoice env inp' reqHash reqSetId s' = (Some (Ok ()), s') \<and>
    CancelInvoice env inp' reqHash reqSetId s' = (Some (Err (Status FailedPrecondition)), s') \<and>
    (length other = 32 \<and> other \<noteq> reqSetId \<longrightarrow>
      SettleInvoice env inp' reqHash other s' = (Some (Err (Status NotFound)), s') \<and>
      CancelInvoice env inp' reqHash other s' = (Some (Err (Status NotFound)), s'))"
proof -
  from SettleInvoice_Ok [OF assms(2)] obtain hash where
    hash: "makeHash (crypt env) reqHash = Some hash" "parseSetID reqSetId = Some reqSetId"
    and h: "handleSettleRequest env inp hash reqSetId s = (Ok None, s')" by blast
  note after = requests_after_settle [OF assms(1) h assms(3,4)]
  show ?thesis
    using hash after
    by (simp add: SettleInvoice_def CancelInvoice_def RequestSettle_call_Ok CancelInvoice_call_Ok awaitAnswer_def
        settleStatus_def cancelStatus_def parseSetID_def)
qed

lemma manSetID_length: "length manSetID = 32"
  by (simp add: manSetID_def newSetID_def go.sha256_length)

theorem settle_rpc_idempotent_witness:
  "\<exists>s'. SettleInvoice manEnv (at 5) exHash manSetID man3 = (Some (Ok ()), s') \<and>
     SettleInvoice manEnv (at 6) exHash manSetID s' = (Some (Ok ()), s') \<and>
     CancelInvoice manEnv (at 6) exHash manSetID s' = (Some (Err (Status FailedPrecondition)), s')"
proof -
  obtain s' where h: "handleSettleRequest manEnv (at 5) exHash manSetID man3 = (Ok None, s')" using man_settles by blast
  have "makeHash (crypt manEnv) exHash = Some exHash" using ex_lengths(2) by (simp add: manEnv_def exEnv_def goCrypto_def)
  with h manSetID_length have s': "SettleInvoice manEnv (at 5) exHash manSetID man3 = (Some (Ok ()), s')"
    by (simp add: SettleInvoice_def RequestSettle_call_Ok awaitAnswer_def settleStatus_def parseSetID_def)
  with settle_rpc_idempotent [OF man_reach(3) s' man3_set(6) man3_set(6) [of 6]] show ?thesis by blast
qed

section \<open>From the creation of an invoice to the accepted payment\<close>

lemma secondsDuration_small:
  assumes "0 < sint secs" and "sint secs \<le> 9223372036"
  shows "secondsDuration secs = sint secs * second"
proof -
  have "secs * 1000000000 = (word_of_int (sint secs * 1000000000) :: u64)" by simp
  then have "secondsDuration secs = sint (word_of_int (sint secs * 1000000000) :: u64)"
    unfolding secondsDuration_def by (rule arg_cong)
  with assms sint_of_int_u64 [of "sint secs * 1000000000"] show ?thesis by simp
qed

text \<open>
  C35: the expiry that \<open>AddInvoice\<close> computes is the requested number of seconds exactly up to 9223372036
  seconds; above, the product wraps around.
\<close>

theorem expiry_duration_exact:
  assumes "0 < sint secs"
  shows "secondsDuration secs = sint secs * second \<longleftrightarrow> sint secs \<le> 9223372036"
proof
  assume "secondsDuration secs = sint secs * second"
  then have "sint secs * 1000000000 < 2 ^ 63"
    using sint_less [of "secs * 1000000000"] by (simp add: secondsDuration_def)
  then show "sint secs \<le> 9223372036" by simp
qed (use assms secondsDuration_small in blast)

theorem expiry_duration_exact_witness:
  "secondsDuration 3600 = 3600 * second \<and> secondsDuration 9223372037 \<noteq> 9223372037 * second"
  using expiry_duration_exact [of 3600] expiry_duration_exact [of 9223372037] by simp

text \<open>An HTLC that pays the whole invoice in time, and a registry that does not know the invoice yet.\<close>

definition paysInFull :: "'q registryEnv \<Rightarrow> inputs \<Rightarrow> hash \<Rightarrow> u64 \<Rightarrow> bytes \<Rightarrow> time \<Rightarrow> 'r registryHtlc \<Rightarrow> bool" where
  "paysInFull env inp hash amt addr expiry h =
     (rHash h = hash \<and> amtPaid h = amt \<and> multiPath h = Some \<lparr>mppPaymentAddr = addr, mppTotalMsat = amt\<rparr> \<and>
      nowExpiry inp \<le> expiry \<and> currentHeight h + FinalCltvRejectDelta (cfg env) \<le> htlcExpiry h)"

definition awaits :: "inputs \<Rightarrow> hash \<Rightarrow> ('r, 'c, 'q) InvoiceRegistry \<Rightarrow> bool" where
  "awaits inp hash s =
     (findInvoice hash (cdb s) = None \<and> setsGet (sets s) hash = None \<and> getFaults inp = noFaults \<and>
      hasRecentSubscribers (nowSubscribers inp) (subscriptions s))"

lemma process_full_payment:
  assumes "db_inv (crypt env) (cdb s)" and "\<not> AutoSettle (cfg env)" and "awaits inp hash s"
    and "paysInFull env inp hash amt addr expiry h" and "amt \<noteq> 0"
    and "decodeStatelessData (crypt env) (PrivKey (cfg env)) addr = Ok \<lparr>sdAmtMsat = amt, sdExpiry = expiry, sdPreimage = p\<rparr>"
    and "preimageHash (crypt env) p = hash"
  shows "\<exists>st. setPreimage (params st) = p \<and> htlcs st = [(circuitKey h, amt)] \<and>
    isComplete (crypt env) st = Some (newSetID (sha256 (crypt env)) [circuitKey h]) \<and>
    process env inp h s = (Ok (), acceptState env inp h (newSetID (sha256 (crypt env)) [circuitKey h]) (s\<lparr>sets := gm_put hash st (sets s)\<rparr>))"
proof -
  let ?st = "\<lparr>params = \<lparr>setPreimage = p, setValue = amt, setPaymentAddr = addr\<rparr>, htlcs = [(circuitKey h, amt)]\<rparr>"
  have set: "gm_get (sets s) hash = None" using assms(3) by (simp add: awaits_def setsGet_def)
  have late: "\<not> htlcExpiry h < currentHeight h + FinalCltvRejectDelta (cfg env)"
    using assms(4) by (simp add: paysInFull_def not_less)
  have complete: "isComplete (crypt env) ?st = Some (newSetID (sha256 (crypt env)) [circuitKey h])"
    by (simp add: isComplete_def totalSetAmt_def gm_keys_def)
  have "resolveViaDb inp h s = (Ok False, s)"
    using assms(1,3,4) by (simp add: resolveViaDb_def Get_eq awaits_def paysInFull_def)
  moreover have "setsAdd (crypt env) (params ?st) (circuitKey h) amt (sets s) = Ok (gm_put hash ?st (sets s), ?st)"
    using set assms(7) by (simp add: setsAdd_def addHtlc_new)
  ultimately have "process env inp h s = processAccepted env inp h \<lparr>sdAmtMsat = amt, sdExpiry = expiry, sdPreimage = p\<rparr> ?st
      (s\<lparr>sets := gm_put hash ?st (sets s)\<rparr>)"
    using assms(2-7) set late by (simp add: process_def processOpen_def paysInFull_def awaits_def setsGet_def)
  also have "\<dots> = (Ok (), acceptState env inp h (newSetID (sha256 (crypt env)) [circuitKey h]) (s\<lparr>sets := gm_put hash ?st (sets s)\<rparr>))"
    using complete assms(2)
    by (simp add: processAccepted_def notifySubscribers_def fold_callAccept acceptState_def announced_def
        startAcceptTimer_def hodlSubscribe_def Let_def)
  finally show ?thesis using complete by (intro exI [of _ ?st]) simp
qed

lemma AddInvoice_Ok:
  assumes "AddInvoice cr ops encode features now rnd creator req = Ok rsp"
  obtains invoice descHash where "0 < sint (ExpirySecs req)" and "0 < sint (AmtMsat req)"
    and "Create cr ops encode features now rnd creator (AmtMsat req) (secondsDuration (ExpirySecs req))
           (Description req) descHash finalCltvExpiry = Ok (invoice, rspPreimage rsp)"
    and "rspPaymentRequest rsp = paymentRequest invoice" and "rspHash rsp = preimageHash cr (rspPreimage rsp)"
  using assms by (auto simp: AddInvoice_def Let_def not_le split: if_splits outcome.splits)

text \<open>The payment request of an added invoice has an address that the registry decodes to the invoice.\<close>

lemma AddInvoice_address:
  assumes add: "AddInvoice goCrypto ops encode features now (Some r) creator req = Ok rsp" and r: "length r = 16"
    and secs: "sint (ExpirySecs req) \<le> 9223372036" and time: "time_ok (now + sint (ExpirySecs req) * second)"
  obtains addr options where "encode (rspHash rsp) now options = Some (rspPaymentRequest rsp)"
    and "{OptAmount (AmtMsat req), OptPaymentAddr addr} \<subseteq> set options"
    and "decodeStatelessData goCrypto (serializePriv ops (krPrivKey (icKeyRing creator))) addr =
      Ok \<lparr>sdAmtMsat = AmtMsat req, sdExpiry = (now + sint (ExpirySecs req) * second) div second * second, sdPreimage = rspPreimage rsp\<rparr>"
    and "preimageHash goCrypto (rspPreimage rsp) = rspHash rsp" and "0 < sint (AmtMsat req)"
    and "\<forall>k \<in> set (gwPubKeys creator). \<exists>hint. OptRouteHint [hint] \<in> set options \<and>
      hintChannelID hint = virtualChannelFromNode (serializeCompressed ops k)"
proof -
  from AddInvoice_Ok [OF add] obtain invoice descHash where
    pos: "0 < sint (ExpirySecs req)" "0 < sint (AmtMsat req)" and
    create: "Create goCrypto ops encode features now (Some r) creator (AmtMsat req) (secondsDuration (ExpirySecs req))
           (Description req) descHash finalCltvExpiry = Ok (invoice, rspPreimage rsp)" and
    rsp: "rspPaymentRequest rsp = paymentRequest invoice" "rspHash rsp = preimageHash goCrypto (rspPreimage rsp)"
    by blast
  have dur: "secondsDuration (ExpirySecs req) = sint (ExpirySecs req) * second"
    using secondsDuration_small pos(1) secs by blast
  note ok = Create_Ok [OF r _ create, unfolded dur, OF time]
  from ok obtain options where enc: "encode (preimageHash goCrypto (rspPreimage rsp)) now options = Some (paymentRequest invoice)"
    and opts: "0 <s AmtMsat req \<longrightarrow> OptAmount (AmtMsat req) \<in> set options" "OptPaymentAddr (PaymentAddr (createdData invoice)) \<in> set options"
    and hints: "\<forall>k \<in> set (gwPubKeys creator). \<exists>hint. OptRouteHint [hint] \<in> set options \<and> hintNodeID hint = k \<and>
      hintChannelID hint = virtualChannelFromNode (serializeCompressed ops k)"
    by (elim conjE exE) (rule that)
  have "{OptAmount (AmtMsat req), OptPaymentAddr (PaymentAddr (createdData invoice))} \<subseteq> set options"
    using opts pos(2) by (simp add: word_sless_alt)
  moreover have "\<forall>k \<in> set (gwPubKeys creator). \<exists>hint. OptRouteHint [hint] \<in> set options \<and>
      hintChannelID hint = virtualChannelFromNode (serializeCompressed ops k)" using hints by blast
  moreover have "encode (rspHash rsp) now options = Some (rspPaymentRequest rsp)" using enc rsp by simp
  ultimately show thesis using that ok [THEN conjunct1] rsp(2) [symmetric] pos(2) by blast
qed

text \<open>
  C14: an invoice that was added can be paid. The payment request encodes a payment address such that, in every
  reachable state of a registry with the same key that awaits the invoice, an HTLC with that address
  that pays the whole amount in time is held in a complete set with the preimage that was returned,
  and every subscriber is told of it.
\<close>

theorem added_invoice_is_accepted:
  assumes add: "AddInvoice goCrypto ops encode features now (Some r) creator req = Ok rsp" and r: "length r = 16"
    and secs: "sint (ExpirySecs req) \<le> 9223372036" and time: "time_ok (now + sint (ExpirySecs req) * second)"
    and env: "crypt env = goCrypto" "PrivKey (cfg env) = serializePriv ops (krPrivKey (icKeyRing creator))" "\<not> AutoSettle (cfg env)"
  shows "\<exists>addr options. encode (rspHash rsp) now options = Some (rspPaymentRequest rsp) \<and>
    {OptAmount (AmtMsat req), OptPaymentAddr addr} \<subseteq> set options \<and>
    (\<forall>s keyOf hashOf inp h. sysReach env keyOf hashOf (s :: ('r, 'c, 'q) InvoiceRegistry) \<and> awaits inp (rspHash rsp) s \<and>
       paysInFull env inp (rspHash rsp) (AmtMsat req) addr ((now + sint (ExpirySecs req) * second) div second * second) h \<longrightarrow>
       (\<exists>s' st. process env inp h s = (Ok (), s') \<and> setsGet (sets s') (rspHash rsp) = Some st \<and> accepted st (circuitKey h) \<and>
          setPreimage (params st) = rspPreimage rsp \<and>
          isComplete goCrypto st = Some (newSetID (sha256 goCrypto) [circuitKey h]) \<and>
          (\<forall>sid cb. gm_get (acceptSubscriptions (subscriptions s)) sid = Some cb \<longrightarrow>
             CallAccept cb (rspHash rsp) (newSetID (sha256 goCrypto) [circuitKey h]) \<in> set (calls s'))))"
proof -
  from AddInvoice_address [OF add r secs time] obtain addr options where
    options: "encode (rspHash rsp) now options = Some (rspPaymentRequest rsp)" "{OptAmount (AmtMsat req), OptPaymentAddr addr} \<subseteq> set options"
    and dec: "decodeStatelessData goCrypto (serializePriv ops (krPrivKey (icKeyRing creator))) addr =
      Ok \<lparr>sdAmtMsat = AmtMsat req, sdExpiry = (now + sint (ExpirySecs req) * second) div second * second, sdPreimage = rspPreimage rsp\<rparr>"
    and hash: "preimageHash goCrypto (rspPreimage rsp) = rspHash rsp" and pos: "0 < sint (AmtMsat req)" .
  have "\<exists>s' st. process env inp h s = (Ok (), s') \<and> setsGet (sets s') (rspHash rsp) = Some st \<and> accepted st (circuitKey h) \<and>
          setPreimage (params st) = rspPreimage rsp \<and> isComplete goCrypto st = Some (newSetID (sha256 goCrypto) [circuitKey h]) \<and>
          (\<forall>sid cb. gm_get (acceptSubscriptions (subscriptions s)) sid = Some cb \<longrightarrow>
             CallAccept cb (rspHash rsp) (newSetID (sha256 goCrypto) [circuitKey h]) \<in> set (calls s'))"
    if reach: "sysReach env keyOf hashOf s" and aw: "awaits inp (rspHash rsp) s"
      and pays: "paysInFull env inp (rspHash rsp) (AmtMsat req) addr ((now + sint (ExpirySecs req) * second) div second * second) h"
    for s :: "('r, 'c, 'q) InvoiceRegistry" and keyOf hashOf inp h
  proof -
    have dbi: "db_inv (crypt env) (cdb s)"
      using system.reach_inv [OF reach] by (simp add: sysInv_def regInv_def storeInv_def)
    have nz: "AmtMsat req \<noteq> 0" using pos by auto
    from process_full_payment [OF dbi env(3) aw pays nz] dec hash env obtain st where
      st: "setPreimage (params st) = rspPreimage rsp" "htlcs st = [(circuitKey h, AmtMsat req)]"
      "isComplete (crypt env) st = Some (newSetID (sha256 (crypt env)) [circuitKey h])" and
      p: "process env inp h s = (Ok (), acceptState env inp h (newSetID (sha256 (crypt env)) [circuitKey h])
        (s\<lparr>sets := gm_put (rspHash rsp) st (sets s)\<rparr>))" by auto
    have "rHash h = rspHash rsp" using pays by (simp add: paysInFull_def)
    with st p env(1) show ?thesis
      by (auto simp: acceptState_def announced_def startAcceptTimer_def hodlSubscribe_def Let_def setsGet_def accepted_def
          dest: gm_get_mem)
  qed
  then show ?thesis using options by (intro exI [of _ addr] exI [of _ options] conjI) (assumption | blast)+
qed

definition demoAdd :: AddInvoiceRequest where
  "demoAdd = \<lparr>AmtMsat = 500, Description = [], DescriptionHash = [], ExpirySecs = 100\<rparr>"

definition demoPayment :: "AddInvoiceResponse \<Rightarrow> bytes \<Rightarrow> HtlcKey registryHtlc" where
  "demoPayment rsp addr = \<lparr>rHash = rspHash rsp, amtPaid = 500, htlcExpiry = 200, currentHeight = 100, circuitKey = exKey 1,
     multiPath = Some \<lparr>mppPaymentAddr = addr, mppTotalMsat = 500\<rparr>, resolve = exKey 1\<rparr>"

theorem added_invoice_is_accepted_witness:
  "\<exists>rsp addr s'. AddInvoice goCrypto demoKeyOps (\<lambda>_ _ _. Some []) True 0 (Some (replicate 16 0)) demoCreator demoAdd = Ok rsp \<and>
     process manEnv (at 5) (demoPayment rsp addr) man1 = (Ok (), s') \<and>
     CallAccept 7 (rspHash rsp) (newSetID (sha256 goCrypto) [exKey 1]) \<in> set (calls s')"
proof -
  obtain rsp where rsp: "AddInvoice goCrypto demoKeyOps (\<lambda>_ _ _. Some []) True 0 (Some (replicate 16 0)) demoCreator demoAdd = Ok rsp"
    by (simp add: AddInvoice_def demoAdd_def Create_def DerivePrivKey_def go.encode_ok Let_def)
  have secs: "sint (ExpirySecs demoAdd) = 100" by (simp add: demoAdd_def)
  have key: "serializePriv demoKeyOps (krPrivKey (icKeyRing demoCreator)) = PrivKey (cfg manEnv)"
    by (simp add: demoKeyOps_def demoCreator_def NewKeyRing_def manEnv_def exEnv_def exCfg_def)
  have time: "time_ok (0 + sint (ExpirySecs demoAdd) * second)" by (simp add: secs time_ok_def unixToInternal_def)
  have env: "crypt manEnv = goCrypto" "\<not> AutoSettle (cfg manEnv)" by (simp_all add: manEnv_def exEnv_def)
  have aw: "awaits (at 5) (rspHash rsp) man1"
    by (simp add: awaits_def man1_def manState_def at_def manSubs_def hasRecentSubscribers_def findInvoice_def emptyDb_def setsGet_def)
  have pays: "paysInFull manEnv (at 5) (rspHash rsp) (AmtMsat demoAdd) addr
      ((0 + sint (ExpirySecs demoAdd) * second) div second * second) (demoPayment rsp addr)" for addr
    by (simp add: paysInFull_def demoPayment_def demoAdd_def manEnv_def exEnv_def exCfg_def at_def)
  have sub: "gm_get (acceptSubscriptions (subscriptions man1)) 1 = Some 7" by (simp add: man1_def manState_def manSubs_def)
  have ck: "circuitKey (demoPayment rsp addr) = exKey 1" for addr by (simp add: demoPayment_def)
  from added_invoice_is_accepted [OF rsp _ _ time env(1) key [symmetric] env(2), where 'r = HtlcKey and 'c = nat] secs
  obtain addr where "\<forall>s keyOf hashOf inp h. sysReach manEnv keyOf hashOf (s :: (HtlcKey, nat, releaseEvent list) InvoiceRegistry) \<and>
       awaits inp (rspHash rsp) s \<and> paysInFull manEnv inp (rspHash rsp) (AmtMsat demoAdd) addr
         ((0 + sint (ExpirySecs demoAdd) * second) div second * second) h \<longrightarrow>
       (\<exists>s' st. process manEnv inp h s = (Ok (), s') \<and> setsGet (sets s') (rspHash rsp) = Some st \<and> accepted st (circuitKey h) \<and>
          setPreimage (params st) = rspPreimage rsp \<and>
          isComplete goCrypto st = Some (newSetID (sha256 goCrypto) [circuitKey h]) \<and>
          (\<forall>sid cb. gm_get (acceptSubscriptions (subscriptions s)) sid = Some cb \<longrightarrow>
             CallAccept cb (rspHash rsp) (newSetID (sha256 goCrypto) [circuitKey h]) \<in> set (calls s')))"
    by auto
  with man_reach(1) aw pays [of addr] obtain s' where "process manEnv (at 5) (demoPayment rsp addr) man1 = (Ok (), s')"
    "\<forall>sid cb. gm_get (acceptSubscriptions (subscriptions man1)) sid = Some cb \<longrightarrow>
       CallAccept cb (rspHash rsp) (newSetID (sha256 goCrypto) [circuitKey (demoPayment rsp addr)]) \<in> set (calls s')"
    by meson
  with rsp sub ck show ?thesis by metis
qed

section \<open>Listing invoices\<close>

definition page :: "int \<Rightarrow> database \<Rightarrow> dbInvoice list" where
  "page start db = sort_key diSequenceNum (filter (\<lambda>i. start \<le> int (diSequenceNum i)) (invoiceTable db))"

lemma page_sorted: "db_inv cr db \<Longrightarrow> sorted_wrt (\<lambda>i j. diSequenceNum i < diSequenceNum j) (page start db)"
proof -
  assume "db_inv cr db"
  then have "distinct (map diSequenceNum (page start db))"
    by (auto simp: db_inv_def page_def distinct_map intro: inj_on_subset)
  then have "sorted_wrt (<) (map diSequenceNum (page start db))"
    by (simp add: page_def strict_sorted_iff)
  then show ?thesis by (simp add: sorted_wrt_map)
qed

lemma page_next:
  assumes "db_inv cr db" and "take n (page start db) \<noteq> []"
  shows "page (1 + int (diSequenceNum (last (take n (page start db))))) db = drop n (page start db)"
proof -
  let ?xs = "page start db" and ?k = diSequenceNum
  let ?l = "last (take n ?xs)"
  have sorted: "sorted_wrt (\<lambda>i j. ?k i < ?k j) (take n ?xs @ drop n ?xs)" using page_sorted [OF assms(1)] by simp
  have le: "?k i \<le> ?k ?l" if "i \<in> set (take n ?xs)" for i
  proof -
    have "take n ?xs = butlast (take n ?xs) @ [?l]" using assms(2) by simp
    then have "sorted_wrt (\<lambda>i j. ?k i < ?k j) (butlast (take n ?xs) @ [?l])" "i = ?l \<or> i \<in> set (butlast (take n ?xs))"
      using sorted that by (metis sorted_wrt_append, metis Un_iff empty_iff insert_iff list.set set_append)
    then show ?thesis by (auto simp: sorted_wrt_append)
  qed
  have gt: "?k ?l < ?k i" if "i \<in> set (drop n ?xs)" for i
    using sorted [unfolded sorted_wrt_append] that last_in_set [OF assms(2)] by blast
  have start: "start \<le> int (?k ?l)" using last_in_set [OF assms(2)] by (auto simp: page_def dest: in_set_takeD)
  have "page (1 + int (?k ?l)) db = filter (\<lambda>i. ?k ?l < ?k i) ?xs"
    using start unfolding page_def filter_sort [symmetric] filter_filter
    by (intro arg_cong [where f = "sort_key ?k"] filter_cong) auto
  also have "\<dots> = filter (\<lambda>i. ?k ?l < ?k i) (take n ?xs) @ filter (\<lambda>i. ?k ?l < ?k i) (drop n ?xs)"
    by (metis append_take_drop_id filter_append)
  also have "\<dots> = drop n ?xs" using le gt by (auto simp: filter_empty_conv filter_id_conv not_less)
  finally show ?thesis .
qed

lemma listLoop_eq:
  "listLoop cr i rows r =
     (if rows = [] then r
      else \<lparr>liInvoices = liInvoices r @ map (dbInvoiceToProto cr) rows,
            liFirst = (if i = 0 then invSequenceNum (hd rows) else liFirst r), liLast = invSequenceNum (last rows)\<rparr>)"
  by (induction rows arbitrary: i r) (auto simp: Let_def)

lemma ListInvoices_eq:
  assumes "0 < sint n" and "limitRows (sint n) (page (sint start) db) = take (unat n) (page (sint start) db)"
  shows "ListInvoices cr limitRows noFaults n start db =
    Ok (let rows = take (unat n) (page (sint start) db) in
      \<lparr>liInvoices = map (dbInvoiceToProto cr \<circ> unmarshallDbInvoice) rows,
       liFirst = (if rows = [] then 0 else diSequenceNum (hd rows)),
       liLast = (if rows = [] then 0 else diSequenceNum (last rows))\<rparr>)"
proof -
  have "n \<noteq> 0" using assms(1) by auto
  with assms(2) show ?thesis
    by (simp add: ListInvoices_def GetInvoices_def page_def listLoop_eq Let_def last_map hd_map unmarshallDbInvoice_def)
qed

text \<open>
  C34: paging through the invoices neither skips nor repeats one. In every state the store can reach, a page
  lists invoices in strictly increasing sequence numbers from the start on and reports the first and the
  last of them; the page that starts after the last one of a nonempty page continues it, so that the
  two together are the page of their joint size.
\<close>

theorem list_invoices_pages:
  assumes "reach (\<lambda>db. db = emptyDb) (dbStep cr) db" and "\<And>k rows. 0 < k \<Longrightarrow> limitRows k rows = take (nat k) rows"
    and "0 < sint n" and "0 < sint m" and "unat n + unat m < 2 ^ 63" and "0 \<le> sint start"
    and "ListInvoices cr limitRows noFaults n start db = Ok p" and "liInvoices p \<noteq> []"
    and "sint next = 1 + int (liLast p)" and "ListInvoices cr limitRows noFaults m next db = Ok q"
  shows "sorted_wrt (<) (map piSequenceNumber (liInvoices p)) \<and> length (liInvoices p) \<le> unat n \<and>
    liFirst p = piSequenceNumber (hd (liInvoices p)) \<and> liLast p = piSequenceNumber (last (liInvoices p)) \<and>
    (\<forall>i \<in> set (liInvoices p). sint start \<le> int (piSequenceNumber i)) \<and>
    (\<exists>r. ListInvoices cr limitRows noFaults (n + m) start db = Ok r \<and> liInvoices r = liInvoices p @ liInvoices q)"
proof -
  have dbi: "db_inv cr db" using store.reach_inv [OF assms(1)] .
  let ?rows = "page (sint start) db"
  have un: "unat k = nat (sint k)" if "0 < sint k" for k :: u64
    using sint_small [OF sint_nonneg_bound, of k] that by simp
  have lim: "limitRows (sint k) rows = take (unat k) rows" if "0 < sint k" for k :: u64 and rows
    using that assms(2) un by simp
  have add: "unat (n + m) = unat n + unat m" using assms(5) by (simp add: unat_word_ariths)
  have "sint (n + m) = int (unat n + unat m)" using sint_small [of "n + m"] add assms(5) by (simp del: of_nat_add)
  moreover have "0 < unat n" using un [OF assms(3)] assms(3) by simp
  ultimately have sum: "0 < sint (n + m)" "unat (n + m) = unat n + unat m" using add by linarith+
  from assms(7) have p: "liInvoices p = map (dbInvoiceToProto cr \<circ> unmarshallDbInvoice) (take (unat n) ?rows)"
    "take (unat n) ?rows \<noteq> [] \<Longrightarrow> liFirst p = diSequenceNum (hd (take (unat n) ?rows)) \<and> liLast p = diSequenceNum (last (take (unat n) ?rows))"
    by (auto simp: ListInvoices_eq [where limitRows = limitRows, OF assms(3) lim [OF assms(3)]] Let_def)
  have ne: "take (unat n) ?rows \<noteq> []" using assms(8) p(1) by auto
  have nx: "page (sint next) db = drop (unat n) ?rows" using page_next [OF dbi ne] p(2) [OF ne] assms(9) by simp
  from assms(10) have q: "liInvoices q = map (dbInvoiceToProto cr \<circ> unmarshallDbInvoice) (take (unat m) (drop (unat n) ?rows))"
    by (auto simp: ListInvoices_eq [where limitRows = limitRows, OF assms(4) lim [OF assms(4)]] Let_def nx)
  have seq: "piSequenceNumber \<circ> (dbInvoiceToProto cr \<circ> unmarshallDbInvoice) = diSequenceNum"
    by (auto simp: dbInvoiceToProto_def unmarshallDbInvoice_def Let_def)
  have "sorted_wrt (<) (map diSequenceNum (take (unat n) ?rows))"
    using page_sorted [OF dbi] by (simp add: sorted_wrt_map sorted_wrt_take)
  then have "sorted_wrt (<) (map piSequenceNumber (liInvoices p))" by (simp add: p(1) seq)
  moreover have "\<forall>i \<in> set (take (unat n) ?rows). sint start \<le> int (diSequenceNum i)"
    by (auto simp: page_def dest: in_set_takeD)
  then have "length (liInvoices p) \<le> unat n \<and> liFirst p = piSequenceNumber (hd (liInvoices p)) \<and>
      liLast p = piSequenceNumber (last (liInvoices p)) \<and> (\<forall>i \<in> set (liInvoices p). sint start \<le> int (piSequenceNumber i))"
    using p ne seq by (auto simp: hd_map last_map fun_eq_iff)
  moreover have "\<exists>r. ListInvoices cr limitRows noFaults (n + m) start db = Ok r \<and> liInvoices r = liInvoices p @ liInvoices q"
    using p q sum by (simp add: ListInvoices_eq [where limitRows = limitRows, OF sum(1) lim [OF sum(1)]] Let_def take_add)
  ultimately show ?thesis by blast
qed

theorem list_invoices_pages_witness:
  "\<exists>p q r. ListInvoices goCrypto (\<lambda>k. take (nat k)) noFaults 1 0 demoDb = Ok p \<and> liInvoices p \<noteq> [] \<and>
     ListInvoices goCrypto (\<lambda>k. take (nat k)) noFaults 1 2 demoDb = Ok q \<and>
     ListInvoices goCrypto (\<lambda>k. take (nat k)) noFaults 2 0 demoDb = Ok r \<and> liInvoices r = liInvoices p @ liInvoices q"
proof -
  let ?limit = "\<lambda>k. take (nat k)"
  have reach: "reach (\<lambda>db. db = emptyDb) (dbStep goCrypto) demoDb"
    by (rule reach_step [where step = "dbStep goCrypto", OF _ demo_step1]) (simp add: reach_init)
  obtain p q where p: "ListInvoices goCrypto ?limit noFaults 1 0 demoDb = Ok p" "liInvoices p \<noteq> []" "liLast p = 1"
    and q: "ListInvoices goCrypto ?limit noFaults 1 2 demoDb = Ok q"
    by (simp add: ListInvoices_def GetInvoices_def demoDb_def unmarshallDbInvoice_def)
  have "\<exists>r. ListInvoices goCrypto ?limit noFaults (1 + 1) 0 demoDb = Ok r \<and> liInvoices r = liInvoices p @ liInvoices q"
    using list_invoices_pages [where limitRows = ?limit, OF reach _ _ _ _ _ p(1,2) _ q] p(3) by simp
  with p q show ?thesis by auto
qed

text \<open>
  In the list of invoices, the field \<open>Hash\<close> holds the preimage and the field \<open>Preimage\<close> the payment hash: in
  every state the store can reach, the entry of a stored invoice has the two exchanged.
\<close>

lemma listed_hash_is_preimage:
  assumes "reach (\<lambda>db. db = emptyDb) (dbStep cr) db" and "findInvoice hash db = Some i"
  shows "piPreimage (dbInvoiceToProto cr (unmarshallDbInvoice i)) = hash \<and>
    piHash (dbInvoiceToProto cr (unmarshallDbInvoice i)) = diPreimage i \<and> preimageHash cr (diPreimage i) = hash"
proof -
  have "db_inv cr db" using store.reach_inv [OF assms(1)] .
  then have "preimageHash cr (diPreimage i) = hash"
    using assms(2) findInvoice_hash [OF assms(2)] by (auto simp: db_inv_def invoiceOk_def findInvoice_def find_Some_iff)
  then show ?thesis by (simp add: dbInvoiceToProto_def unmarshallDbInvoice_def Let_def)
qed

end
