(* ===== verification/Lnd_Client.thy ===== *)
theory Lnd_Client
  imports Settled_Handlers
begin

text \<open>
  \<open>lnd/client.go\<close>: the client of one lnd node. Before the interceptor or the block stream is opened, the
  node is checked once: version, network, identity and two flags. The answers of the node are inputs;
  the comparison of versions (hashicorp/go-version) is a parameter.
\<close>

section \<open>Validating the node\<close>

record lndInfo =
  Chains :: "string list"
  IdentityPubkey :: bytes
  RequireHtlcInterceptor :: bool
  StoreFinalHtlcResolutions :: bool

record lndClient =
  cfgNetwork :: string
  cfgPubKey :: pubkey
  configCheckPassed :: bool

datatype lndError =
    ErrConnection | ErrUnavailable | ErrVersionFormat | ErrVersionTooOld | ErrWrongNetwork | ErrIdentityPubkey
  | ErrWrongPubkey | ErrInterceptorNotRequired | ErrFinalHtlcResolutionsNotStored

text \<open>The checks on the info of the node: network, identity and flags. A node reports at least one chain.\<close>

definition checkInfo :: "string \<Rightarrow> pubkey \<Rightarrow> lndInfo \<Rightarrow> (lndError, unit) outcome" where
  "checkInfo cfgNet cfgKey info =
     (case Chains info of
        [] \<Rightarrow> Panic ''index out of range''
      | lndNetwork # _ \<Rightarrow>
          let networkStr = (if cfgNet = ''testnet3'' then ''testnet'' else cfgNet) in
          if lndNetwork \<noteq> networkStr then Err ErrWrongNetwork
          else (case NewPubKeyFromStr (IdentityPubkey info) of
                  Err _ \<Rightarrow> Err ErrIdentityPubkey
                | Panic m \<Rightarrow> Panic m
                | Ok pubKey \<Rightarrow>
                    if pubKey \<noteq> cfgKey then Err ErrWrongPubkey
                    else if \<not> RequireHtlcInterceptor info then Err ErrInterceptorNotRequired
                    else if \<not> StoreFinalHtlcResolutions info then Err ErrFinalHtlcResolutionsNotStored
                    else Ok ()))"

text \<open>
  \<open>versionOk\<close> parses a version and compares it with the minimum: \<open>None\<close> if it cannot be parsed. An answer of
  \<open>None\<close> is an error of the call.
\<close>

definition checkNode ::
    "(string \<Rightarrow> bool option) \<Rightarrow> string option \<Rightarrow> lndInfo option \<Rightarrow> string \<Rightarrow> pubkey \<Rightarrow> (lndError, unit) outcome" where
  "checkNode versionOk getVersion getInfo cfgNet cfgKey =
     (case getVersion of
        None \<Rightarrow> Err ErrUnavailable
      | Some ver \<Rightarrow>
          (case versionOk ver of
             None \<Rightarrow> Err ErrVersionFormat
           | Some sufficient \<Rightarrow>
               if \<not> sufficient then Err ErrVersionTooOld
               else (case getInfo of
                       None \<Rightarrow> Err ErrUnavailable
                     | Some info \<Rightarrow> checkInfo cfgNet cfgKey info)))"

definition tryValidateConfig ::
    "(string \<Rightarrow> bool option) \<Rightarrow> string option \<Rightarrow> lndInfo option \<Rightarrow> lndClient \<Rightarrow> (lndError, unit) outcome \<times> lndClient" where
  "tryValidateConfig versionOk getVersion getInfo l =
     (if configCheckPassed l then (Ok (), l)
      else case checkNode versionOk getVersion getInfo (cfgNetwork l) (cfgPubKey l) of
             Ok _ \<Rightarrow> (Ok (), l\<lparr>configCheckPassed := True\<rparr>)
           | r \<Rightarrow> (r, l))"

text \<open>The result of a failed check at creation is only logged. \<open>conn\<close> says whether the connection was made.\<close>

definition NewLndClient ::
    "(string \<Rightarrow> bool option) \<Rightarrow> bool \<Rightarrow> string option \<Rightarrow> lndInfo option \<Rightarrow> string \<Rightarrow> pubkey \<Rightarrow> (lndError, lndClient) outcome" where
  "NewLndClient versionOk conn getVersion getInfo network pubKey =
     (if \<not> conn then Err ErrConnection
      else case tryValidateConfig versionOk getVersion getInfo
                  \<lparr>cfgNetwork = network, cfgPubKey = pubKey, configCheckPassed = False\<rparr> of
             (Panic m, _) \<Rightarrow> Panic m
           | (_, client) \<Rightarrow> Ok client)"

definition clientPubKey :: "lndClient \<Rightarrow> pubkey" where
  "clientPubKey l = cfgPubKey l"

section \<open>Streams\<close>

text \<open>\<open>opened\<close> says whether the rpc that opens the stream succeeds.\<close>

definition HtlcInterceptor ::
    "(string \<Rightarrow> bool option) \<Rightarrow> string option \<Rightarrow> lndInfo option \<Rightarrow> bool \<Rightarrow> lndClient \<Rightarrow> (lndError, unit) outcome \<times> lndClient" where
  "HtlcInterceptor versionOk getVersion getInfo opened l =
     (case tryValidateConfig versionOk getVersion getInfo l of
        (Ok _, l') \<Rightarrow> (if opened then Ok () else Err ErrUnavailable, l')
      | (r, l') \<Rightarrow> (r, l'))"

definition RegisterBlockEpochNtfn ::
    "(string \<Rightarrow> bool option) \<Rightarrow> string option \<Rightarrow> lndInfo option \<Rightarrow> bool \<Rightarrow> lndClient \<Rightarrow> (lndError, unit) outcome \<times> lndClient" where
  "RegisterBlockEpochNtfn versionOk getVersion getInfo opened l =
     (case tryValidateConfig versionOk getVersion getInfo l of
        (Ok _, l') \<Rightarrow> (if opened then Ok () else Err ErrUnavailable, l')
      | (r, l') \<Rightarrow> (r, l'))"

datatype grpcStatus = GrpcOK | GrpcDeadlineExceeded | GrpcCanceled | GrpcNotFound | GrpcOther

definition mapGrpcError :: "grpcStatus \<Rightarrow> handlerError option" where
  "mapGrpcError st =
     (case st of
        GrpcOK \<Rightarrow> None
      | GrpcDeadlineExceeded \<Rightarrow> Some ErrDeadline
      | GrpcCanceled \<Rightarrow> Some ErrCancel
      | _ \<Rightarrow> Some ErrRecv)"

datatype notifierEvent = SubscribedEvent | NotifierEvent htlcEvent

text \<open>The status of the subscription, and the status and event of the first receive.\<close>

definition HtlcNotifier :: "grpcStatus \<Rightarrow> grpcStatus \<times> notifierEvent \<Rightarrow> handlerError option" where
  "HtlcNotifier subscribed first =
     (case mapGrpcError subscribed of
        Some e \<Rightarrow> Some e
      | None \<Rightarrow>
          (case mapGrpcError (fst first) of
             Some e \<Rightarrow> Some e
           | None \<Rightarrow> if snd first = SubscribedEvent then None else Some ErrNotifier))"

definition LookupHtlc :: "grpcStatus \<Rightarrow> bool \<Rightarrow> lookupResult" where
  "LookupHtlc st settled =
     (if st = GrpcNotFound then LookupNotFound
      else if st \<noteq> GrpcOK then LookupError
      else LookupSettled settled)"

section \<open>The check comes first\<close>

text \<open>What a node must have answered for the check to pass.\<close>

definition validNode :: "(string \<Rightarrow> bool option) \<Rightarrow> string \<Rightarrow> pubkey \<Rightarrow> string option \<times> lndInfo option \<Rightarrow> bool" where
  "validNode versionOk network pubKey answer =
     (\<exists>ver info. answer = (Some ver, Some info) \<and> versionOk ver = Some True \<and>
        (\<exists>rest. Chains info = (if network = ''testnet3'' then ''testnet'' else network) # rest) \<and>
        NewPubKeyFromStr (IdentityPubkey info) = Ok pubKey \<and> RequireHtlcInterceptor info \<and> StoreFinalHtlcResolutions info)"

lemma checkInfo_Ok:
  "checkInfo net k info = Ok () \<longleftrightarrow>
     (\<exists>rest. Chains info = (if net = ''testnet3'' then ''testnet'' else net) # rest) \<and>
     NewPubKeyFromStr (IdentityPubkey info) = Ok k \<and> RequireHtlcInterceptor info \<and> StoreFinalHtlcResolutions info"
  by (auto simp: checkInfo_def Let_def split: list.splits outcome.splits)

lemma checkNode_Ok: "checkNode versionOk v i net k = Ok () \<longleftrightarrow> validNode versionOk net k (v, i)"
  by (auto simp: checkNode_def validNode_def checkInfo_Ok split: option.splits)

lemma tryValidateConfig_Ok:
  "fst (tryValidateConfig versionOk v i l) = Ok () \<longleftrightarrow>
     configCheckPassed l \<or> validNode versionOk (cfgNetwork l) (cfgPubKey l) (v, i)"
  by (auto simp: tryValidateConfig_def simp flip: checkNode_Ok split: outcome.splits)

lemma tryValidateConfig_state:
  "snd (tryValidateConfig versionOk v i l) =
     (if fst (tryValidateConfig versionOk v i l) = Ok () then l\<lparr>configCheckPassed := True\<rparr> else l)"
  by (auto simp: tryValidateConfig_def split: outcome.splits)

text \<open>A client in use: the node it is configured for, the answers the node gave so far and the calls that opened a stream.\<close>

record clientSystem =
  csClient :: lndClient
  csAnswers :: "(string option \<times> lndInfo option) list"
  csStreams :: nat

inductive clientStep :: "(string \<Rightarrow> bool option) \<Rightarrow> clientSystem \<Rightarrow> unit \<Rightarrow> clientSystem \<Rightarrow> bool" for versionOk where
  interceptor: "HtlcInterceptor versionOk v i opened (csClient s) = (r, l) \<Longrightarrow>
     clientStep versionOk s () (s\<lparr>csClient := l, csAnswers := (v, i) # csAnswers s,
       csStreams := csStreams s + (if r = Ok () then 1 else 0)\<rparr>)"
| blocks: "RegisterBlockEpochNtfn versionOk v i opened (csClient s) = (r, l) \<Longrightarrow>
     clientStep versionOk s () (s\<lparr>csClient := l, csAnswers := (v, i) # csAnswers s,
       csStreams := csStreams s + (if r = Ok () then 1 else 0)\<rparr>)"

definition clientInit :: "(string \<Rightarrow> bool option) \<Rightarrow> string \<Rightarrow> pubkey \<Rightarrow> clientSystem \<Rightarrow> bool" where
  "clientInit versionOk network pubKey s =
     (\<exists>v i. NewLndClient versionOk True v i network pubKey = Ok (csClient s) \<and> csAnswers s = [(v, i)] \<and> csStreams s = 0)"

definition clientInv :: "(string \<Rightarrow> bool option) \<Rightarrow> string \<Rightarrow> pubkey \<Rightarrow> clientSystem \<Rightarrow> bool" where
  "clientInv versionOk network pubKey s =
     (cfgNetwork (csClient s) = network \<and> cfgPubKey (csClient s) = pubKey \<and>
      (configCheckPassed (csClient s) \<longrightarrow> (\<exists>a \<in> set (csAnswers s). validNode versionOk network pubKey a)) \<and>
      (0 < csStreams s \<longrightarrow> configCheckPassed (csClient s)))"

lemma clientInv_validate:
  assumes "clientInv versionOk network pubKey s" and "tryValidateConfig versionOk v i (csClient s) = (q, l)"
    and "r = Ok () \<longrightarrow> q = Ok ()"
  shows "clientInv versionOk network pubKey (s\<lparr>csClient := l, csAnswers := (v, i) # csAnswers s,
       csStreams := csStreams s + (if r = Ok () then 1 else 0)\<rparr>)"
proof -
  have q: "q = Ok () \<longleftrightarrow> configCheckPassed (csClient s) \<or> validNode versionOk network pubKey (v, i)"
    using tryValidateConfig_Ok [of versionOk v i "csClient s"] assms(1,2) by (simp add: clientInv_def)
  have "l = (if q = Ok () then csClient s\<lparr>configCheckPassed := True\<rparr> else csClient s)"
    using tryValidateConfig_state [of versionOk v i "csClient s"] assms(2) by simp
  with assms(1,3) q show ?thesis by (auto simp: clientInv_def)
qed

lemma stream_validates:
  assumes "HtlcInterceptor versionOk v i opened l = (r, l') \<or> RegisterBlockEpochNtfn versionOk v i opened l = (r, l')"
  shows "\<exists>q. tryValidateConfig versionOk v i l = (q, l') \<and> (r = Ok () \<longrightarrow> q = Ok ())"
  using assms by (auto simp: HtlcInterceptor_def RegisterBlockEpochNtfn_def split: prod.splits outcome.splits if_splits)

lemma clientInv_step: "clientInv versionOk network pubKey s \<Longrightarrow> clientStep versionOk s e t \<Longrightarrow> clientInv versionOk network pubKey t"
  by (erule clientStep.cases) (metis stream_validates clientInv_validate)+

lemma clientInv_init: "clientInit versionOk network pubKey s \<Longrightarrow> clientInv versionOk network pubKey s"
proof -
  let ?l = "\<lparr>cfgNetwork = network, cfgPubKey = pubKey, configCheckPassed = False\<rparr>"
  assume "clientInit versionOk network pubKey s"
  then obtain v i where init: "csAnswers s = [(v, i)]" "csStreams s = 0"
    and new: "NewLndClient versionOk True v i network pubKey = Ok (csClient s)" by (auto simp: clientInit_def)
  from new have "csClient s = snd (tryValidateConfig versionOk v i ?l)"
    by (auto simp: NewLndClient_def split: prod.splits outcome.splits)
  with init show ?thesis
    using tryValidateConfig_Ok [of versionOk v i ?l]
    by (auto simp: clientInv_def tryValidateConfig_state split: if_splits)
qed

interpretation client: inv_system "clientInit versionOk network pubKey" "clientStep versionOk" "clientInv versionOk network pubKey"
    for versionOk network pubKey
  by unfold_locales (auto intro: clientInv_init clientInv_step)

text \<open>
  C37: HTLCs are only ever intercepted on a node that was checked. Whenever a client has opened an interceptor or
  block stream, the node once answered with a sufficient version, the configured network, the configured
  identity, and both the \<open>requireinterceptor\<close> and \<open>store-final-htlc-resolutions\<close> flags set.
\<close>

theorem streams_only_on_valid_nodes:
  assumes "reach (clientInit versionOk network pubKey) (clientStep versionOk) s" and "0 < csStreams s"
  shows "\<exists>answer \<in> set (csAnswers s). validNode versionOk network pubKey answer"
  using client.reach_inv [OF assms(1)] assms(2) by (simp add: clientInv_def)

definition demoInfo :: lndInfo where
  "demoInfo = \<lparr>Chains = [''testnet''], IdentityPubkey = pubKeyString (replicate 33 2), RequireHtlcInterceptor = True,
     StoreFinalHtlcResolutions = True\<rparr>"

definition demoClient :: clientSystem where
  "demoClient = \<lparr>csClient = \<lparr>cfgNetwork = ''testnet3'', cfgPubKey = replicate 33 2, configCheckPassed = True\<rparr>,
     csAnswers = [(None, None), (Some ''v0.16.0'', Some demoInfo)], csStreams = 1\<rparr>"

theorem streams_only_on_valid_nodes_witness:
  "\<exists>answer \<in> set (csAnswers demoClient). validNode (\<lambda>_. Some True) ''testnet3'' (replicate 33 2) answer"
proof (rule streams_only_on_valid_nodes)
  let ?ok = "\<lambda>_. Some True"
  let ?l = "\<lparr>cfgNetwork = ''testnet3'', cfgPubKey = replicate 33 2, configCheckPassed = True\<rparr>"
  let ?s = "\<lparr>csClient = ?l, csAnswers = [(Some ''v0.16.0'', Some demoInfo)], csStreams = 0\<rparr>"
  have key: "NewPubKeyFromStr (pubKeyString (replicate 33 2)) = Ok (replicate 33 2)"
    by (rule NewPubKeyFromStr_pubKeyString) (simp add: PubKeySize_def)
  have "clientInit ?ok ''testnet3'' (replicate 33 2) ?s"
    unfolding clientInit_def
    by (rule exI [of _ "Some ''v0.16.0''"], rule exI [of _ "Some demoInfo"])
      (simp add: NewLndClient_def tryValidateConfig_def checkNode_def checkInfo_def demoInfo_def key)
  moreover have "clientStep ?ok ?s () demoClient"
    using clientStep.interceptor [of ?ok None None True ?s "Ok ()" ?l]
    by (simp add: HtlcInterceptor_def tryValidateConfig_def demoClient_def)
  ultimately show "reach (clientInit ?ok ''testnet3'' (replicate 33 2)) (clientStep ?ok) demoClient"
    by (rule reach_step [where step = "clientStep ?ok", OF reach_init])
qed (simp add: demoClient_def)

end
