(* ===== verification/Daemon.thy ===== *)
theory Daemon
  imports Lnd_Client Invoice_Creator Registry
begin

text \<open>
  \<open>cmd/lnmuxd/config.go\<close>, \<open>cmd/lnmuxd/run.go\<close> and \<open>dlock/dlock.go\<close>: the configuration, the clients of
  the nodes, and the lock under which the daemon runs. Reading files, yaml, Kubernetes and the
  leader election (client-go) are inputs.
\<close>

section \<open>Configuration\<close>

record RoutingPolicyConfig =
  rpCltvDelta :: u64
  rpFeeBaseMsat :: u64
  rpFeeRatePpm :: u64

record nodeConfig =
  ncPubKey :: bytes
  ncMacaroonPath :: string
  ncTlsCertPath :: string
  ncLndUrl :: string
  ncPriority :: int

record DbConfig =
  DSN :: string
  PoolSize :: int
  MinIdleConns :: int
  MaxConnAge :: duration
  PoolTimeout :: duration
  IdleTimeout :: duration

record LoggingConfig =
  logLevel :: string
  logFormat :: string
  WithCaller :: bool
  GrpcLogging :: bool
  GrpcPayloadLogging :: bool

record DistributedLockConfig =
  lockNamespace :: string
  lockName :: string
  lockID :: string
  lockDevKubeConfig :: string

record Config =
  cfNodes :: "nodeConfig list"
  cfNetwork :: string
  cfDB :: DbConfig
  cfIdentityKey :: bytes
  cfAutoSettle :: bool
  cfListenAddress :: string
  cfInstrumentationAddress :: string
  cfLogging :: LoggingConfig
  cfLock :: DistributedLockConfig
  cfRoutingPolicy :: "RoutingPolicyConfig option"

datatype configError = ErrReadFile | ErrYaml | ErrIdentityKeyHex | ErrIdentityKeyLength

definition GetIdentityKey :: "Config \<Rightarrow> (configError, bytes) outcome" where
  "GetIdentityKey c =
     (case hexDecode (cfIdentityKey c) of
        Err _ \<Rightarrow> Err ErrIdentityKeyHex
      | Panic m \<Rightarrow> Panic m
      | Ok keySlice \<Rightarrow> if length keySlice \<noteq> 32 then Err ErrIdentityKeyLength else Ok keySlice)"

definition defaultRoutingPolicy :: RoutingPolicy where
  "defaultRoutingPolicy = \<lparr>CltvDelta = 40, FeeBaseMsat = 0, FeeRatePpm = 0\<rparr>"

definition GetRoutingPolicy :: "Config \<Rightarrow> RoutingPolicy" where
  "GetRoutingPolicy c =
     (case cfRoutingPolicy c of
        None \<Rightarrow> defaultRoutingPolicy
      | Some p \<Rightarrow> \<lparr>CltvDelta = rpCltvDelta p, FeeBaseMsat = rpFeeBaseMsat p, FeeRatePpm = rpFeeRatePpm p\<rparr>)"

text \<open>
  \<open>file\<close> is the content of the file, if it can be read; \<open>unmarshal strict\<close> is the yaml parser; \<open>env\<close> gives
  the environment variables. Texts of the environment are bytes where the field is.
\<close>

definition loadStringEnvVariable :: "(string \<Rightarrow> 'a option) \<Rightarrow> string \<Rightarrow> 'a \<Rightarrow> 'a" where
  "loadStringEnvVariable env key old = (case env key of Some v \<Rightarrow> v | None \<Rightarrow> old)"

definition loadConfig ::
    "bytes option \<Rightarrow> bool \<Rightarrow> (bool \<Rightarrow> bytes \<Rightarrow> Config option) \<Rightarrow> (string \<Rightarrow> string option) \<Rightarrow> (string \<Rightarrow> bytes)
     \<Rightarrow> (configError, Config) outcome" where
  "loadConfig file nonStrictConfig unmarshal env utf8 =
     (case file of
        None \<Rightarrow> Err ErrReadFile
      | Some yamlFile \<Rightarrow>
          (case unmarshal (\<not> nonStrictConfig) yamlFile of
             None \<Rightarrow> Err ErrYaml
           | Some c \<Rightarrow>
               let c1 = c\<lparr>cfDB := (cfDB c)\<lparr>DSN := loadStringEnvVariable env ''LNMUX_PERSISTENCE_POSTGRES_DSN'' (DSN (cfDB c))\<rparr>\<rparr>;
                   c2 = c1\<lparr>cfIdentityKey := loadStringEnvVariable (map_option utf8 \<circ> env) ''LNMUX_IDENTITY_KEY'' (cfIdentityKey c1)\<rparr>;
                   c3 = c2\<lparr>cfLock := (cfLock c2)\<lparr>lockID := loadStringEnvVariable env ''LNMUX_DISTRIBUTEDLOCK_ID'' (lockID (cfLock c2))\<rparr>\<rparr>
               in Ok c3))"

section \<open>The clients of the nodes\<close>

text \<open>The names of the networks are constants of btcd's \<open>chaincfg\<close>.\<close>

record netNames =
  mainNetName :: string
  testNet3Name :: string
  regressionNetName :: string
  simNetName :: string

text \<open>The case of \<open>TestNet3Params.Name\<close> has no body, and a case of Go does not fall through.\<close>

definition network :: "netNames \<Rightarrow> string \<Rightarrow> string option" where
  "network names name =
     (if name = mainNetName names then Some (mainNetName names)
      else if name = testNet3Name names then None
      else if name = ''testnet'' then Some (testNet3Name names)
      else if name = regressionNetName names then Some (regressionNetName names)
      else if name = simNetName names then Some (simNetName names)
      else None)"

datatype initError = ErrUnsupportedNetwork | ErrParseNodeKey pubkey_error | ErrNode lndError | ErrDuplicateNode pubkey

text \<open>\<open>connect\<close> is \<open>NewLndClient\<close> for a node, with what the node answers.\<close>

fun initNodes ::
    "(nodeConfig \<Rightarrow> pubkey \<Rightarrow> (lndError, lndClient) outcome) \<Rightarrow> nodeConfig list \<Rightarrow> pubkey list \<Rightarrow> lndClient list
     \<Rightarrow> (initError, lndClient list) outcome" where
  "initNodes connect [] seenPubKeys nodes = Ok nodes"
| "initNodes connect (node # rest) seenPubKeys nodes =
     (case NewPubKeyFromStr (ncPubKey node) of
        Err e \<Rightarrow> Err (ErrParseNodeKey e)
      | Panic m \<Rightarrow> Panic m
      | Ok pubkey \<Rightarrow>
          (case connect node pubkey of
             Err e \<Rightarrow> Err (ErrNode e)
           | Panic m \<Rightarrow> Panic m
           | Ok lnd \<Rightarrow>
               if clientPubKey lnd \<in> set seenPubKeys then Err (ErrDuplicateNode (clientPubKey lnd))
               else initNodes connect rest (clientPubKey lnd # seenPubKeys) (nodes @ [lnd])))"

definition initLndClients ::
    "netNames \<Rightarrow> (string \<Rightarrow> nodeConfig \<Rightarrow> pubkey \<Rightarrow> (lndError, lndClient) outcome) \<Rightarrow> Config
     \<Rightarrow> (initError, lndClient list \<times> string) outcome" where
  "initLndClients names connect c =
     (case network names (cfNetwork c) of
        None \<Rightarrow> Err ErrUnsupportedNetwork
      | Some net \<Rightarrow>
          (case initNodes (connect net) (cfNodes c) [] [] of
             Ok nodes \<Rightarrow> Ok (nodes, net)
           | Err e \<Rightarrow> Err e
           | Panic m \<Rightarrow> Panic m))"

text \<open>The configuration of the registry that \<open>run\<close> creates.\<close>

definition productionConfig :: "bytes \<Rightarrow> Config \<Rightarrow> RegistryConfig" where
  "productionConfig identityKey c =
     \<lparr>FinalCltvRejectDelta = 10, HtlcHoldDuration = 30 * second, AcceptTimeout = 60 * second, PrivKey = identityKey,
      AutoSettle = cfAutoSettle c, GracePeriodWithoutSubscribers = DefaultGracePeriodWithoutSubscribers\<rparr>"

lemma initNodes_Ok:
  "initNodes connect ns seen acc = Ok clients \<Longrightarrow>
     \<exists>new. clients = acc @ new \<and> distinct (map clientPubKey new) \<and> set (map clientPubKey new) \<inter> set seen = {} \<and>
       list_all2 (\<lambda>n l. \<exists>k. NewPubKeyFromStr (ncPubKey n) = Ok k \<and> connect n k = Ok l) ns new"
proof (induction ns arbitrary: seen acc)
  case (Cons n ns)
  from Cons.prems obtain k l where kl: "NewPubKeyFromStr (ncPubKey n) = Ok k" "connect n k = Ok l"
    "clientPubKey l \<notin> set seen" "initNodes connect ns (clientPubKey l # seen) (acc @ [l]) = Ok clients"
    by (auto split: outcome.splits if_splits)
  from Cons.IH [OF kl(4)] obtain new where "clients = (acc @ [l]) @ new" "distinct (map clientPubKey new)"
    "set (map clientPubKey new) \<inter> set (clientPubKey l # seen) = {}"
    "list_all2 (\<lambda>n l. \<exists>k. NewPubKeyFromStr (ncPubKey n) = Ok k \<and> connect n k = Ok l) ns new" by blast
  with kl show ?case by (intro exI [of _ "l # new"]) auto
qed simp

text \<open>
  The daemon serves distinct nodes: there is one client for every configured node, in the order of the
  configuration and on a supported network, each with the public key of its entry, and no two of
  them have the same key; so the keys of HTLCs of different nodes differ.
\<close>

lemma nodes_are_distinct:
  assumes "initLndClients names (\<lambda>net n k. NewLndClient versionOk (conn n) (getVersion n) (getInfo n) net k) c = Ok (clients, net)"
  shows "distinct (map clientPubKey clients) \<and>
    map (Ok \<circ> clientPubKey) clients = map (NewPubKeyFromStr \<circ> ncPubKey) (cfNodes c) \<and>
    network names (cfNetwork c) = Some net \<and> (\<forall>l \<in> set clients. cfgNetwork l = net)"
proof -
  let ?connect = "\<lambda>n k. NewLndClient versionOk (conn n) (getVersion n) (getInfo n) net k"
  from assms have net: "network names (cfNetwork c) = Some net" and ok: "initNodes ?connect (cfNodes c) [] [] = Ok clients"
    by (auto simp: initLndClients_def split: option.splits outcome.splits)
  have key: "clientPubKey l = k \<and> cfgNetwork l = net" if "?connect n k = Ok l" for n k l
    using that tryValidateConfig_state [of versionOk "getVersion n" "getInfo n"
        "\<lparr>cfgNetwork = net, cfgPubKey = k, configCheckPassed = False\<rparr>"]
    by (auto simp: NewLndClient_def clientPubKey_def split: if_splits prod.splits outcome.splits)
  from initNodes_Ok [OF ok] obtain new where n: "clients = new" "distinct (map clientPubKey new)"
    "list_all2 (\<lambda>n l. \<exists>k. NewPubKeyFromStr (ncPubKey n) = Ok k \<and> ?connect n k = Ok l) (cfNodes c) new" by auto
  have "list_all2 (\<lambda>n l. NewPubKeyFromStr (ncPubKey n) = Ok (clientPubKey l) \<and> cfgNetwork l = net) (cfNodes c) new"
    by (rule list_all2_mono [OF n(3)]) (use key in metis)
  then have "map (Ok \<circ> clientPubKey) new = map (NewPubKeyFromStr \<circ> ncPubKey) (cfNodes c) \<and> (\<forall>l \<in> set new. cfgNetwork l = net)"
    by (induction rule: list_all2_induct) auto
  with n net show ?thesis by blast
qed

definition demoNames :: netNames where
  "demoNames = \<lparr>mainNetName = ''mainnet'', testNet3Name = ''testnet3'', regressionNetName = ''regtest'', simNetName = ''simnet''\<rparr>"

definition demoNode :: "byte \<Rightarrow> nodeConfig" where
  "demoNode n = \<lparr>ncPubKey = pubKeyString (replicate 33 n), ncMacaroonPath = [], ncTlsCertPath = [], ncLndUrl = [], ncPriority = 0\<rparr>"

definition demoConfig :: "string \<Rightarrow> nodeConfig list \<Rightarrow> Config" where
  "demoConfig net ns = \<lparr>cfNodes = ns, cfNetwork = net, cfDB = \<lparr>DSN = [], PoolSize = 0, MinIdleConns = 0, MaxConnAge = 0, PoolTimeout = 0, IdleTimeout = 0\<rparr>,
     cfIdentityKey = [], cfAutoSettle = False, cfListenAddress = [], cfInstrumentationAddress = [],
     cfLogging = \<lparr>logLevel = [], logFormat = [], WithCaller = False, GrpcLogging = False, GrpcPayloadLogging = False\<rparr>,
     cfLock = \<lparr>lockNamespace = [], lockName = [], lockID = [], lockDevKubeConfig = []\<rparr>, cfRoutingPolicy = None\<rparr>"

lemma demo_clients:
  "initLndClients demoNames (\<lambda>net n k. NewLndClient (\<lambda>_. None) True None None net k) (demoConfig ''testnet'' [demoNode 2, demoNode 3]) =
     Ok ([\<lparr>cfgNetwork = ''testnet3'', cfgPubKey = replicate 33 2, configCheckPassed = False\<rparr>,
          \<lparr>cfgNetwork = ''testnet3'', cfgPubKey = replicate 33 3, configCheckPassed = False\<rparr>], ''testnet3'')"
proof -
  have key: "NewPubKeyFromStr (pubKeyString (replicate 33 n)) = Ok (replicate 33 n)" for n
    by (rule NewPubKeyFromStr_pubKeyString) (simp add: PubKeySize_def)
  have ne: "replicate 33 (3 :: byte) \<noteq> replicate 33 2" by simp
  show ?thesis
    by (simp add: initLndClients_def network_def demoNames_def demoConfig_def demoNode_def key NewLndClient_def tryValidateConfig_def
        checkNode_def clientPubKey_def)
qed

text \<open>
  Which networks the configuration accepts. A node on testnet is configured as \<open>testnet\<close>; the name that btcd
  gives this network is refused, although the function has a case for it.
\<close>

lemma testnet3_is_refused:
  assumes "testNet3Name names \<noteq> mainNetName names" and "''testnet'' \<notin> {mainNetName names, testNet3Name names}"
  shows "network names (testNet3Name names) = None \<and> network names ''testnet'' = Some (testNet3Name names)"
  using assms by (simp add: network_def)

section \<open>The lock\<close>

text \<open>
  \<open>dlock.New\<close>, up to the start of the election: the Kubernetes configuration (from a file in development,
  where an empty id is replaced by a random one, else from the cluster) and the client.
\<close>

datatype lockError = ErrKubeConfig | ErrKubeClient

definition lockIdentity ::
    "DistributedLockConfig \<Rightarrow> string \<Rightarrow> bool \<Rightarrow> bool \<Rightarrow> bool \<Rightarrow> (lockError, string) outcome" where
  "lockIdentity c uuid fileOk clusterOk clientOk =
     (if lockDevKubeConfig c \<noteq> []
      then (if \<not> fileOk then Err ErrKubeConfig
            else let ident = (if lockID c = [] then uuid else lockID c)
                 in if clientOk then Ok ident else Err ErrKubeClient)
      else if \<not> clusterOk then Err ErrKubeConfig
      else if clientOk then Ok (lockID c) else Err ErrKubeClient)"

text \<open>Without a name for the lock the daemon runs without an election.\<close>

definition initDistributedLock ::
    "DistributedLockConfig \<Rightarrow> string \<Rightarrow> bool \<Rightarrow> bool \<Rightarrow> bool \<Rightarrow> (lockError, string option) outcome" where
  "initDistributedLock c uuid fileOk clusterOk clientOk =
     (if lockName c = [] then Ok None
      else case lockIdentity c uuid fileOk clusterOk clientOk of
             Ok ident \<Rightarrow> Ok (Some ident) | Err e \<Rightarrow> Err e | Panic m \<Rightarrow> Panic m)"

text \<open>
  The election, \<open>New\<close>, the service (\<open>run\<close>) and \<open>unlock\<close>. The context of the election is a child of the context of
  the daemon, which a signal cancels. As client-go documents, the election ends when its context is
  done, and then gives up the lease (\<open>ReleaseOnCancel\<close>); it also ends when the lease cannot be renewed.
  Then it calls \<open>OnStoppedLeading\<close>, which exits the process unless the context is done.
\<close>

datatype servicePhase = Starting | Running | Unlocking | Finished "bool"

record lockSystem =
  parentDone :: bool
  cancelCalled :: bool
  electing :: bool
  leaseHeld :: bool
  lockAcquired :: bool
  processExited :: bool
  service :: servicePhase

definition lockInit :: lockSystem where
  "lockInit = \<lparr>parentDone = False, cancelCalled = False, electing = True, leaseHeld = False, lockAcquired = False,
     processExited = False, service = Starting\<rparr>"

definition ctxDone :: "lockSystem \<Rightarrow> bool" where
  "ctxDone s = (parentDone s \<or> cancelCalled s)"

definition OnStoppedLeading :: "lockSystem \<Rightarrow> lockSystem" where
  "OnStoppedLeading s = (if ctxDone s then s else s\<lparr>processExited := True\<rparr>)"

inductive lockStep :: "lockSystem \<Rightarrow> unit \<Rightarrow> lockSystem \<Rightarrow> bool" where
  signal: "\<not> processExited s \<Longrightarrow> lockStep s () (s\<lparr>parentDone := True\<rparr>)"
| acquire: "\<not> processExited s \<Longrightarrow> electing s \<Longrightarrow> \<not> leaseHeld s \<Longrightarrow> \<not> lockAcquired s \<Longrightarrow> \<not> ctxDone s \<Longrightarrow>
     lockStep s () (s\<lparr>leaseHeld := True, lockAcquired := True\<rparr>)"
| lost: "\<not> processExited s \<Longrightarrow> electing s \<Longrightarrow> leaseHeld s \<Longrightarrow>
     lockStep s () (OnStoppedLeading (s\<lparr>electing := False, leaseHeld := False\<rparr>))"
| ended: "\<not> processExited s \<Longrightarrow> electing s \<Longrightarrow> ctxDone s \<Longrightarrow>
     lockStep s () (OnStoppedLeading (s\<lparr>electing := False, leaseHeld := False\<rparr>))"
| new_returns: "\<not> processExited s \<Longrightarrow> service s = Starting \<Longrightarrow> \<not> cancelCalled s \<Longrightarrow> lockAcquired s \<Longrightarrow>
     lockStep s () (s\<lparr>service := Running\<rparr>)"
| new_cancels: "\<not> processExited s \<Longrightarrow> service s = Starting \<Longrightarrow> parentDone s \<Longrightarrow> \<not> cancelCalled s \<Longrightarrow>
     lockStep s () (s\<lparr>cancelCalled := True\<rparr>)"
| new_fails: "\<not> processExited s \<Longrightarrow> service s = Starting \<Longrightarrow> cancelCalled s \<Longrightarrow> \<not> electing s \<Longrightarrow>
     lockStep s () (s\<lparr>service := Finished False\<rparr>)"
| run_returns: "\<not> processExited s \<Longrightarrow> service s = Running \<Longrightarrow> lockStep s () (s\<lparr>service := Unlocking, cancelCalled := True\<rparr>)"
| unlock_returns: "\<not> processExited s \<Longrightarrow> service s = Unlocking \<Longrightarrow> \<not> electing s \<Longrightarrow> lockStep s () (s\<lparr>service := Finished True\<rparr>)"

definition lockInv :: "lockSystem \<Rightarrow> bool" where
  "lockInv s =
     ((leaseHeld s \<longrightarrow> electing s) \<and>
      (lockAcquired s \<and> \<not> ctxDone s \<and> \<not> processExited s \<longrightarrow> leaseHeld s) \<and>
      (service s = Running \<longrightarrow> lockAcquired s \<and> \<not> cancelCalled s) \<and>
      ((\<exists>b. service s = Finished b) \<longrightarrow> \<not> electing s) \<and>
      (service s = Unlocking \<longrightarrow> cancelCalled s))"

lemma lockInv_step: "lockInv s \<Longrightarrow> lockStep s e t \<Longrightarrow> lockInv t"
  by (erule lockStep.cases) (auto simp: lockInv_def ctxDone_def OnStoppedLeading_def)

lemma lockInv_init: "lockInv lockInit"
  by (simp add: lockInv_def lockInit_def)

interpretation lease: inv_system "\<lambda>s. s = lockInit" lockStep lockInv
  by unfold_locales (auto intro: lockInv_init lockInv_step)

text \<open>
  C39: the lease protects the service until shutdown begins. In every reachable state, while the service runs, the
  process has not exited and no signal has come, the lease is held; and when the lock was released or
  could not be had, the election is over and the lease is free.
\<close>

theorem lease_protects_service:
  assumes "reach (\<lambda>s. s = lockInit) lockStep s"
  shows "(service s = Running \<and> \<not> parentDone s \<and> \<not> processExited s \<longrightarrow> leaseHeld s) \<and>
    ((\<exists>b. service s = Finished b) \<longrightarrow> \<not> electing s \<and> \<not> leaseHeld s)"
  using lease.reach_inv [OF assms] by (auto simp: lockInv_def ctxDone_def)

lemma lock_running:
  "reach (\<lambda>s. s = lockInit) lockStep (lockInit\<lparr>leaseHeld := True, lockAcquired := True, service := Running\<rparr>)"
proof -
  let ?s = "lockInit\<lparr>leaseHeld := True, lockAcquired := True\<rparr>"
  have "reach (\<lambda>s. s = lockInit) lockStep lockInit" by (simp add: reach_init)
  moreover have "lockStep lockInit () ?s" using lockStep.acquire [of lockInit] by (simp add: lockInit_def ctxDone_def)
  moreover have "lockStep ?s () (?s\<lparr>service := Running\<rparr>)" using lockStep.new_returns [of ?s] by (simp add: lockInit_def)
  ultimately show ?thesis
    using reach_step [where step = lockStep and init = "\<lambda>s. s = lockInit" and e = "()"] by blast
qed

theorem lease_protects_service_witness:
  "leaseHeld (lockInit\<lparr>leaseHeld := True, lockAcquired := True, service := Running\<rparr>)"
  using lease_protects_service [OF lock_running] by (simp add: lockInit_def)

text \<open>
  C40: a signal can release the lease while the service still runs, so that another instance can start beside it: the
  election uses a child of the context that the signal cancels. The comment in \<open>New\<close> demands the opposite.
\<close>

theorem signal_releases_lease_early:
  "\<exists>s. reach (\<lambda>s. s = lockInit) lockStep s \<and> service s = Running \<and> \<not> processExited s \<and> \<not> leaseHeld s \<and> \<not> electing s"
proof -
  let ?s = "lockInit\<lparr>leaseHeld := True, lockAcquired := True, service := Running\<rparr>"
  let ?t = "?s\<lparr>parentDone := True\<rparr>"
  let ?u = "?t\<lparr>electing := False, leaseHeld := False\<rparr>"
  have "lockStep ?s () ?t" using lockStep.signal [of ?s] by (simp add: lockInit_def)
  moreover have "lockStep ?t () ?u"
    using lockStep.ended [of ?t] by (simp add: lockInit_def OnStoppedLeading_def ctxDone_def)
  ultimately have "reach (\<lambda>s. s = lockInit) lockStep ?u"
    using lock_running reach_step [where step = lockStep and init = "\<lambda>s. s = lockInit" and e = "()"] by blast
  then show ?thesis by (rule exI [of _ ?u, OF conjI]) (simp add: lockInit_def)
qed

end
