(* ===== verification/Startup.thy ===== *)
theory Startup
  imports Daemon Mux
begin

text \<open>
  \<open>run\<close> of \<open>cmd/lnmuxd/run.go\<close>, up to the start of the goroutines: the daemon creates the clients of the nodes,
  the key ring, the invoice creator, the configuration of the registry and one multiplexer per node, all
  from one configuration. Whether the database answers and whether the address can be listened on
  are inputs. Of the rpc server, the chains of interceptors (metrics and logs) that the configuration selects.
\<close>

section \<open>The start of the daemon\<close>

definition DefaultListenAddress :: string where
  "DefaultListenAddress = ''localhost:19090''"

datatype daemonError =
    StartDb | StartClients initError | StartKey configError | StartCreator creatorError | StartListen | StartMux

datatype grpcInterceptor = InterceptPrometheus | InterceptLog | InterceptPayloadLog

text \<open>The interceptors of the unary calls, the first one outermost; those of the streams are the same.\<close>

definition serverInterceptors :: "LoggingConfig \<Rightarrow> grpcInterceptor list" where
  "serverInterceptors l =
     [InterceptPrometheus] @ (if GrpcLogging l then [InterceptLog] else []) @ (if GrpcPayloadLogging l then [InterceptPayloadLog] else [])"

record ('sk, 'pk) daemon =
  dmCreator :: "('sk, 'pk) InvoiceCreator"
  dmRegistry :: RegistryConfig
  dmUnary :: "grpcInterceptor list"
  dmStream :: "grpcInterceptor list"
  dmMuxes :: "Mux list"
  dmListen :: string

fun newMuxes :: "('sk, 'pk) KeyRing \<Rightarrow> RoutingPolicy \<Rightarrow> lndClient list \<Rightarrow> Mux list \<Rightarrow> (daemonError, Mux list) outcome" where
  "newMuxes keyRing policy [] muxes = Ok muxes"
| "newMuxes keyRing policy (lnd # lnds) muxes =
     (case New keyRing (clientPubKey lnd) policy of
        Ok mux \<Rightarrow> newMuxes keyRing policy lnds (muxes @ [mux])
      | Err _ \<Rightarrow> Err StartMux
      | Panic m \<Rightarrow> Panic m)"

definition listenOn :: "Config \<Rightarrow> string" where
  "listenOn c = (if cfListenAddress c = [] then DefaultListenAddress else cfListenAddress c)"

text \<open>The part of \<open>run\<close> that follows the clients and the identity key.\<close>

definition assemble ::
    "('sk, 'pk, 'sg) keyOps \<Rightarrow> (string \<Rightarrow> bool) \<Rightarrow> Config \<Rightarrow> lndClient list \<Rightarrow> string \<Rightarrow> bytes
     \<Rightarrow> (daemonError, ('sk, 'pk) daemon) outcome" where
  "assemble ops listen c lnds net identityKey =
     (let keyRing = NewKeyRing ops identityKey;
          policy = GetRoutingPolicy c
      in case NewInvoiceCreator ops keyRing (map clientPubKey lnds) net policy of
           Err e \<Rightarrow> Err (StartCreator e)
         | Panic m \<Rightarrow> Panic m
         | Ok creator \<Rightarrow>
             if \<not> listen (listenOn c) then Err StartListen
             else (case newMuxes keyRing policy lnds [] of
                     Err e \<Rightarrow> Err e
                   | Panic m \<Rightarrow> Panic m
                   | Ok muxes \<Rightarrow> Ok \<lparr>dmCreator = creator, dmRegistry = productionConfig identityKey c,
                                    dmUnary = serverInterceptors (cfLogging c), dmStream = serverInterceptors (cfLogging c), dmMuxes = muxes,
                                    dmListen = listenOn c\<rparr>))"

definition startDaemon ::
    "('sk, 'pk, 'sg) keyOps \<Rightarrow> netNames \<Rightarrow> (string \<Rightarrow> nodeConfig \<Rightarrow> pubkey \<Rightarrow> (lndError, lndClient) outcome) \<Rightarrow> bool
     \<Rightarrow> (string \<Rightarrow> bool) \<Rightarrow> Config \<Rightarrow> (daemonError, ('sk, 'pk) daemon) outcome" where
  "startDaemon ops names connect dbOk listen c =
     (if \<not> dbOk then Err StartDb
      else case initLndClients names connect c of
        Err e \<Rightarrow> Err (StartClients e)
      | Panic m \<Rightarrow> Panic m
      | Ok (lnds, net) \<Rightarrow>
          (case GetIdentityKey c of
             Err e \<Rightarrow> Err (StartKey e)
           | Panic m \<Rightarrow> Panic m
           | Ok identityKey \<Rightarrow> assemble ops listen c lnds net identityKey))"

section \<open>The parts fit together\<close>

lemma newMuxes_Ok:
  "newMuxes keyRing policy lnds acc = Ok muxes \<Longrightarrow>
     muxes = acc @ map (\<lambda>l. \<lparr>muxNode = clientPubKey l, muxRoutingPolicy = policy,
       virtualChannel = virtualChannelFromNode (clientPubKey l)\<rparr>) lnds"
  by (induction keyRing policy lnds acc rule: newMuxes.induct) (auto simp: New_def DeriveKey_def split: outcome.splits)

lemma those_map: "those (map f xs) = Some ys \<Longrightarrow> map Some ys = map f xs"
  by (induction xs arbitrary: ys) (auto split: option.splits)

lemma startDaemon_Ok:
  assumes "startDaemon ops names connect dbOk listen c = Ok d"
  obtains lnds net key where "initLndClients names connect c = Ok (lnds, net)" "GetIdentityKey c = Ok key"
    "dmRegistry d = productionConfig key c" "icKeyRing (dmCreator d) = NewKeyRing ops key"
    "routingPolicy (dmCreator d) = GetRoutingPolicy c" "map Some (gwPubKeys (dmCreator d)) = map (parsePubKey ops \<circ> clientPubKey) lnds"
    "dmMuxes d = map (\<lambda>l. \<lparr>muxNode = clientPubKey l, muxRoutingPolicy = GetRoutingPolicy c,
       virtualChannel = virtualChannelFromNode (clientPubKey l)\<rparr>) lnds"
proof -
  from assms obtain lnds net key where i: "initLndClients names connect c = Ok (lnds, net)" "GetIdentityKey c = Ok key"
    and a: "assemble ops listen c lnds net key = Ok d"
    by (auto simp: startDaemon_def split: if_splits outcome.splits)
  from a show thesis
    by (intro that [OF i])
      (auto simp: assemble_def Let_def NewInvoiceCreator_def DeriveKey_def split: outcome.splits option.splits if_splits
        dest!: newMuxes_Ok those_map)
qed

lemma GetIdentityKey_length: "GetIdentityKey c = Ok key \<Longrightarrow> length key = 32"
  by (auto simp: GetIdentityKey_def split: outcome.splits if_splits)

lemma map_parsed:
  assumes "map Some ys = map f xs" and "\<And>x y. f x = Some y \<Longrightarrow> g y = h x"
  shows "map g ys = map h xs"
  using assms(1)
proof (induction xs arbitrary: ys)
  case (Cons x xs)
  then show ?case using assms(2) by (cases ys) (auto dest: sym)
qed simp

text \<open>The laws of the key functions that the start relies on, and what they give: one key, one channel per hint.\<close>

lemma started_key:
  assumes "startDaemon ops names connect dbOk listen c = Ok d"
    and "\<And>key. GetIdentityKey c = Ok key \<Longrightarrow> serializePriv ops (fst (privKeyFromBytes ops key)) = key"
  shows "PrivKey (dmRegistry d) = serializePriv ops (krPrivKey (icKeyRing (dmCreator d)))" "length (PrivKey (dmRegistry d)) = 32"
    "AutoSettle (dmRegistry d) = cfAutoSettle c"
proof -
  obtain key where key: "GetIdentityKey c = Ok key" "dmRegistry d = productionConfig key c" "icKeyRing (dmCreator d) = NewKeyRing ops key"
    by (rule startDaemon_Ok [OF assms(1)])
  then show "PrivKey (dmRegistry d) = serializePriv ops (krPrivKey (icKeyRing (dmCreator d)))"
    using assms(2) [OF key(1)] by (auto simp: productionConfig_def NewKeyRing_def split: prod.splits)
  show "length (PrivKey (dmRegistry d)) = 32" "AutoSettle (dmRegistry d) = cfAutoSettle c"
    using GetIdentityKey_length [OF key(1)] by (simp_all add: key(2) productionConfig_def)
qed

lemma started_channels:
  assumes "startDaemon ops names connect dbOk listen c = Ok d"
    and "\<And>k pk. parsePubKey ops k = Some pk \<Longrightarrow> serializeCompressed ops pk = k"
  shows "map (virtualChannelFromNode \<circ> serializeCompressed ops) (gwPubKeys (dmCreator d)) = map virtualChannel (dmMuxes d)"
proof -
  obtain lnds where
    gw: "map Some (gwPubKeys (dmCreator d)) = map (parsePubKey ops \<circ> clientPubKey) lnds" and
    muxes: "dmMuxes d = map (\<lambda>l. \<lparr>muxNode = clientPubKey l, muxRoutingPolicy = GetRoutingPolicy c,
       virtualChannel = virtualChannelFromNode (clientPubKey l)\<rparr>) lnds" by (rule startDaemon_Ok [OF assms(1)])
  show ?thesis
    using map_parsed [OF gw, of "virtualChannelFromNode \<circ> serializeCompressed ops" "virtualChannelFromNode \<circ> clientPubKey"] assms(2)
    by (simp add: muxes comp_def)
qed

lemma started_nodes:
  assumes "startDaemon ops names (\<lambda>net n k. NewLndClient versionOk (conn n) (getVersion n) (getInfo n) net k) dbOk listen c = Ok d"
    and "p \<in> set (dmMuxes d)"
  shows "length (muxNode p) = 33"
proof -
  obtain lnds net where init: "initLndClients names (\<lambda>net n k. NewLndClient versionOk (conn n) (getVersion n) (getInfo n) net k) c = Ok (lnds, net)"
    and muxes: "dmMuxes d = map (\<lambda>l. \<lparr>muxNode = clientPubKey l, muxRoutingPolicy = GetRoutingPolicy c,
       virtualChannel = virtualChannelFromNode (clientPubKey l)\<rparr>) lnds" by (rule startDaemon_Ok [OF assms(1)])
  from assms(2) obtain l where l: "l \<in> set lnds" "muxNode p = clientPubKey l" by (auto simp: muxes)
  have same: "map (Ok \<circ> clientPubKey) lnds = map (NewPubKeyFromStr \<circ> ncPubKey) (cfNodes c)" using nodes_are_distinct [OF init] by (elim conjE)
  have "Ok (clientPubKey l) \<in> set (map (NewPubKeyFromStr \<circ> ncPubKey) (cfNodes c))" unfolding same [symmetric] using l(1) by simp
  then obtain n :: nodeConfig where "NewPubKeyFromStr (ncPubKey n) = Ok (clientPubKey l)" by (auto dest: sym)
  with l(2) show ?thesis by (auto simp: NewPubKeyFromStr_def NewPubKeyFromBytes_def PubKeySize_def split: if_splits outcome.splits)
qed

text \<open>
  C16: the parts of a started daemon fit together. Suppose that parsing a compressed public key and serialising it
  again gives the same bytes, and so does reading and serialising the private key of the configuration
  (which is so if it is in the range of the curve). Then the hop hints of the invoices name, in order,
  exactly the virtual channels of the multiplexers, one for every configured node; the creator and all
  multiplexers use the same routing policy; the registry decodes payment addresses with the key the
  creator encodes them with; and the multiplexers belong to distinct nodes.
\<close>

theorem daemon_is_wired:
  assumes start: "startDaemon ops names (\<lambda>net n k. NewLndClient versionOk (conn n) (getVersion n) (getInfo n) net k) dbOk listen c = Ok d"
    and pub: "\<And>k pk. parsePubKey ops k = Some pk \<Longrightarrow> serializeCompressed ops pk = k"
    and priv: "\<And>key. GetIdentityKey c = Ok key \<Longrightarrow> serializePriv ops (fst (privKeyFromBytes ops key)) = key"
  shows "map (hintChannelID \<circ> hopHint ops (routingPolicy (dmCreator d))) (gwPubKeys (dmCreator d)) = map virtualChannel (dmMuxes d) \<and>
    map (Ok \<circ> muxNode) (dmMuxes d) = map (NewPubKeyFromStr \<circ> ncPubKey) (cfNodes c) \<and> distinct (map muxNode (dmMuxes d)) \<and>
    (\<forall>m \<in> set (dmMuxes d). muxRoutingPolicy m = routingPolicy (dmCreator d)) \<and>
    PrivKey (dmRegistry d) = serializePriv ops (krPrivKey (icKeyRing (dmCreator d))) \<and> length (PrivKey (dmRegistry d)) = 32"
proof -
  let ?new = "\<lambda>net n k. NewLndClient versionOk (conn n) (getVersion n) (getInfo n) net k"
  from startDaemon_Ok [OF start] obtain lnds net key where
    init: "initLndClients names ?new c = Ok (lnds, net)" and key: "GetIdentityKey c = Ok key" and
    reg: "dmRegistry d = productionConfig key c" and ring: "icKeyRing (dmCreator d) = NewKeyRing ops key" and
    policy: "routingPolicy (dmCreator d) = GetRoutingPolicy c" and
    gw: "map Some (gwPubKeys (dmCreator d)) = map (parsePubKey ops \<circ> clientPubKey) lnds" and
    muxes: "dmMuxes d = map (\<lambda>l. \<lparr>muxNode = clientPubKey l, muxRoutingPolicy = GetRoutingPolicy c,
       virtualChannel = virtualChannelFromNode (clientPubKey l)\<rparr>) lnds" by blast
  have "map (hintChannelID \<circ> hopHint ops (routingPolicy (dmCreator d))) (gwPubKeys (dmCreator d)) = map virtualChannel (dmMuxes d)"
    using started_channels [OF start pub] by (simp add: hopHint_def comp_def)
  with started_key [OF start priv] show ?thesis using nodes_are_distinct [OF init] policy by (auto simp: muxes comp_def)
qed

definition demoDaemonConfig :: Config where
  "demoDaemonConfig = (demoConfig ''testnet'' [demoNode 2, demoNode 3])\<lparr>cfIdentityKey := hexEncode (replicate 32 7)\<rparr>"

theorem daemon_is_wired_witness:
  "\<exists>d. startDaemon demoKeyOps demoNames (\<lambda>net n k. NewLndClient (\<lambda>_. None) True None None net k) True (\<lambda>_. True) demoDaemonConfig = Ok d \<and>
     length (dmMuxes d) = 2 \<and> distinct (map muxNode (dmMuxes d)) \<and> PrivKey (dmRegistry d) = replicate 32 7"
proof -
  let ?new = "\<lambda>net n k. NewLndClient (\<lambda>_. None) True None None net k"
  have same: "cfNodes demoDaemonConfig = [demoNode 2, demoNode 3]" "cfNetwork demoDaemonConfig = ''testnet''"
    by (simp_all add: demoDaemonConfig_def demoConfig_def)
  have clients: "initLndClients demoNames ?new demoDaemonConfig = initLndClients demoNames ?new (demoConfig ''testnet'' [demoNode 2, demoNode 3])"
    by (simp add: initLndClients_def demoDaemonConfig_def demoConfig_def cong: option.case_cong)
  have key: "GetIdentityKey demoDaemonConfig = Ok (replicate 32 7)"
    by (simp add: GetIdentityKey_def demoDaemonConfig_def)
  have parse: "parsePubKey demoKeyOps k = Some k" for k by (simp add: demoKeyOps_def)
  obtain d where d: "startDaemon demoKeyOps demoNames ?new True (\<lambda>_. True) demoDaemonConfig = Ok d"
    by (simp add: startDaemon_def clients demo_clients key assemble_def NewInvoiceCreator_def DeriveKey_def New_def Let_def
        clientPubKey_def parse)
  have wired: "map (Ok \<circ> muxNode) (dmMuxes d) = map (NewPubKeyFromStr \<circ> ncPubKey) (cfNodes demoDaemonConfig)"
    "distinct (map muxNode (dmMuxes d))"
    using daemon_is_wired [OF d] key by (auto simp: demoKeyOps_def)
  have "length (dmMuxes d) = 2" using arg_cong [OF wired(1), of length] by (simp add: same)
  moreover have "PrivKey (dmRegistry d) = replicate 32 7"
    by (rule startDaemon_Ok [OF d]) (use key in \<open>simp add: productionConfig_def\<close>)
  ultimately show ?thesis using d wired(2) by simp
qed

end
