(* ===== verification/Payment_Order.thy ===== *)
theory Payment_Order
  imports Payment_System
begin

text \<open>
  What a node is told about one HTLC over all its streams: never to fail it after it was told to settle it. A
  fail can come from the registry, or from the checks of the multiplexer, which come before the database
  is asked; so this needs that a node offers the same HTLC again under the same key, and that the onion
  is decoded independently of the height (\<open>mux.go\<close>: the replay log is disabled).
\<close>

section \<open>The same HTLC again\<close>

definition rpcHtlcKey :: "pubkey \<Rightarrow> interceptedHtlc \<Rightarrow> HtlcKey" where
  "rpcHtlcKey node htlc = HtlcKey node (ckChanID (ihCircuitKey htlc)) (ckHtlcID (ihCircuitKey htlc))"

fun replaysSame :: "(HtlcKey \<Rightarrow> interceptedHtlc) \<Rightarrow> ('o streamResolver, 'c) nodeEvent \<Rightarrow> bool" where
  "replaysSame htlcOf (NodeReply node htlc) = (htlc = htlcOf (rpcHtlcKey node htlc))"
| "replaysSame htlcOf (NodeMuxReturn node htlc e) = (htlc = htlcOf (rpcHtlcKey node htlc))"
| "replaysSame htlcOf (NodeSys (SysLoop (NewHtlc h) a)) = (mrHtlc (snd (resolve h)) = htlcOf (circuitKey h))"
| "replaysSame htlcOf (NodeSys (SysDied (NewHtlc h))) = (mrHtlc (snd (resolve h)) = htlcOf (circuitKey h))"
| "replaysSame htlcOf e = True"

abbreviation sameStep ::
    "'q registryEnv \<Rightarrow> ('i, 'o) sphinxOps \<Rightarrow> Mux list \<Rightarrow> (HtlcKey \<Rightarrow> hash) \<Rightarrow> (HtlcKey \<Rightarrow> interceptedHtlc) \<Rightarrow> ('o, 'c, 'q) nodeSystem
     \<Rightarrow> ('o streamResolver, 'c) nodeEvent \<Rightarrow> ('o, 'c, 'q) nodeSystem \<Rightarrow> bool" where
  "sameStep env sx muxes hashOf htlcOf s e t \<equiv> nodeStep env sx muxes hashOf s e t \<and> replaysSame htlcOf e"

text \<open>The multiplexer of the node hands the HTLC to the registry, at some height.\<close>

definition passes :: "('i, 'o) sphinxOps \<Rightarrow> Mux list \<Rightarrow> pubkey \<Rightarrow> interceptedHtlc \<Rightarrow> bool" where
  "passes sx muxes node htlc =
     (\<exists>p \<in> set muxes. muxNode p = node \<and>
        (\<exists>hgt ch h s'. Run_step sx p (HtlcReceived htlc) (Some hgt, ch) = (MuxContinue (Some h), s')))"

definition heightFree :: "('i, 'o) sphinxOps \<Rightarrow> bool" where
  "heightFree sx = (\<forall>b h x y. DecodeHopIterator sx b h x = DecodeHopIterator sx b h y)"

lemma ProcessHtlc_again:
  assumes "heightFree sx" and "ProcessHtlc sx p htlc h1 c1 = (Ok (Some x), c)"
  shows "\<exists>y. ProcessHtlc sx p htlc h2 c2 = (Ok (Some y), c2)"
proof -
  have "DecodeHopIterator sx b h (word_of_int h2) = DecodeHopIterator sx b h (word_of_int h1)" for b h
    using assms(1) by (auto simp: heightFree_def)
  with assms(2) show ?thesis
    by (auto simp: ProcessHtlc_def Let_def replied_Some split: if_splits option.splits prod.splits)
qed

lemma passes_again:
  assumes "heightFree sx" and "distinct (map muxNode muxes)" and "passes sx muxes (muxNode p) htlc" and "p \<in> set muxes"
    and "Run_step sx p (HtlcReceived htlc) (Some hgt, ch) = (MuxContinue n, s')"
  shows "n \<noteq> None"
proof -
  from assms(3) obtain q h1 c1 x s1 where q: "q \<in> set muxes" "muxNode q = muxNode p"
    and run: "Run_step sx q (HtlcReceived htlc) (Some h1, c1) = (MuxContinue (Some x), s1)"
    unfolding passes_def by blast
  from q assms(2,4) have "q = p" by (auto simp: distinct_map dest: inj_onD)
  with run have "Run_step sx p (HtlcReceived htlc) (Some h1, c1) = (MuxContinue (Some x), s1)" by simp
  then have "outgoingChanID htlc = virtualChannel p" "ProcessHtlc sx p htlc h1 c1 = (Ok (Some x), snd s1)"
    by (auto simp: Run_step_def split: if_splits prod.splits outcome.splits)
  with ProcessHtlc_again [OF assms(1) this(2), of hgt ch] assms(5) show ?thesis by (auto simp: Run_step_def)
qed

section \<open>A settled HTLC passed the multiplexer\<close>

definition passed :: "('i, 'o) sphinxOps \<Rightarrow> Mux list \<Rightarrow> (HtlcKey \<Rightarrow> interceptedHtlc) \<Rightarrow> HtlcKey \<Rightarrow> bool" where
  "passed sx muxes htlcOf k = passes sx muxes (Node k) (htlcOf k)"

lemma offered_passed:
  assumes "offered env sx muxes hashOf s ev" and "replaysSame htlcOf e" and "e = NodeSys (SysLoop ev a) \<or> e = NodeSys (SysDied ev)"
  shows "wfEvent (\<lambda>r. if passed sx muxes htlcOf (streamKey r) then streamKey r else k0) hashOf ev"
  using assms(1)
proof cases
  case other
  then show ?thesis by (cases ev) auto
next
  case (notified p req htlc h height ch)
  from notified(3) have run: "Run_step sx p (HtlcReceived htlc) (nsHeight s (muxNode p), channel (lastStream (muxNode p) s)) =
      (MuxContinue (Some h), height, ch)" by (rule muxTakes_Some)
  then obtain hgt where hgt: "nsHeight s (muxNode p) = Some hgt" by (auto simp: Run_step_def split: option.splits)
  have key: "muxKey (resolve h) = circuitKey h" "mrHtlc (resolve h) = htlc" "mrNode (resolve h) = muxNode p"
    using Run_step_notified [OF run] by auto
  have "htlc = htlcOf (circuitKey h)" using assms(2,3) notified(1) key(2) by auto
  moreover have "Node (circuitKey h) = muxNode p" unfolding key(1) [symmetric] by (simp add: muxKey_def key(3))
  ultimately have "passed sx muxes htlcOf (circuitKey h)"
    using run hgt notified(2) by (simp add: passed_def passes_def) blast
  with notified(1,4) key(1) show ?thesis by (simp add: wfHtlc_def streamKey_def)
qed

lemma fresh_key: "\<exists>k. findHtlc k db = None"
proof -
  have "inj (\<lambda>n. HtlcKey (replicate n 0) 0 0)" by (rule injI) (metis HtlcKey.inject length_replicate)
  then have "infinite (UNIV :: HtlcKey set)" by (meson finite_subset infinite_UNIV_char_0 finite_imageD subset_UNIV)
  then obtain k where "k \<notin> dhKey ` set (htlcTable db)" by (meson List.finite_set ex_new_if_finite finite_imageI)
  then show ?thesis by (auto simp: findHtlc_None)
qed

lemma settled_passed:
  assumes "reach (\<lambda>s. s = emptySystem env) (sameStep env sx muxes hashOf htlcOf) s"
    and "CallResolve r (HtlcSettleResolution p a) \<in> set (calls (nsRegistry s))"
  shows "passed sx muxes htlcOf (streamKey r)"
proof (rule ccontr)
  assume not: "\<not> passed sx muxes htlcOf (streamKey r)"
  obtain k0 where k0: "findHtlc k0 (cdb (nsRegistry s)) = None" using fresh_key by blast
  let ?keyOf = "\<lambda>r. if passed sx muxes htlcOf (streamKey r) then streamKey r else k0"
  have "sysReach env ?keyOf hashOf (nsRegistry s)"
  proof (rule reach_project [OF assms(1)])
    show "nsRegistry t = nsRegistry s \<or> (\<exists>e'. sysStep env ?keyOf hashOf (nsRegistry s) e' (nsRegistry t))"
      if "sameStep env sx muxes hashOf htlcOf s e t" for s e t
      using that nodeStep_sys_for [of env sx muxes hashOf s e t ?keyOf] offered_passed [of env sx muxes hashOf s _ htlcOf e _ k0] by blast
  qed
  from settled_call_recorded [OF this assms(2)] not k0 show False by simp
qed

section \<open>The history of a node\<close>

text \<open>What was sent to a node, in order, followed by what its live stream has queued.\<close>

definition sentTo :: "interceptorState list \<Rightarrow> rpcInterceptResponse list" where
  "sentTo ss = concat (map sent ss)"

definition history :: "bool \<Rightarrow> interceptorState list \<Rightarrow> rpcInterceptResponse list" where
  "history live ss = sentTo ss @ (if live then map toRpc (replies (channel (last ss))) else [])"

definition contradicts :: "rpcInterceptResponse \<Rightarrow> rpcInterceptResponse \<Rightarrow> bool" where
  "contradicts m m' = (rpcAction m = ActionSettle \<and> rpcAction m' = ActionFail \<and>
     rpcChanId m = rpcChanId m' \<and> rpcHtlcId m = rpcHtlcId m')"

definition consistent :: "rpcInterceptResponse list \<Rightarrow> bool" where
  "consistent l = sorted_wrt (\<lambda>m m'. \<not> contradicts m m') l"

lemma consistent_prefix: "consistent (l @ l') \<Longrightarrow> consistent l"
  by (simp add: consistent_def sorted_wrt_append)

lemma consistent_snoc: "consistent (l @ [m]) \<longleftrightarrow> consistent l \<and> (\<forall>m' \<in> set l. \<not> contradicts m' m)"
  by (auto simp: consistent_def sorted_wrt_append)

lemma history_dead: "consistent (history live ss) \<Longrightarrow> consistent (history False ss)"
  by (auto simp: history_def dest: consistent_prefix)

lemma setChannel_sel [simp]: "sent (setChannel ch st) = sent st" "channel (setChannel ch st) = ch"
  by (simp_all add: setChannel_def)

lemma sentTo_update: "sentTo (ss[n := setChannel ch (ss ! n)]) = sentTo ss"
proof -
  have "map sent (ss[n := setChannel ch (ss ! n)]) = map sent ss"
    by (cases "n < length ss") (auto simp: map_update list_update_beyond intro: list_update_same_conv [THEN iffD2])
  then show ?thesis by (simp add: sentTo_def)
qed

lemma history_in_streams:
  assumes "m \<in> set (history live ss)" and "live \<longrightarrow> ss \<noteq> []"
  shows "\<exists>st \<in> set ss. m \<in> set (outputs st)"
  using assms by (auto simp: history_def sentTo_def outputs_def split: if_splits)

text \<open>The channel of the last stream got at most one more reply.\<close>

definition appends :: "(queuedReply \<Rightarrow> bool) \<Rightarrow> replyChannel \<Rightarrow> replyChannel \<Rightarrow> bool" where
  "appends P ch ch' = (replies ch' = replies ch \<or> (\<exists>q. P q \<and> replies ch' = replies ch @ [q]))"

lemma appends_replyTo:
  "P \<lparr>incomingKey = ihCircuitKey htlc, replyHash = ihHash htlc, resp = r\<rparr> \<Longrightarrow> appends P ch (snd (replyTo htlc r ch))"
  by (auto simp: appends_def replyTo_def reply_def)

lemma appends_refl [simp]: "appends P ch ch"
  by (simp add: appends_def)

lemma history_update:
  assumes "appends P (channel (ss ! n)) ch" and "consistent (history live ss)" and "live \<longrightarrow> ss \<noteq> []"
    and "\<And>q m. P q \<Longrightarrow> live \<Longrightarrow> m \<in> set (history live ss) \<Longrightarrow> \<not> contradicts m (toRpc q)"
  shows "consistent (history live (ss[n := setChannel ch (ss ! n)]))"
proof (cases "live \<and> n = length ss - 1")
  case True
  then have ss: "ss \<noteq> []" "ss ! n = last ss" "last (ss[n := setChannel ch (ss ! n)]) = setChannel ch (last ss)"
    using assms(3) by (auto simp: last_conv_nth last_list_update)
  from assms(1) consider "replies ch = replies (channel (last ss))" | q where "P q" "replies ch = replies (channel (last ss)) @ [q]"
    unfolding appends_def ss(2) by blast
  then show ?thesis
  proof cases
    case (2 q)
    then have "history live (ss[n := setChannel ch (ss ! n)]) = history live ss @ [toRpc q]"
      using True ss(3) by (simp add: history_def sentTo_update)
    with assms(2,4) True 2(1) show ?thesis by (auto simp: consistent_snoc)
  qed (use assms(2) True ss(3) in \<open>simp add: history_def sentTo_update\<close>)
next
  case False
  then have "live \<Longrightarrow> last (ss[n := setChannel ch (ss ! n)]) = last ss" using assms(3) by (auto simp: last_list_update)
  with assms(2) show ?thesis by (cases live) (simp_all add: history_def sentTo_update)
qed

section \<open>The steps keep the history consistent\<close>

lemma appends_failLocal:
  "P ActionFail \<Longrightarrow> appends (\<lambda>q. incomingKey q = ihCircuitKey htlc \<and> P (action (resp q))) ch (snd (failLocal sx htlc ob m ch))"
  by (auto simp: failLocal_def zeroResponse_def intro!: appends_replyTo split: option.splits)

lemma appends_failHtlc: "appends (\<lambda>q. incomingKey q = ihCircuitKey htlc) ch (snd (failHtlc htlc code ch))"
  by (auto simp: failHtlc_def intro!: appends_replyTo split: outcome.splits)

lemma appends_ProcessHtlc: "appends (\<lambda>q. incomingKey q = ihCircuitKey htlc) ch (snd (ProcessHtlc sx p htlc height ch))"
  using appends_failLocal [of "\<lambda>_. True" htlc ch sx]
  by (simp add: ProcessHtlc_def Let_def snd_replied appends_failHtlc split: option.split prod.split)

lemma appends_Run_step:
  "Run_step sx p (HtlcReceived htlc) (hgt, ch) = (res, height, ch') \<Longrightarrow> appends (\<lambda>q. incomingKey q = ihCircuitKey htlc) ch ch'"
  using appends_ProcessHtlc [of htlc ch sx p "the hgt"]
  by (auto simp: Run_step_def intro!: appends_replyTo split: option.splits if_splits prod.splits outcome.splits)

lemma appends_resolveHtlc:
  "appends (\<lambda>q. incomingKey q = ihCircuitKey (mrHtlc r) \<and> (action (resp q) = ActionFail \<longrightarrow> (\<exists>reason. res = HtlcFailResolution reason)))
     ch (snd (resolveHtlc sx r res ch))"
proof (cases res)
  case (HtlcSettleResolution p a)
  then show ?thesis by (auto simp: resolveHtlc_def zeroResponse_def intro!: appends_replyTo)
next
  case (HtlcFailResolution reason)
  then show ?thesis
    using appends_failLocal [of "\<lambda>_. True" "mrHtlc r" ch sx "mrObfuscator r"] by (auto simp: resolveHtlc_def Let_def)
qed

text \<open>A fail of the registry is for an HTLC that the database does not record, while settles are recorded.\<close>

lemma deliverCall_consistent:
  assumes ok: "okCall streamKey db c" and rec: "\<And>r p a. CallResolve r (HtlcSettleResolution p a) \<in> set cs \<Longrightarrow> recorded db (streamKey r) p"
    and ss: "streamsOk cs ss" "live \<longrightarrow> ss node \<noteq> []" "consistent (history live (ss node))"
  shows "consistent (history live (deliverCall sx c ss node))"
proof (cases c)
  case (CallResolve nr res)
  obtain n r where nr: "nr = (n, r)" by fastforce
  let ?st = "ss (mrNode r) ! n"
  show ?thesis
  proof (cases "mrNode r = node")
    case True
    have "consistent (history live ((ss node)[n := setChannel (snd (resolveHtlc sx r res (channel (ss node ! n)))) (ss node ! n)]))"
    proof (rule history_update [OF appends_resolveHtlc ss(3,2)])
      fix q :: queuedReply and m assume q: "incomingKey q = ihCircuitKey (mrHtlc r) \<and> (action (resp q) = ActionFail \<longrightarrow> (\<exists>reason. res = HtlcFailResolution reason))"
        and m: "m \<in> set (history live (ss node))"
      show "\<not> contradicts m (toRpc q)"
      proof
        assume con: "contradicts m (toRpc q)"
        then obtain reason where "res = HtlcFailResolution reason" using q by (auto simp: contradicts_def)
        with ok have "findHtlc (streamKey (n, r)) db = None" by (simp add: CallResolve nr)
        moreover have "rpcKey node m = streamKey (n, r)"
          using con q True by (auto simp: contradicts_def rpcKey_def streamKey_def muxKey_def)
        moreover have "backed cs (rpcKey node m) (rpcPreimage m)"
          using history_in_streams [OF m ss(2)] ss(1) con by (auto simp: streamsOk_def contradicts_def intro: streamOkD)
        ultimately show False using rec recorded_found by (fastforce simp: backed_def)
      qed
    qed
    then show ?thesis by (simp add: deliverCall_def CallResolve nr True Let_def)
  qed (use ss(3) in \<open>simp add: deliverCall_def CallResolve nr Let_def\<close>)
qed (use ss(3) in \<open>simp add: deliverCall_def\<close>)

lemma deliver_consistent:
  assumes "\<forall>c \<in> set new. okCall streamKey db c" and "set new \<subseteq> set cs"
    and "\<And>r p a. CallResolve r (HtlcSettleResolution p a) \<in> set cs \<Longrightarrow> recorded db (streamKey r) p"
    and "streamsOk cs ss" and "live \<longrightarrow> ss node \<noteq> []" and "consistent (history live (ss node))"
  shows "consistent (history live (fold (deliverCall sx) new ss node))"
  using assms
proof (induction new arbitrary: ss)
  case (Cons c new)
  have "streamsOk cs (deliverCall sx c ss)" using Cons.prems by (intro streamsOk_deliverCall) auto
  moreover have "live \<longrightarrow> deliverCall sx c ss node \<noteq> []" using deliver_nonempty [of sx "[c]" ss node] Cons.prems(5) by simp
  moreover have "consistent (history live (deliverCall sx c ss node))"
    using Cons.prems by (intro deliverCall_consistent [of db c cs]) auto
  ultimately show ?case using Cons.IH [of "deliverCall sx c ss"] Cons.prems by simp
qed simp

lemma sentTo_deliver: "sentTo (fold (deliverCall sx) new ss node) = sentTo (ss node)"
proof (induction new arbitrary: ss)
  case (Cons c new)
  have "sentTo (deliverCall sx c ss node) = sentTo (ss node)"
    by (auto simp: deliverCall_def Let_def sentTo_update split: call.split)
  with Cons show ?case by simp
qed simp

definition orderInv :: "('o, 'c, 'q) nodeSystem \<Rightarrow> bool" where
  "orderInv s = (\<forall>node. consistent (history (nsLive s node) (nsStreams s node)))"

lemma setLast_update: "ss node \<noteq> [] \<Longrightarrow> setLast node st ss = ss(node := (ss node)[length (ss node) - 1 := st])"
  by (metis setLast_def append_butlast_last_id length_butlast list_update_length)

lemma history_start_step:
  assumes "xs \<noteq> []" and "start_step sev (last xs) = (r, st)"
  shows "\<exists>l. history True xs = history (r = Ok ()) (butlast xs @ [st]) @ l"
proof -
  have "sentTo xs = sentTo (butlast xs) @ sent (last xs)" using assms(1)
    by (metis append_butlast_last_id concat.simps concat_append list.simps(8,9) map_append self_append_conv sentTo_def)
  with assms(2) show ?thesis
    by (auto simp: history_def start_step_def sentTo_def Let_def split: startEvent.splits list.splits if_splits)
qed

lemma replied_consistent:
  assumes reach: "reach (\<lambda>s. s = emptySystem env) (sameStep env sx muxes hashOf htlcOf) s"
    and sx: "heightFree sx" "distinct (map muxNode muxes)" and inv: "nodeInv s" "orderInv s" and p: "p \<in> set muxes"
    and takes: "muxTakes env sx p req s = Some (htlc, MuxContinue None, height, ch)"
    and same: "htlc = htlcOf (rpcHtlcKey (muxNode p) htlc)"
  shows "consistent (history True (setLast (muxNode p) (setChannel ch (lastStream (muxNode p) s)) (nsStreams s) (muxNode p)))"
proof -
  let ?node = "muxNode p" and ?ss = "nsStreams s (muxNode p)"
  from takes obtain hgt where live: "nsLive s ?node" and hgt: "nsHeight s ?node = Some hgt"
    and run: "Run_step sx p (HtlcReceived htlc) (Some hgt, channel (lastStream ?node s)) = (MuxContinue None, height, ch)"
    by (rule muxTakes_Some) auto
  have ne: "?ss \<noteq> []" using inv(1) live by (simp add: nodeInv_def)
  have last: "lastStream ?node s = ?ss ! (length ?ss - 1)" using ne by (simp add: lastStream_def last_conv_nth)
  have "consistent (history True (?ss[length ?ss - 1 := setChannel ch (?ss ! (length ?ss - 1))]))"
  proof (rule history_update [OF appends_Run_step [OF run [unfolded last]]])
    show "consistent (history True ?ss)" using inv(2) live by (auto simp: orderInv_def split: if_splits dest: spec [of _ ?node])
    fix q :: queuedReply and m assume q: "incomingKey q = ihCircuitKey htlc" and m: "m \<in> set (history True ?ss)"
    show "\<not> contradicts m (toRpc q)"
    proof
      assume con: "contradicts m (toRpc q)"
      then have "rpcKey ?node m = rpcHtlcKey ?node htlc" using q by (simp add: contradicts_def rpcKey_def rpcHtlcKey_def)
      moreover have "backed (calls (nsRegistry s)) (rpcKey ?node m) (rpcPreimage m)"
        using history_in_streams [OF m] ne inv(1) con by (auto simp: nodeInv_def streamsOk_def contradicts_def intro: streamOkD)
      ultimately have "passed sx muxes htlcOf (rpcHtlcKey ?node htlc)"
        using settled_passed [OF reach] unfolding backed_def by metis
      then have "passes sx muxes ?node htlc" using same by (simp add: passed_def rpcHtlcKey_def)
      from passes_again [OF sx this p run] show False by simp
    qed
  qed (use ne in simp)
  then show ?thesis by (simp add: setLast_update [where ss = "nsStreams s", OF ne] last)
qed

lemma sentTo_setLast:
  assumes "sent st = sent (lastStream node s)" and "nsStreams s node \<noteq> []"
  shows "sentTo (setLast node st (nsStreams s) node) = sentTo (nsStreams s node)"
proof -
  let ?xs = "map sent (nsStreams s node)" and ?n = "length (nsStreams s node) - 1"
  have "sent st = ?xs ! ?n" using assms by (simp add: lastStream_def last_conv_nth)
  then have "map sent ((nsStreams s node)[?n := st]) = ?xs" by (simp only: map_update list_update_id)
  then show ?thesis by (simp add: sentTo_def setLast_update [where ss = "nsStreams s", OF assms(2)])
qed

lemma orderInv_other:
  assumes "orderInv s" and "\<And>n. n \<noteq> node \<Longrightarrow> nsLive t n = nsLive s n \<and> nsStreams t n = nsStreams s n"
    and "consistent (history (nsLive t node) (nsStreams t node))"
  shows "orderInv t"
  unfolding orderInv_def
proof
  show "consistent (history (nsLive t n) (nsStreams t n))" for n
    using assms by (cases "n = node") (auto simp: orderInv_def)
qed

lemma orderInv_deliver:
  assumes inv: "nodeInv s" "orderInv s"
    and good: "goodStep (crypt env) streamKey hashOf (nsRegistry s) r" and log: "logInv streamKey (cdb r) (calls r)"
  shows "orderInv (deliver sx r s)"
  unfolding orderInv_def
proof
  fix node
  from good obtain new where new: "calls r = calls (nsRegistry s) @ new" "\<forall>c \<in> set new. okCall streamKey (cdb r) c"
    unfolding goodStep_def by blast
  have "streamsOk (calls r) (nsStreams s)" using inv(1) new(1) streamsOk_mono [of _ "nsStreams s" "calls r"] by (auto simp: nodeInv_def)
  moreover have "recorded (cdb r) (streamKey x) p" if "CallResolve x (HtlcSettleResolution p a) \<in> set (calls r)" for x p a
    using log that unfolding logInv_def by blast
  ultimately have "consistent (history (nsLive s node) (fold (deliverCall sx) new (nsStreams s) node))"
    using inv new by (intro deliver_consistent [OF new(2)]) (auto simp: nodeInv_def orderInv_def)
  then show "consistent (history (nsLive (deliver sx r s) node) (nsStreams (deliver sx r s) node))"
    using new(1) by (simp add: deliver_def newCalls_def)
qed

lemma orderInv_step:
  assumes reach: "reach (\<lambda>s. s = emptySystem env) (sameStep env sx muxes hashOf htlcOf) s"
    and sx: "heightFree sx" "distinct (map muxNode muxes)"
    and inv: "nodeInv s" "sysInv env streamKey hashOf (nsRegistry s)" "sysInv env streamKey hashOf (nsRegistry s')" "orderInv s"
    and step: "nodeStep env sx muxes hashOf s e s'" and same: "replaysSame htlcOf e"
  shows "orderInv s'"
  using step
proof cases
  case (connect p node h st height ch)
  then have "sent st = []" "replies (channel st) = []" by (auto simp: start_init_def emptyChannel_def)
  then have "history True (nsStreams s node @ [st]) = history False (nsStreams s node)" by (simp add: history_def sentTo_def)
  moreover have "consistent (history False (nsStreams s node))" using inv(4) connect(5) by (metis orderInv_def)
  ultimately show ?thesis using connect(2) by (intro orderInv_other [OF inv(4), of node]) auto
next
  case (replied p node req htlc height ch)
  have "htlc = htlcOf (rpcHtlcKey (muxNode p) htlc)" using same replied(1,4) by simp
  from replied_consistent [OF reach sx inv(1,4) replied(3,5) this] replied show ?thesis
    by (intro orderInv_other [OF inv(4), of node]) (auto simp: setLast_def elim: muxTakes_Some)
next
  case (muxReturns p node req htlc e height ch)
  from muxReturns(4,5) have live: "nsLive s node" by (auto elim: muxTakes_Some)
  then have "consistent (history False (nsStreams s node))" using inv(4) history_dead by (metis orderInv_def)
  then have "consistent (history False (setLast node (setChannel ch (lastStream node s)) (nsStreams s) node))"
    using inv(1) live sentTo_setLast [of "setChannel ch (lastStream node s)" node s] by (simp add: history_def nodeInv_def)
  then show ?thesis using muxReturns(2) by (intro orderInv_other [OF inv(4), of node]) (auto simp: setLast_def)
next
  case (stream node sev r st)
  have "nsStreams s node \<noteq> []" using inv(1) stream(3) by (simp add: nodeInv_def)
  from history_start_step [OF this stream(5) [unfolded lastStream_def]]
  obtain l where "history True (nsStreams s node) = history (r = Ok ()) (butlast (nsStreams s node) @ [st]) @ l" ..
  moreover have "consistent (history True (nsStreams s node))" using inv(4) stream(3) by (metis orderInv_def)
  ultimately have "consistent (history (r = Ok ()) (butlast (nsStreams s node) @ [st]))" by (metis consistent_prefix)
  then show ?thesis using stream(2) by (intro orderInv_other [OF inv(4), of node]) (auto simp: setLast_def)
next
  case (loop ev inp answer r)
  have reg: "regInv (crypt env) streamKey hashOf (nsRegistry s)" using inv(2) by (simp add: sysInv_def)
  have "logInv streamKey (cdb r) (calls r)" using inv(3) loop(2) by (simp add: sysInv_def)
  from orderInv_deliver [OF inv(1,4) goodStep_loop [OF reg offered_wf [OF loop(3)] loop(5)] this] loop(2) show ?thesis by simp
next
  case (died ev inp res r n)
  have "consistent (history False (nsStreams s node))" for node
    using inv(4) history_dead by (metis (full_types) orderInv_def)
  then show ?thesis using died(2) by (simp add: orderInv_def processStart_def deliver_def history_def sentTo_deliver)
qed (use inv(4) in \<open>auto simp: orderInv_def\<close>)

lemma sameReach_node:
  "reach (\<lambda>s. s = emptySystem env) (sameStep env sx muxes hashOf htlcOf) s \<Longrightarrow> nodeReach env sx muxes hashOf s"
  by (induction rule: reach.induct) (auto intro: reach.intros)

lemma orderInv_reach:
  assumes "reach (\<lambda>s. s = emptySystem env) (sameStep env sx muxes hashOf htlcOf) s" and "heightFree sx" and "distinct (map muxNode muxes)"
  shows "orderInv s"
  using assms(1)
proof (induction rule: reach.induct)
  case (reach_init s)
  then show ?case by (simp add: orderInv_def emptySystem_def history_def sentTo_def consistent_def)
next
  case (reach_step s e t)
  note node = sameReach_node [OF reach_step(1)]
  from reach_step(2) have "nodeReach env sx muxes hashOf t" using node by (auto intro: reach.reach_step)
  from daemon.reach_inv [OF this] daemon.reach_inv [OF node] reach_step show ?case
    using orderInv_step [OF reach_step(1) assms(2,3)] by blast
qed

section \<open>The order on the wire\<close>

text \<open>
  C2: a node is never told to fail an HTLC after it was told to settle it. Of all the messages that were
  sent to a node, over all its streams, all starts of the process, failing statements and replayed HTLCs,
  and from the multiplexer (fee, expiry and onion checks) and the registry alike, no fail for a
  circuit key follows a settle for the same key. The node offers the same HTLC under the same key, a node has
  one multiplexer, and the onion is decoded independently of the height.
\<close>

theorem node_never_fails_after_settle:
  assumes "reach (\<lambda>s. s = emptySystem env) (sameStep env sx muxes hashOf htlcOf) s"
    and "heightFree sx" and "distinct (map muxNode muxes)"
    and "i < j" and "j < length (sentTo (nsStreams s node))"
    and "rpcAction (sentTo (nsStreams s node) ! i) = ActionSettle" and "rpcAction (sentTo (nsStreams s node) ! j) = ActionFail"
  shows "rpcKey node (sentTo (nsStreams s node) ! j) \<noteq> rpcKey node (sentTo (nsStreams s node) ! i)"
proof -
  have "consistent (history False (nsStreams s node))" using orderInv_reach [OF assms(1-3)] history_dead by (metis (full_types) orderInv_def)
  then have "\<not> contradicts (sentTo (nsStreams s node) ! i) (sentTo (nsStreams s node) ! j)"
    using assms(4,5) by (simp add: consistent_def history_def sorted_wrt_iff_nth_less)
  with assms(6,7) show ?thesis by (auto simp: contradicts_def rpcKey_def)
qed

end
