(* ===== verification/Payment_Example.thy ===== *)
theory Payment_Example
  imports Payment_Order Settlement_Example
begin

text \<open>
  A payment through the whole daemon: the node connects at height 100, offers an HTLC of 500 msat for the
  virtual channel with the hash and the payment address of the invoice, the multiplexer hands it to the
  registry, which stores the settle request and resolves it, and the stream sends the preimage.
\<close>

definition wirePayload :: hopPayload where
  "wirePayload = \<lparr>AmountToForward = 500, OutgoingCTLV = 200,
     payloadMultiPath = Some \<lparr>mppPaymentAddr = exAddr, mppTotalMsat = 500\<rparr>\<rparr>"

abbreviation wireSphinx :: "(unit, unit) sphinxOps" where
  "wireSphinx \<equiv> demoSphinx (Some wirePayload) CodeNone"

definition wireRequest :: rpcInterceptRequest where
  "wireRequest = \<lparr>reqIncomingCircuitKey = (1, 1), reqPaymentHash = exHash, reqOnionBlob = [], reqIncomingAmountMsat = 2000,
     reqOutgoingAmountMsat = 500, reqIncomingExpiry = 240, reqOutgoingExpiry = 200, reqOutgoingRequestedChanId = 9\<rparr>"

definition wireHtlc :: interceptedHtlc where
  "wireHtlc = \<lparr>ihCircuitKey = CircuitKey 1 1, ihHash = exHash, onionBlob = [], incomingAmountMsat = 2000,
     outgoingAmountMsat = 500, incomingExpiry = 240, outgoingExpiry = 200, outgoingChanID = 9\<rparr>"

abbreviation wireNode :: pubkey where
  "wireNode \<equiv> replicate 33 2"

definition wireResolver :: "unit muxResolver" where
  "wireResolver = \<lparr>mrHtlc = wireHtlc, mrNode = wireNode, mrObfuscator = ()\<rparr>"

definition wireConnected :: "(unit, nat, releaseEvent list) nodeSystem" where
  "wireConnected = (emptySystem exEnv)\<lparr>nsStreams := (\<lambda>_. [])(wireNode := [\<lparr>channel = emptyChannel, sent = [], heights = [100]\<rparr>]),
     nsLive := (\<lambda>_. False)(wireNode := True), nsHeight := (\<lambda>_. None)(wireNode := Some 100)\<rparr>"

definition wirePaid :: "(unit, nat, releaseEvent list) nodeSystem" where
  "wirePaid = deliver wireSphinx (exPaidFor (0, wireResolver)) wireConnected"

lemma wire_receive: "htlcReceiveLoop_step (crypt exEnv) (Ok wireRequest) True = Ok wireHtlc"
  by (simp add: htlcReceiveLoop_step_def wireRequest_def wireHtlc_def exEnv_def go.makeHash_iff newCircuitKeyFromRPC_def)

lemma wire_mux:
  "Run_step wireSphinx demoMux (HtlcReceived wireHtlc) (Some 100, ch) =
     (MuxContinue (Some (exHtlcFor 1 wireResolver)), Some 100, ch)"
  by (simp add: Run_step_def demoMuxDefs wireHtlc_def wirePayload_def exHtlcFor_def exKey_def wireResolver_def)

lemma demoMux_node [simp]: "muxNode demoMux = wireNode"
  by (simp add: demoMux_def)

lemma wire_takes:
  assumes "nsLive s wireNode" and "wireNode \<notin> nsEnded s" and "nsHeight s wireNode = Some 100"
  shows "muxTakes exEnv wireSphinx demoMux wireRequest s =
    Some (wireHtlc, MuxContinue (Some (exHtlcFor 1 wireResolver)), Some 100, channel (lastStream wireNode s))"
  using assms unfolding muxTakes_def demoMux_node wire_receive by (simp add: muxCanReceive_def wire_mux)

lemma wire_bind: "bindStream n (exHtlcFor k r) = exHtlcFor k (n, r)"
  by (simp add: bindStream_def exHtlcFor_def)

lemma wire_connect_step:
  assumes "p \<in> set muxes" and "muxNode p = wireNode"
  shows "nodeStep exEnv sx muxes hashOf (emptySystem exEnv) (NodeConnect wireNode 100) wireConnected"
  using assms nodeStep.connect [of p muxes wireNode "emptySystem exEnv" 100 "\<lparr>channel = emptyChannel, sent = [], heights = [100]\<rparr>"
      sx "Some 100" emptyChannel exEnv hashOf]
  by (simp add: wireConnected_def emptySystem_def start_init_def Run_step_def)

lemma wire_pay_step:
  "nodeStep exEnv wireSphinx [demoMux] exHashOf wireConnected (NodeSys (SysLoop (NewHtlc (exHtlcFor 1 (0, wireResolver))) None)) wirePaid"
proof -
  have "offered exEnv wireSphinx [demoMux] exHashOf wireConnected
      (NewHtlc (bindStream (length (nsStreams wireConnected (muxNode demoMux)) - 1) (exHtlcFor 1 wireResolver)))"
    by (rule offered.notified [OF _ wire_takes]) (simp_all add: wireConnected_def emptySystem_def exHtlcFor_def)
  then have off: "offered exEnv wireSphinx [demoMux] exHashOf wireConnected (NewHtlc (exHtlcFor 1 (0, wireResolver)))"
    by (simp add: wire_bind) (simp add: wireConnected_def)
  have "nsRegistry wireConnected = exInit" by (simp add: wireConnected_def emptySystem_def exInit_def)
  then show ?thesis
    unfolding wirePaid_def
    by (intro nodeStep.loop [OF off, of exInputs]) (simp_all add: canReceive_def exPaidFor_process)
qed

text \<open>In this run every HTLC key stands for one HTLC.\<close>

definition wireBad :: interceptedHtlc where
  "wireBad = wireHtlc\<lparr>ihCircuitKey := CircuitKey 1 2, incomingAmountMsat := 500\<rparr>"

definition wireHtlcOf :: "HtlcKey \<Rightarrow> interceptedHtlc" where
  "wireHtlcOf k = (if HtlcID k = 1 then wireHtlc else wireBad)"

abbreviation wireReach :: "(unit, nat, releaseEvent list) nodeSystem \<Rightarrow> bool" where
  "wireReach \<equiv> reach (\<lambda>s. s = emptySystem exEnv) (sameStep exEnv wireSphinx [demoMux] exHashOf wireHtlcOf)"

lemma wire_same_pay: "wireReach wirePaid"
proof -
  have "replaysSame wireHtlcOf (NodeConnect wireNode 100 :: (unit streamResolver, nat) nodeEvent)" by simp
  with wire_connect_step [of demoMux "[demoMux]" wireSphinx exHashOf] have "wireReach wireConnected" by (auto intro: reach.intros)
  moreover have "replaysSame wireHtlcOf (NodeSys (SysLoop (NewHtlc (exHtlcFor 1 (0, wireResolver))) None) :: (unit streamResolver, nat) nodeEvent)"
    by (simp add: wireHtlcOf_def exHtlcFor_def exKey_def wireResolver_def)
  ultimately show ?thesis using wire_pay_step by (blast intro: reach.reach_step)
qed

lemma wire_pay: "nodeReach exEnv wireSphinx [demoMux] exHashOf wirePaid"
  using wire_same_pay by (rule sameReach_node)

definition wireSettle :: rpcInterceptResponse where
  "wireSettle = \<lparr>rpcChanId = 1, rpcHtlcId = 1, rpcAction = ActionSettle, rpcPreimage = exPreimage, rpcFailureMessage = [],
     rpcFailureCode = FailureReserved\<rparr>"

lemma wire_stream: "nsStreams wirePaid wireNode =
    [\<lparr>channel = \<lparr>replies = [\<lparr>incomingKey = CircuitKey 1 1, replyHash = exHash, resp = (zeroResponse ActionSettle)\<lparr>respPreimage := exPreimage\<rparr>\<rparr>],
        replyChanClosed = False\<rparr>, sent = [], heights = [100]\<rparr>]"
  by (simp add: wirePaid_def deliver_def newCalls_def exPaidFor_process wireConnected_def emptySystem_def NewRegistry_def
      deliverCall_def wireResolver_def wireHtlc_def Let_def setChannel_def resolveHtlc_def replyTo_def reply_def emptyChannel_def
      resolutionQueueSize_def)

theorem node_settles_only_recorded_witness:
  "\<exists>st x. st \<in> set (nsStreams wirePaid wireNode) \<and> wireSettle \<in> set (outputs st) \<and>
     findHtlc (HtlcKey wireNode 1 1) (cdb (nsRegistry wirePaid)) = Some x \<and> preimageHash goCrypto exPreimage = dhHash x"
proof -
  obtain st where st: "st \<in> set (nsStreams wirePaid wireNode)" "wireSettle \<in> set (outputs st)"
    by (simp add: wire_stream outputs_def toRpc_def zeroResponse_def wireSettle_def)
  from node_settles_only_recorded [OF wire_pay st] st show ?thesis
    by (auto simp: wireSettle_def rpcKey_def exEnv_def)
qed


text \<open>
  The node offers a second HTLC, which does not pay the fee, and takes both replies.
\<close>

definition wireBadRequest :: rpcInterceptRequest where
  "wireBadRequest = wireRequest\<lparr>reqIncomingCircuitKey := (1, 2), reqIncomingAmountMsat := 500\<rparr>"

definition wireBadReply :: queuedReply where
  "wireBadReply = \<lparr>incomingKey = CircuitKey 1 2, replyHash = exHash, resp = zeroResponse ActionFail\<rparr>"

definition wireGoodReply :: queuedReply where
  "wireGoodReply = \<lparr>incomingKey = CircuitKey 1 1, replyHash = exHash, resp = (zeroResponse ActionSettle)\<lparr>respPreimage := exPreimage\<rparr>\<rparr>"

definition wireState :: "queuedReply list \<Rightarrow> queuedReply list \<Rightarrow> (unit, nat, releaseEvent list) nodeSystem" where
  "wireState done queued = wirePaid\<lparr>nsStreams := (nsStreams wirePaid)(wireNode :=
     [\<lparr>channel = \<lparr>replies = queued, replyChanClosed = False\<rparr>, sent = map toRpc done, heights = [100]\<rparr>])\<rparr>"

lemma wire_refuse:
  "Run_step wireSphinx demoMux (HtlcReceived wireBad) (Some 100, \<lparr>replies = [q], replyChanClosed = False\<rparr>) =
     (MuxContinue None, Some 100, \<lparr>replies = [q, wireBadReply], replyChanClosed = False\<rparr>)"
  by (simp add: Run_step_def demoMuxDefs wireBad_def wireHtlc_def failHtlc_def marshallFailureCode_def liftReply_def replyTo_def reply_def
      zeroResponse_def wireBadReply_def resolutionQueueSize_def)

lemma wire_paid_sel: "nsLive wirePaid wireNode" "nsEnded wirePaid = {}" "nsHeight wirePaid wireNode = Some 100"
  "lastStream wireNode wirePaid = \<lparr>channel = \<lparr>replies = [wireGoodReply], replyChanClosed = False\<rparr>, sent = [], heights = [100]\<rparr>"
  by (simp_all add: wirePaid_def deliver_def wireConnected_def emptySystem_def)
    (simp add: lastStream_def wire_stream [unfolded wirePaid_def deliver_def wireConnected_def emptySystem_def, simplified] wireGoodReply_def)

lemma wire_reply: "wireReach (wireState [] [wireGoodReply, wireBadReply])"
proof -
  have rec: "htlcReceiveLoop_step (crypt exEnv) (Ok wireBadRequest) True = Ok wireBad"
    by (simp add: htlcReceiveLoop_step_def wireBadRequest_def wireRequest_def wireBad_def wireHtlc_def exEnv_def go.makeHash_iff newCircuitKeyFromRPC_def)
  have "muxTakes exEnv wireSphinx demoMux wireBadRequest wirePaid =
      Some (wireBad, MuxContinue None, Some 100, \<lparr>replies = [wireGoodReply, wireBadReply], replyChanClosed = False\<rparr>)"
    unfolding muxTakes_def demoMux_node rec by (simp add: wire_paid_sel muxCanReceive_def wire_refuse)
  from nodeStep.replied [OF _ _ this, of "[demoMux]" wireNode exHashOf]
  have "nodeStep exEnv wireSphinx [demoMux] exHashOf wirePaid (NodeReply wireNode wireBad) (wireState [] [wireGoodReply, wireBadReply])"
    by (simp add: wire_paid_sel setChannel_def setLast_def wireState_def wire_stream)
  moreover have "replaysSame wireHtlcOf (NodeReply wireNode wireBad :: (unit streamResolver, nat) nodeEvent)"
    by (simp add: rpcHtlcKey_def wireHtlcOf_def wireBad_def)
  ultimately show ?thesis using wire_same_pay by (blast intro: reach.reach_step)
qed

lemma wire_send:
  assumes "wireReach (wireState done (q # queued))"
  shows "wireReach (wireState (done @ [q]) queued)"
proof -
  let ?s = "wireState done (q # queued)"
  have "nodeStep exEnv wireSphinx [demoMux] exHashOf ?s (NodeStream wireNode (TakeReply True)) (wireState (done @ [q]) queued)"
    using nodeStep.stream [of ?s wireNode "TakeReply True" "Ok ()" "lastStream wireNode (wireState (done @ [q]) queued)" exEnv wireSphinx "[demoMux]" exHashOf]
    by (simp add: wireState_def lastStream_def startCanReceive_def start_step_def wire_paid_sel setLast_def fun_upd_idem)
  then show ?thesis using assms by (auto intro: reach.reach_step)
qed

theorem node_never_fails_after_settle_witness:
  "\<exists>s. wireReach s \<and> sentTo (nsStreams s wireNode) = [toRpc wireGoodReply, toRpc wireBadReply] \<and>
     rpcKey wireNode (toRpc wireBadReply) \<noteq> rpcKey wireNode (toRpc wireGoodReply)"
proof -
  let ?s = "wireState [wireGoodReply, wireBadReply] []"
  have reach: "wireReach ?s" using wire_send [OF wire_send [OF wire_reply]] by simp
  have sent: "sentTo (nsStreams ?s wireNode) = [toRpc wireGoodReply, toRpc wireBadReply]" by (simp add: wireState_def sentTo_def)
  have "heightFree wireSphinx" by (simp add: heightFree_def demoSphinx_def)
  from node_never_fails_after_settle [OF reach this, of 0 1 wireNode] reach sent show ?thesis
    by (auto simp: wireGoodReply_def wireBadReply_def zeroResponse_def)
qed

end
