(* ===== verification/Paid_Invoice.thy ===== *)
theory Paid_Invoice
  imports Multi_Part Server_Facts Startup Payment_Example
begin

text \<open>
  The life of an invoice through the whole daemon, from the rpc call that adds it to the preimage that the nodes
  receive, for a payment in any number of parts over any of the nodes.
\<close>

lemma decoded_preimage_length: "decodeStatelessData goCrypto key addr = Ok sd \<Longrightarrow> length (sdPreimage sd) = 32"
  by (auto simp: decodeStatelessData_def go.hmac_length go.makePreimage_hmac split: option.splits)


section \<open>A payment in two parts\<close>

definition splitConfig :: Config where
  "splitConfig = demoDaemonConfig\<lparr>cfAutoSettle := True\<rparr>"

definition splitMux :: "byte \<Rightarrow> Mux" where
  "splitMux n = \<lparr>muxNode = replicate 33 n, muxRoutingPolicy = defaultRoutingPolicy, virtualChannel = virtualChannelFromNode (replicate 33 n)\<rparr>"

abbreviation splitConnect :: "string \<Rightarrow> nodeConfig \<Rightarrow> pubkey \<Rightarrow> (lndError, lndClient) outcome" where
  "splitConnect \<equiv> \<lambda>net n k. NewLndClient (\<lambda>_. None) True None None net k"

lemma split_start:
  "\<exists>d. startDaemon demoKeyOps demoNames splitConnect True (\<lambda>_. True) splitConfig = Ok d \<and>
     dmMuxes d = [splitMux 2, splitMux 3] \<and> dmRegistry d = exCfg"
proof -
  have clients: "initLndClients demoNames splitConnect splitConfig = initLndClients demoNames splitConnect (demoConfig ''testnet'' [demoNode 2, demoNode 3])"
    by (simp add: initLndClients_def splitConfig_def demoDaemonConfig_def demoConfig_def cong: option.case_cong)
  have key: "GetIdentityKey splitConfig = Ok (replicate 32 7)"
    by (simp add: GetIdentityKey_def splitConfig_def demoDaemonConfig_def)
  have policy: "GetRoutingPolicy splitConfig = defaultRoutingPolicy"
    by (simp add: GetRoutingPolicy_def splitConfig_def demoDaemonConfig_def demoConfig_def)
  have reg: "productionConfig (replicate 32 7) splitConfig = exCfg"
    by (simp add: productionConfig_def exCfg_def splitConfig_def)
  have parse: "parsePubKey demoKeyOps k = Some k" for k by (simp add: demoKeyOps_def)
  show ?thesis
    by (simp add: startDaemon_def clients demo_clients key assemble_def NewInvoiceCreator_def DeriveKey_def New_def Let_def
        clientPubKey_def parse policy reg splitMux_def)
qed

definition splitPayload :: "bytes \<Rightarrow> hopPayload" where
  "splitPayload addr = \<lparr>AmountToForward = 250, OutgoingCTLV = 200,
     payloadMultiPath = Some \<lparr>mppPaymentAddr = addr, mppTotalMsat = 500\<rparr>\<rparr>"

abbreviation splitSphinx :: "bytes \<Rightarrow> (unit, unit) sphinxOps" where
  "splitSphinx addr \<equiv> demoSphinx (Some (splitPayload addr)) CodeNone"

definition splitHtlc :: "hash \<Rightarrow> u64 \<Rightarrow> interceptedHtlc" where
  "splitHtlc hash n = wireHtlc\<lparr>ihCircuitKey := CircuitKey 1 n, ihHash := hash, outgoingAmountMsat := 250,
     outgoingChanID := virtualChannelFromNode wireNode\<rparr>"

definition splitResolver :: "hash \<Rightarrow> u64 \<Rightarrow> unit muxResolver" where
  "splitResolver hash n = \<lparr>mrHtlc = splitHtlc hash n, mrNode = wireNode, mrObfuscator = ()\<rparr>"

definition splitPart :: "hash \<Rightarrow> bytes \<Rightarrow> u64 \<Rightarrow> unit part" where
  "splitPart hash addr n =
     \<lparr>partMux = splitMux 2,
      partRequest = wireRequest\<lparr>reqIncomingCircuitKey := (1, n), reqPaymentHash := hash, reqOutgoingAmountMsat := 250,
        reqOutgoingRequestedChanId := virtualChannelFromNode wireNode\<rparr>,
      partHtlc = \<lparr>rHash = hash, amtPaid = 250, htlcExpiry = 200, currentHeight = 100, circuitKey = HtlcKey wireNode 1 n,
        multiPath = Some \<lparr>mppPaymentAddr = addr, mppTotalMsat = 500\<rparr>, resolve = splitResolver hash n\<rparr>\<rparr>"

lemma splitMux_node [simp]: "muxNode (splitMux 2) = wireNode"
  by (simp add: splitMux_def)

lemma split_offers:
  assumes "length hash = 32"
  shows "offersPart exEnv (splitSphinx addr) [splitMux 2, splitMux 3] (\<lambda>_. hash) wireConnected (splitPart hash addr n)"
proof -
  have "htlcReceiveLoop_step (crypt exEnv) (Ok (partRequest (splitPart hash addr n))) True = Ok (splitHtlc hash n)"
    using assms by (simp add: htlcReceiveLoop_step_def splitPart_def splitHtlc_def wireRequest_def wireHtlc_def exEnv_def go.makeHash_iff
        newCircuitKeyFromRPC_def)
  moreover have "Run_step (splitSphinx addr) (splitMux 2) (HtlcReceived (splitHtlc hash n)) (Some 100, ch) =
      (MuxContinue (Some (partHtlc (splitPart hash addr n))), Some 100, ch)" for ch
    by (simp add: Run_step_def demoMuxDefs splitMux_def defaultRoutingPolicy_def splitHtlc_def wireHtlc_def splitPayload_def splitPart_def
        splitResolver_def)
  ultimately have "muxTakes exEnv (splitSphinx addr) (splitMux 2) (partRequest (splitPart hash addr n)) wireConnected =
      Some (splitHtlc hash n, MuxContinue (Some (partHtlc (splitPart hash addr n))), Some 100, channel (lastStream wireNode wireConnected))"
    unfolding muxTakes_def splitMux_node by (simp add: wireConnected_def emptySystem_def muxCanReceive_def)
  then show ?thesis unfolding offersPart_def by (simp add: splitPart_def)
qed

lemma split_paid:
  assumes "length hash = 32"
  shows "paidInParts exEnv (splitSphinx addr) [splitMux 2, splitMux 3] (\<lambda>_. hash) hash addr 500 wireConnected
    [splitPart hash addr 1, splitPart hash addr 2]"
  unfolding paidInParts_def
proof (intro conjI ballI)
  fix pt assume "pt \<in> set [splitPart hash addr 1, splitPart hash addr 2]"
  then obtain n where n: "pt = splitPart hash addr n" by auto
  show "offersPart exEnv (splitSphinx addr) [splitMux 2, splitMux 3] (\<lambda>_. hash) wireConnected pt" unfolding n using assms by (rule split_offers)
  show "isPart exEnv hash addr 500 (partHtlc pt)" by (simp add: n isPart_def splitPart_def exEnv_def exCfg_def)
  show "hasRoom (length [splitPart hash addr 1, splitPart hash addr 2]) (nsStreams wireConnected (muxNode (partMux pt)))"
    by (simp add: n hasRoom_def splitPart_def wireConnected_def emptyChannel_def resolutionQueueSize_def)
qed (simp_all add: splitPart_def natPaid_def)


end
