(* ===== verification/Reply_Race.thy ===== *)
theory Reply_Race
  imports Interceptor
begin

text \<open>
  The reply callback of \<open>htlcReceiveLoop\<close> (\<open>interceptor.go\<close>) in the steps that other goroutines can see.
  The multiplexer replies to an HTLC it fails or resumes, and the registry replies with the resolutions
  of HTLCs it held: both call the same closure, from different goroutines, without a lock. The steps
  are the test of \<open>replyChanClosed\<close>, the \<open>select\<close> that sends or falls to its default, \<open>close\<close>, and the
  assignment of \<open>replyChanClosed\<close>. Sending on a closed channel and closing it twice panic.
\<close>

section \<open>Steps of the callback\<close>

datatype replyPc = RCheck | RSelect | RClose | RSetFlag | RDone "(replyError, unit) outcome"

record replyVars =
  chanItems :: "queuedReply list"
  chanClosed :: bool
  closedFlag :: bool

definition sendOnClosed :: string where
  "sendOnClosed = ''send on closed channel''"

definition closeOfClosed :: string where
  "closeOfClosed = ''close of closed channel''"

fun reply_micro :: "queuedReply \<Rightarrow> replyPc \<Rightarrow> replyVars \<Rightarrow> (unit, replyPc \<times> replyVars) outcome" where
  "reply_micro q RCheck v = Ok (if closedFlag v then RDone (Err ReplyChannelClosed) else RSelect, v)"
| "reply_micro q RSelect v =
     (if chanClosed v then Panic sendOnClosed
      else if length (chanItems v) < resolutionQueueSize
        then Ok (RDone (Ok ()), v\<lparr>chanItems := chanItems v @ [q]\<rparr>)
        else Ok (RClose, v))"
| "reply_micro q RClose v =
     (if chanClosed v then Panic closeOfClosed else Ok (RSetFlag, v\<lparr>chanClosed := True\<rparr>))"
| "reply_micro q RSetFlag v = Ok (RDone (Err ReplyChannelFull), v\<lparr>closedFlag := True\<rparr>)"
| "reply_micro q (RDone r) v = Ok (RDone r, v)"

text \<open>
  Goroutines in the callback, each with its reply and where it is. A schedule is the list of the
  goroutines that make a step; a number that is out of range stands for the stream loop of \<open>start\<close>, which
  receives one reply.
\<close>

type_synonym callers = "(queuedReply \<times> replyPc) list"

definition receiveOne :: "replyVars \<Rightarrow> replyVars" where
  "receiveOne v = v\<lparr>chanItems := tl (chanItems v)\<rparr>"

fun reply_schedule :: "nat list \<Rightarrow> callers \<Rightarrow> replyVars \<Rightarrow> (unit, callers \<times> replyVars) outcome" where
  "reply_schedule [] cs v = Ok (cs, v)"
| "reply_schedule (i # is) cs v =
     (if i < length cs
      then case reply_micro (fst (cs ! i)) (snd (cs ! i)) v of
             Ok (pc, v') \<Rightarrow> reply_schedule is (cs[i := (fst (cs ! i), pc)]) v'
           | Err e \<Rightarrow> Err e
           | Panic m \<Rightarrow> Panic m
      else reply_schedule is cs (receiveOne v))"

definition varsOf :: "replyChannel \<Rightarrow> replyVars" where
  "varsOf ch = \<lparr>chanItems = replies ch, chanClosed = replyChanClosed ch, closedFlag = replyChanClosed ch\<rparr>"

section \<open>One goroutine\<close>


section \<open>Several goroutines\<close>

text \<open>The replies of callers that have not tried to send yet, and the replies that were accepted.\<close>

definition pendingReplies :: "callers \<Rightarrow> callers" where
  "pendingReplies cs = filter (\<lambda>c. snd c = RCheck \<or> snd c = RSelect) cs"

text \<open>
  While there is room for all pending replies, nothing is closed, no caller is refused, and no step panics.
\<close>

definition roomInv :: "callers \<Rightarrow> replyVars \<Rightarrow> bool" where
  "roomInv cs v = (\<not> chanClosed v \<and> \<not> closedFlag v \<and>
     length (chanItems v) + length (pendingReplies cs) \<le> resolutionQueueSize \<and>
     snd ` set cs \<subseteq> {RCheck, RSelect, RDone (Ok ())})"

lemma length_filter_update:
  "i < length xs \<Longrightarrow> length (filter P (xs[i := y])) + (if P (xs ! i) then 1 else 0) = length (filter P xs) + (if P y then 1 else 0)"
proof (induction xs arbitrary: i)
  case (Cons x xs)
  then show ?case by (cases i) fastforce+
qed simp

lemma roomInv_step:
  assumes "roomInv cs v" and "i < length cs"
  shows "\<exists>pc v'. reply_micro (fst (cs ! i)) (snd (cs ! i)) v = Ok (pc, v') \<and> roomInv (cs[i := (fst (cs ! i), pc)]) v'"
proof -
  have pc: "snd (cs ! i) \<in> {RCheck, RSelect, RDone (Ok ())}" using imageI [OF nth_mem [OF assms(2)], of snd] assms(1) unfolding roomInv_def by blast
  have upd: "length (pendingReplies (cs[i := c])) + (if snd (cs ! i) \<in> {RCheck, RSelect} then 1 else 0) =
      length (pendingReplies cs) + (if snd c \<in> {RCheck, RSelect} then 1 else 0)" for c
    using length_filter_update [OF assms(2), of "\<lambda>c. snd c = RCheck \<or> snd c = RSelect" c] by (simp add: pendingReplies_def)
  have old: "snd ` set (cs[i := (q, pc')]) \<subseteq> {RCheck, RSelect, RDone (Ok ())}" if "pc' \<in> {RCheck, RSelect, RDone (Ok ())}" for q pc'
    using that assms(1) image_mono [OF set_update_subset_insert [of cs i "(q, pc')"], of snd] unfolding roomInv_def by auto
  from pc consider "snd (cs ! i) = RCheck" | "snd (cs ! i) = RSelect" | "snd (cs ! i) = RDone (Ok ())" by blast
  then show ?thesis
    using assms(1) upd [of "(fst (cs ! i), RSelect)"] upd [of "(fst (cs ! i), RDone (Ok ()))"]
      old [of RSelect "fst (cs ! i)"] old [of "RDone (Ok ())" "fst (cs ! i)"]
    by cases (simp_all add: roomInv_def)
qed

lemma roomInv_receive: "roomInv cs v \<Longrightarrow> roomInv cs (receiveOne v)"
  by (auto simp: roomInv_def receiveOne_def)

text \<open>
  Any number of goroutines may reply at the same time as long as the channel has room for all of them:
  whatever the schedule, nothing panics, nobody is refused and the channel stays open.
\<close>

lemma replies_with_room:
  assumes "roomInv cs v"
  shows "\<exists>cs' v'. reply_schedule is cs v = Ok (cs', v') \<and> roomInv cs' v'"
  using assms
proof (induction "is" arbitrary: cs v)
  case (Cons i "is")
  show ?case
  proof (cases "i < length cs")
    case True
    from roomInv_step [OF Cons.prems True] Cons.IH True show ?thesis by fastforce
  next
    case False
    with Cons.IH [OF roomInv_receive [OF Cons.prems]] show ?thesis by simp
  qed
qed simp

text \<open>
  C28: when the reply channel is full, a reply of the multiplexer and a reply of the registry that run at the
  same time bring the daemon down: if both have passed the test of \<open>replyChanClosed\<close> before one of them
  closes the channel, the other closes it again or sends on it, and both panic.
\<close>

theorem concurrent_replies_panic:
  assumes "length (replies ch) = resolutionQueueSize" and "\<not> replyChanClosed ch"
  shows "reply_schedule [0, 1, 0, 1, 0, 1] [(q1, RCheck), (q2, RCheck)] (varsOf ch) = Panic closeOfClosed \<and>
    reply_schedule [0, 1, 0, 0, 1] [(q1, RCheck), (q2, RCheck)] (varsOf ch) = Panic sendOnClosed"
  using assms by (simp add: varsOf_def)

theorem concurrent_replies_panic_witness:
  "\<exists>ch. length (replies ch) = resolutionQueueSize \<and>
     reply_schedule [0, 1, 0, 1, 0, 1] [(demoReply 1, RCheck), (demoReply 2, RCheck)] (varsOf ch) = Panic closeOfClosed"
proof -
  let ?ch = "\<lparr>replies = replicate resolutionQueueSize (demoReply 3), replyChanClosed = False\<rparr>"
  have "length (replies ?ch) = resolutionQueueSize" "\<not> replyChanClosed ?ch" by simp_all
  with concurrent_replies_panic [OF this, of "demoReply 1" "demoReply 2"] show ?thesis by blast
qed

end
