(* ===== verification/Schema.thy ===== *)
theory Schema
  imports Invoice_Lifecycle
begin

text \<open>
  The schema of the database (\<open>persistence/migrations/*.sql\<close>): the types of the columns as a predicate on the
  tables, that every operation of \<open>persistence/pg.go\<close> keeps it, and the migration that replaced the flag
  \<open>settled\<close> by a status, in both directions.
\<close>

section \<open>Typed rows\<close>

text \<open>
  The checks of the columns (lengths of \<open>BYTEA\<close>, positive \<open>BIGINT\<close>). Beyond what the schema demands, the time at
  which a row became final is there exactly when its status is final.
\<close>

definition invoiceTyped :: "dbInvoice \<Rightarrow> bool" where
  "invoiceTyped i =
     (length (diHash i) = 32 \<and> length (diPreimage i) = 32 \<and> 0 < sint (diAmountMsat i) \<and>
      (diFinalizedAt i = None \<longleftrightarrow> diStatus i = InvoiceStatusSettleRequested))"

definition htlcTyped :: "dbHtlc \<Rightarrow> bool" where
  "htlcTyped h =
     (length (dhHash h) = 32 \<and> length (Node (dhKey h)) = 33 \<and> 0 < sint (dhAmountMsat h) \<and>
      (dhFinalizedAt h = None \<longleftrightarrow> dhStatus h = HtlcStatusSettleRequested))"

text \<open>The primary and unique keys and the foreign key.\<close>

definition keysTyped :: "database \<Rightarrow> bool" where
  "keysTyped db =
     (distinct (map diHash (invoiceTable db)) \<and> distinct (map diPreimage (invoiceTable db)) \<and>
      distinct (map diSequenceNum (invoiceTable db)) \<and> distinct (map dhKey (htlcTable db)) \<and>
      dhHash ` set (htlcTable db) \<subseteq> diHash ` set (invoiceTable db))"

definition dbTyped :: "database \<Rightarrow> bool" where
  "dbTyped db =
     (list_all invoiceTyped (invoiceTable db) \<and> list_all htlcTyped (htlcTable db) \<and> distinct (map diPreimage (invoiceTable db)))"

lemma dbTyped_same: "sameTables db db' \<Longrightarrow> dbTyped db' = dbTyped db"
  by (simp add: dbTyped_def sameTables_def)

lemma RequestSettle_typed:
  assumes "RequestSettle cr f now invoice hs db = (r, db')" and "dbTyped db"
  shows "dbTyped db'"
proof (cases r)
  case (Ok u)
  with assms(1) have ins: "invoiceInsertable cr invoice db" "htlcsInsertable hs db" and db': "db' = settledDb cr now invoice hs db"
    by (auto simp: RequestSettle_Ok)
  from ins(1) have "invoiceTyped (newInvoiceRow cr now (nextSeq db) invoice)"
    by (simp add: invoiceTyped_def invoiceInsertable_def newInvoiceRow_def)
  moreover have "list_all htlcTyped (map (newHtlcRow now (preimageHash cr (PaymentPreimage invoice))) hs)"
    using ins by (auto simp: list_all_iff htlcTyped_def htlcsInsertable_def invoiceInsertable_def newHtlcRow_def)
  moreover have "PaymentPreimage invoice \<notin> diPreimage ` set (invoiceTable db)"
    using ins(1) by (auto simp: invoiceInsertable_def)
  ultimately show ?thesis using assms(2) by (simp add: dbTyped_def db' settledDb_def)
qed (use assms RequestSettle_not_Ok [OF assms(1)] dbTyped_same [of db db'] in auto)

lemma updHtlc_typed: "htlcTyped h \<Longrightarrow> htlcTyped (updHtlc key settled now h)"
  by (auto simp: htlcTyped_def updHtlc_def)

lemma updInvoice_typed: "invoiceTyped i \<Longrightarrow> invoiceTyped (updInvoice hash settled now i)"
  by (auto simp: invoiceTyped_def updInvoice_def)

lemma MarkHtlcFinal_typed:
  assumes "MarkHtlcFinal f now key settled db = (r, db')" and "dbTyped db"
  shows "dbTyped db'"
proof (cases r)
  case (Ok u)
  from MarkHtlcFinal_Ok [OF assms(1) [unfolded Ok]] obtain hash
    where hs: "htlcTable db' = map (updHtlc key settled now) (htlcTable db)"
      and ivs: "invoiceTable db' = invoiceTable db \<or> invoiceTable db' = map (updInvoice hash settled now) (invoiceTable db)"
    by (auto split: if_splits)
  from ivs have "map diPreimage (invoiceTable db') = map diPreimage (invoiceTable db)" by auto
  with hs ivs assms(2) updHtlc_typed updInvoice_typed show ?thesis
    by (auto simp: dbTyped_def list_all_iff)
qed (use assms MarkHtlcFinal_not_Ok [OF assms(1)] dbTyped_same [of db db'] in auto)

interpretation typing: inv_system "\<lambda>db. db = emptyDb" "dbStep cr" dbTyped for cr
proof
  show "dbTyped db" if "db = emptyDb" for db using that by (simp add: dbTyped_def emptyDb_def)
  show "dbTyped db'" if "dbTyped db" "dbStep cr db e db'" for db e db'
    using that(2,1) by cases (auto intro: RequestSettle_typed MarkHtlcFinal_typed)
qed

text \<open>
  C18: the rows stay well typed. In every database that the operations of the persister can produce from the empty
  one, whatever statements fail, hashes, preimages and node keys have the lengths of their columns,
  amounts are positive, the time of the final resolution is there exactly if the status is final, and the
  primary, unique and foreign keys of the schema hold.
\<close>

theorem stored_rows_well_typed:
  assumes "reach (\<lambda>db. db = emptyDb) (dbStep cr) db"
  shows "list_all invoiceTyped (invoiceTable db) \<and> list_all htlcTyped (htlcTable db) \<and> keysTyped db"
  using typing.reach_inv [OF assms] store.reach_inv [OF assms] by (auto simp: dbTyped_def keysTyped_def db_inv_def)

theorem stored_rows_well_typed_witness:
  "list_all invoiceTyped (invoiceTable demoDb) \<and> keysTyped demoDb"
proof -
  have "reach (\<lambda>db. db = emptyDb) (dbStep goCrypto) demoDb"
    by (rule reach_step [where step = "dbStep goCrypto", OF _ demo_step1]) (simp add: reach_init)
  from stored_rows_well_typed [OF this] show ?thesis by simp
qed

section \<open>The migration to a status\<close>

text \<open>
  \<open>4_add_status\<close>: what the columns \<open>settled\<close> and \<open>settled_at\<close> of a row become, and back. Adding a column that is
  \<open>NOT NULL\<close> and has no default fails in PostgreSQL unless the table is empty.
\<close>

type_synonym oldStatus = "bool \<times> time option"

definition statusUp :: "oldStatus \<Rightarrow> InvoiceStatus \<times> time option" where
  "statusUp r = (if \<not> fst r then InvoiceStatusSettleRequested else InvoiceStatusSettled, if fst r then snd r else None)"

definition statusDown :: "InvoiceStatus \<times> time option \<Rightarrow> oldStatus" where
  "statusDown r = (fst r = InvoiceStatusSettled, if fst r = InvoiceStatusSettled then snd r else None)"

definition addNotNullColumn :: "('a \<Rightarrow> 'b) \<Rightarrow> 'a list \<Rightarrow> 'b list option" where
  "addNotNullColumn convert rows = (if rows \<noteq> [] then None else Some (map convert rows))"

text \<open>Going down and up again keeps a typed row exactly if it has not failed: a failed invoice becomes pending again.\<close>

lemma status_down_up:
  assumes "invoiceTyped i"
  shows "statusUp (statusDown (diStatus i, diFinalizedAt i)) =
    (if diStatus i = InvoiceStatusFailed then (InvoiceStatusSettleRequested, None) else (diStatus i, diFinalizedAt i))"
  using assms by (cases "diStatus i") (auto simp: statusUp_def statusDown_def invoiceTyped_def)

lemma status_up_down: "statusDown (statusUp (settled, at)) = (settled, if settled then at else None)"
  by (simp add: statusUp_def statusDown_def)

lemma status_migration_needs_empty_tables: "addNotNullColumn statusUp rows \<noteq> None \<longleftrightarrow> rows = []"
  by (simp add: addNotNullColumn_def)

end
