(* ===== verification/Connection.thy ===== *)
theory Connection
  imports Lnd_Client
begin

text \<open>
  \<open>lnd/connection.go\<close>: the connection to a node, its credentials and its timeouts, and the goroutine of
  \<open>RegisterBlockEpochNtfn\<close> (\<open>lnd/client.go\<close>) that copies blocks to a channel. Files, TLS, macaroons and
  dialing (grpc) are parameters. A context is what it carries here: its deadline.
\<close>

section \<open>Loading a connection\<close>

abbreviation minute :: duration where
  "minute \<equiv> 60 * second"

definition unaryTimeout :: duration where
  "unaryTimeout = minute"

definition streamTimeout :: duration where
  "streamTimeout = 30 * minute"

text \<open>\<open>context.WithTimeout\<close>: the deadline of the parent is kept if it is earlier.\<close>

definition WithTimeout :: "time \<Rightarrow> time option \<Rightarrow> duration \<Rightarrow> time option" where
  "WithTimeout now ctx timeout =
     (case ctx of
        None \<Rightarrow> Some (now + timeout)
      | Some d \<Rightarrow> Some (if d < now + timeout then d else now + timeout))"

text \<open>The interceptors: they call the invoker, or the streamer, with a context that has a deadline.\<close>

definition timeoutUnaryInterceptor :: "duration \<Rightarrow> time \<Rightarrow> time option \<Rightarrow> (time option \<Rightarrow> 'a) \<Rightarrow> 'a" where
  "timeoutUnaryInterceptor timeout now ctx invoker = invoker (WithTimeout now ctx timeout)"

definition timeoutStreamInterceptor :: "duration \<Rightarrow> time \<Rightarrow> time option \<Rightarrow> (time option \<Rightarrow> 'a) \<Rightarrow> 'a" where
  "timeoutStreamInterceptor timeout now ctx streamer = streamer (WithTimeout now ctx timeout)"

record ('t, 'p) dialOptions =
  transportCreds :: 't
  perRpcCreds :: 'p
  maxRecvMsgSize :: nat
  unaryTimeoutOpt :: duration
  streamTimeoutOpt :: duration

datatype connError = ErrTlsFile | ErrMacaroonFile | ErrMacaroonBinary | ErrMacaroonCredential | ErrDial

record ('t, 'm, 'p, 'n) connOps =
  NewClientTLSFromFile :: "string \<Rightarrow> 't option"
  ReadFile :: "string \<Rightarrow> bytes option"
  UnmarshalMacaroon :: "bytes \<Rightarrow> 'm option"
  NewMacaroonCredential :: "'m \<Rightarrow> 'p option"
  Dial :: "string \<Rightarrow> ('t, 'p) dialOptions \<Rightarrow> 'n option"

definition connOptions :: "'t \<Rightarrow> 'p \<Rightarrow> ('t, 'p) dialOptions" where
  "connOptions tlsCreds macCreds =
     \<lparr>transportCreds = tlsCreds, perRpcCreds = macCreds, maxRecvMsgSize = 1 * 1024 * 1024 * 50,
      unaryTimeoutOpt = unaryTimeout, streamTimeoutOpt = streamTimeout\<rparr>"

definition loadGrpcConn :: "('t, 'm, 'p, 'n) connOps \<Rightarrow> string \<Rightarrow> string \<Rightarrow> string \<Rightarrow> (connError, 'n) outcome" where
  "loadGrpcConn ops tlsPath macaroonPath url =
     (case NewClientTLSFromFile ops tlsPath of
        None \<Rightarrow> Err ErrTlsFile
      | Some tlsCreds \<Rightarrow>
          (case ReadFile ops macaroonPath of
             None \<Rightarrow> Err ErrMacaroonFile
           | Some macaroonBytes \<Rightarrow>
               (case UnmarshalMacaroon ops macaroonBytes of
                  None \<Rightarrow> Err ErrMacaroonBinary
                | Some mac \<Rightarrow>
                    (case NewMacaroonCredential ops mac of
                       None \<Rightarrow> Err ErrMacaroonCredential
                     | Some macCreds \<Rightarrow>
                         (case Dial ops url (connOptions tlsCreds macCreds) of
                            None \<Rightarrow> Err ErrDial
                          | Some conn \<Rightarrow> Ok conn)))))"

text \<open>\<open>NewLndClient\<close> with the connection it loads.\<close>

definition NewLndClientFrom ::
    "('t, 'm, 'p, 'n) connOps \<Rightarrow> string \<Rightarrow> string \<Rightarrow> string \<Rightarrow> (string \<Rightarrow> bool option) \<Rightarrow> string option \<Rightarrow> lndInfo option \<Rightarrow> string
     \<Rightarrow> pubkey \<Rightarrow> (lndError, lndClient) outcome" where
  "NewLndClientFrom ops tlsPath macaroonPath url versionOk getVersion getInfo net pubKey =
     NewLndClient versionOk (case loadGrpcConn ops tlsPath macaroonPath url of Ok _ \<Rightarrow> True | _ \<Rightarrow> False) getVersion getInfo net pubKey"

text \<open>The network of a client.\<close>

definition clientNetwork :: "lndClient \<Rightarrow> string" where
  "clientNetwork l = cfgNetwork l"

section \<open>Deadlines\<close>

lemma WithTimeout_le:
  "\<exists>d. WithTimeout now ctx timeout = Some d \<and> d \<le> now + timeout \<and> (\<forall>c. ctx = Some c \<longrightarrow> d \<le> c) \<and>
     (ctx = None \<longrightarrow> d = now + timeout)"
  by (auto simp: WithTimeout_def split: option.splits)

text \<open>The options with which a connection is dialed, when there is one.\<close>

lemma loadGrpcConn_Ok:
  "loadGrpcConn ops tlsPath macaroonPath url = Ok conn \<longleftrightarrow>
     (\<exists>t b m p. NewClientTLSFromFile ops tlsPath = Some t \<and> ReadFile ops macaroonPath = Some b \<and> UnmarshalMacaroon ops b = Some m \<and>
        NewMacaroonCredential ops m = Some p \<and> Dial ops url (connOptions t p) = Some conn)"
  by (auto simp: loadGrpcConn_def split: option.splits)


definition demoConnOps :: "(unit, bytes, bytes, bytes) connOps" where
  "demoConnOps = \<lparr>NewClientTLSFromFile = (\<lambda>_. Some ()), ReadFile = (\<lambda>_. Some [1]), UnmarshalMacaroon = Some,
     NewMacaroonCredential = Some, Dial = (\<lambda>_ opts. Some (perRpcCreds opts))\<rparr>"


section \<open>The goroutine that copies blocks\<close>

text \<open>
  It receives from the stream and sends to one of two channels without a buffer; both sends wait for
  \<open>start\<close> of the interceptor, which may have returned. No step watches a context.
\<close>

datatype blockPhase = BlkReceiving | BlkSending int | BlkFailing | BlkEnded

record blockLoop =
  blkPhase :: blockPhase
  blkListener :: bool
  blkTaken :: "int list"

inductive blockStep :: "blockLoop \<Rightarrow> unit \<Rightarrow> blockLoop \<Rightarrow> bool" where
  recv: "blkPhase s = BlkReceiving \<Longrightarrow> blockStep s () (s\<lparr>blkPhase := BlkSending h\<rparr>)"
| recv_err: "blkPhase s = BlkReceiving \<Longrightarrow> blockStep s () (s\<lparr>blkPhase := BlkFailing\<rparr>)"
| send: "blkPhase s = BlkSending h \<Longrightarrow> blkListener s \<Longrightarrow>
     blockStep s () (s\<lparr>blkPhase := BlkReceiving, blkTaken := blkTaken s @ [h]\<rparr>)"
| send_err: "blkPhase s = BlkFailing \<Longrightarrow> blkListener s \<Longrightarrow> blockStep s () (s\<lparr>blkPhase := BlkEnded, blkListener := False\<rparr>)"
| listener_gone: "blockStep s () (s\<lparr>blkListener := False\<rparr>)"

text \<open>
  Once the interceptor has stopped listening for any other reason than an error of the block stream, the
  goroutine is left behind: it never ends, and no further block is taken.
\<close>

lemma block_goroutine_left_behind:
  assumes "run blockStep s es t" and "\<not> blkListener s" and "blkPhase s \<noteq> BlkEnded"
  shows "blkPhase t \<noteq> BlkEnded \<and> \<not> blkListener t \<and> blkTaken t = blkTaken s"
  using assms
proof (induction rule: run.induct)
  case (run_snoc s es t e u)
  then have "blkPhase t \<noteq> BlkEnded \<and> \<not> blkListener t \<and> blkTaken t = blkTaken s" by blast
  with run_snoc.hyps(2) show ?case by (cases rule: blockStep.cases) auto
qed simp

end
