(* ===== verification/Service_Group.thy ===== *)
theory Service_Group
  imports Prelude
begin

text \<open>
  The goroutines of the daemon (\<open>initServiceWithLock\<close> and the last part of \<open>run\<close> in
  \<open>cmd/lnmuxd/run.go\<close>), and how they end. Both functions start their goroutines in an error group
  (\<open>golang.org/x/sync/errgroup\<close>), which is modelled as documented: its context is done when the parent
  context is or when a goroutine has returned an error, and \<open>Wait\<close> returns the first error once all
  goroutines have returned. Of the goroutines, what their end depends on is modelled: where \<open>Run\<close> of a
  multiplexer and the goroutine of its interceptor are (\<open>mux.go\<close>, \<open>interceptor.go\<close>), whether the registry
  runs and whether it closed \<open>quit\<close>, and whether the rpc server was stopped. The third goroutine of a
  multiplexer, \<open>Run\<close> of its settled handler, is left out: it returns whenever the context is done, and waking
  callers cannot block it, since their channels have room.
\<close>

section \<open>The goroutines of the service\<close>

text \<open>
  \<open>Run\<close> of a multiplexer waits in its \<open>select\<close>, is inside \<open>NotifyExitHopHtlc\<close>, or has left its loop: then the
  deferred \<open>cancel\<close> has run and the deferred \<open>wg.Wait\<close> waits for the interceptor. The interceptor connects, sends
  the initial height to its multiplexer (without watching the context), serves its stream, or has ended.
\<close>

datatype 'e muxPhase = MuxSelect | MuxNotifying | MuxLeaving "'e option" | MuxReturned "'e option"

datatype interceptorPhase = IcConnecting | IcInitialHeight | IcStreaming | IcEnded

datatype 'e taskPhase = TaskRunning | TaskReturned "'e option"

record 'e service =
  parentCtx :: bool
  groupErr :: "'e option"
  registryTask :: "'e taskPhase"
  quitClosed :: bool
  muxTasks :: "('e muxPhase \<times> interceptorPhase) list"
  grpcTask :: "'e taskPhase"
  grpcStopped :: bool
  stopperTask :: "'e taskPhase"

text \<open>The state after all \<open>group.Go\<close> of \<open>run\<close>, with \<open>n\<close> multiplexers.\<close>

definition serviceStart :: "bool \<Rightarrow> nat \<Rightarrow> 'e service" where
  "serviceStart parent n =
     \<lparr>parentCtx = parent, groupErr = None, registryTask = TaskRunning, quitClosed = False,
      muxTasks = replicate n (MuxSelect, IcConnecting), grpcTask = TaskRunning, grpcStopped = False, stopperTask = TaskRunning\<rparr>"

definition groupCtxDone :: "'e service \<Rightarrow> bool" where
  "groupCtxDone s = (parentCtx s \<or> groupErr s \<noteq> None)"

definition firstError :: "'e option \<Rightarrow> 'e service \<Rightarrow> 'e service" where
  "firstError r s = s\<lparr>groupErr := (case groupErr s of None \<Rightarrow> r | Some e \<Rightarrow> Some e)\<rparr>"

definition leftLoop :: "'e muxPhase \<Rightarrow> bool" where
  "leftLoop ph = (case ph of MuxLeaving _ \<Rightarrow> True | MuxReturned _ \<Rightarrow> True | _ \<Rightarrow> False)"

definition setMux :: "nat \<Rightarrow> 'e muxPhase \<times> interceptorPhase \<Rightarrow> 'e service \<Rightarrow> 'e service" where
  "setMux i m s = s\<lparr>muxTasks := (muxTasks s)[i := m]\<rparr>"

inductive serviceStep :: "'e service \<Rightarrow> unit \<Rightarrow> 'e service \<Rightarrow> bool" where
  registry_fails: "registryTask s = TaskRunning \<Longrightarrow>
     serviceStep s () (firstError (Some e) (s\<lparr>registryTask := TaskReturned (Some e)\<rparr>))"
| registry_cancelled: "registryTask s = TaskRunning \<Longrightarrow> groupCtxDone s \<Longrightarrow>
     serviceStep s () (s\<lparr>registryTask := TaskReturned None, quitClosed := True\<rparr>)"
| mux_notifies: "i < length (muxTasks s) \<Longrightarrow> muxTasks s ! i = (MuxSelect, IcStreaming) \<Longrightarrow>
     serviceStep s () (setMux i (MuxNotifying, IcStreaming) s)"
| mux_notified: "i < length (muxTasks s) \<Longrightarrow> muxTasks s ! i = (MuxNotifying, ic) \<Longrightarrow>
     registryTask s = TaskRunning \<or> quitClosed s \<Longrightarrow>
     serviceStep s () (setMux i (MuxSelect, ic) s)"
| mux_fails: "i < length (muxTasks s) \<Longrightarrow> muxTasks s ! i = (MuxSelect, IcStreaming) \<Longrightarrow>
     serviceStep s () (setMux i (MuxLeaving (Some e), IcStreaming) s)"
| mux_cancelled: "i < length (muxTasks s) \<Longrightarrow> muxTasks s ! i = (MuxSelect, ic) \<Longrightarrow> groupCtxDone s \<Longrightarrow>
     serviceStep s () (setMux i (MuxLeaving None, ic) s)"
| mux_returns: "i < length (muxTasks s) \<Longrightarrow> muxTasks s ! i = (MuxLeaving r, IcEnded) \<Longrightarrow>
     serviceStep s () (firstError r (setMux i (MuxReturned r, IcEnded) s))"
| ic_block: "i < length (muxTasks s) \<Longrightarrow> muxTasks s ! i = (ph, IcConnecting) \<Longrightarrow>
     serviceStep s () (setMux i (ph, IcInitialHeight) s)"
| ic_height_taken: "i < length (muxTasks s) \<Longrightarrow> muxTasks s ! i = (MuxSelect, IcInitialHeight) \<Longrightarrow>
     serviceStep s () (setMux i (MuxSelect, IcStreaming) s)"
| ic_reconnects: "i < length (muxTasks s) \<Longrightarrow> muxTasks s ! i = (ph, IcStreaming) \<Longrightarrow>
     serviceStep s () (setMux i (ph, IcConnecting) s)"
| ic_cancelled: "i < length (muxTasks s) \<Longrightarrow> muxTasks s ! i = (ph, ic) \<Longrightarrow> ic \<noteq> IcInitialHeight \<Longrightarrow>
     groupCtxDone s \<or> leftLoop ph \<Longrightarrow>
     serviceStep s () (setMux i (ph, IcEnded) s)"
| grpc_fails: "grpcTask s = TaskRunning \<Longrightarrow> \<not> grpcStopped s \<Longrightarrow>
     serviceStep s () (firstError (Some e) (s\<lparr>grpcTask := TaskReturned (Some e)\<rparr>))"
| grpc_stopped: "grpcTask s = TaskRunning \<Longrightarrow> grpcStopped s \<Longrightarrow>
     serviceStep s () (firstError r (s\<lparr>grpcTask := TaskReturned r\<rparr>))"
| stopper: "stopperTask s = TaskRunning \<Longrightarrow> groupCtxDone s \<Longrightarrow>
     serviceStep s () (s\<lparr>grpcStopped := True, stopperTask := TaskReturned None\<rparr>)"

definition taskOver :: "'e taskPhase \<Rightarrow> bool" where
  "taskOver t = (t \<noteq> TaskRunning)"

definition muxOver :: "'e muxPhase \<times> interceptorPhase \<Rightarrow> bool" where
  "muxOver m = (case fst m of MuxReturned _ \<Rightarrow> True | _ \<Rightarrow> False)"

text \<open>\<open>group.Wait\<close>: what \<open>run\<close> returns, once all goroutines have returned.\<close>

definition groupWait :: "'e service \<Rightarrow> 'e option option" where
  "groupWait s =
     (if taskOver (registryTask s) \<and> list_all muxOver (muxTasks s) \<and> taskOver (grpcTask s) \<and> taskOver (stopperTask s)
      then Some (groupErr s) else None)"

section \<open>When the service cannot end\<close>

text \<open>
  A multiplexer that cannot go on: it notifies the registry, which has ended without closing \<open>quit\<close>, or it has
  left its loop while its interceptor tries to send the initial height.
\<close>

definition muxStuck :: "'e service \<Rightarrow> 'e muxPhase \<times> interceptorPhase \<Rightarrow> bool" where
  "muxStuck s m =
     (case m of
        (MuxNotifying, _) \<Rightarrow> registryTask s \<noteq> TaskRunning \<and> \<not> quitClosed s
      | (MuxLeaving _, ic) \<Rightarrow> ic = IcInitialHeight
      | _ \<Rightarrow> False)"

definition serviceStuck :: "'e service \<Rightarrow> bool" where
  "serviceStuck s = (\<exists>m \<in> set (muxTasks s). muxStuck s m)"

lemma firstError_sel [simp]:
  "parentCtx (firstError r s) = parentCtx s" "registryTask (firstError r s) = registryTask s"
  "quitClosed (firstError r s) = quitClosed s" "muxTasks (firstError r s) = muxTasks s" "grpcTask (firstError r s) = grpcTask s"
  "grpcStopped (firstError r s) = grpcStopped s" "stopperTask (firstError r s) = stopperTask s"
  "groupErr s \<noteq> None \<Longrightarrow> groupErr (firstError r s) = groupErr s"
  by (auto simp: firstError_def split: option.splits)

lemma setMux_sel [simp]:
  "parentCtx (setMux i m s) = parentCtx s" "registryTask (setMux i m s) = registryTask s" "groupErr (setMux i m s) = groupErr s"
  "quitClosed (setMux i m s) = quitClosed s" "grpcTask (setMux i m s) = grpcTask s" "grpcStopped (setMux i m s) = grpcStopped s"
  "stopperTask (setMux i m s) = stopperTask s" "muxTasks (setMux i m s) = (muxTasks s)[i := m]"
  by (simp_all add: setMux_def)

lemma muxStuck_cong [simp]: "muxStuck (setMux i m s) = muxStuck s" "muxStuck (firstError r s) = muxStuck s"
  by (simp_all add: muxStuck_def fun_eq_iff split: muxPhase.splits)

lemma stuck_mux_step:
  assumes "serviceStep s e t" and "j < length (muxTasks s)" and "muxStuck s (muxTasks s ! j)"
  shows "j < length (muxTasks t) \<and> muxStuck t (muxTasks t ! j)"
  using assms
  by (cases rule: serviceStep.cases) (auto simp: muxStuck_def nth_list_update split: muxPhase.splits prod.splits)

lemma stuck_mux_run:
  assumes "run serviceStep s es t" and "j < length (muxTasks s)" and "muxStuck s (muxTasks s ! j)"
  shows "j < length (muxTasks t) \<and> muxStuck t (muxTasks t ! j)"
  using assms
proof (induction rule: run.induct)
  case (run_snoc s es t e u)
  then show ?case using stuck_mux_step [OF run_snoc.hyps(2)] by blast
qed simp

lemma stuck_not_over: "muxStuck s m \<Longrightarrow> \<not> muxOver m"
  by (cases m; cases "fst m") (auto simp: muxStuck_def muxOver_def)

lemma stuck_never_returns:
  assumes "run serviceStep s es t" and "serviceStuck s"
  shows "groupWait t = None"
proof -
  from assms(2) obtain j where "j < length (muxTasks s)" "muxStuck s (muxTasks s ! j)"
    by (auto simp: serviceStuck_def in_set_conv_nth)
  from stuck_mux_run [OF assms(1) this] have "\<exists>m \<in> set (muxTasks t). muxStuck t m" by auto
  then have "\<not> list_all muxOver (muxTasks t)"
    using stuck_not_over by (auto simp: list_all_iff)
  then show ?thesis by (simp add: groupWait_def)
qed

section \<open>When it can\<close>

text \<open>How many steps the parts still need.\<close>

definition muxRank :: "'e muxPhase \<times> interceptorPhase \<Rightarrow> nat" where
  "muxRank m =
     (case fst m of
        MuxReturned _ \<Rightarrow> 0
      | MuxLeaving _ \<Rightarrow> if snd m = IcEnded then 1 else 2
      | MuxSelect \<Rightarrow> if snd m = IcInitialHeight then 4 else 3
      | MuxNotifying \<Rightarrow> 5)"

definition taskRank :: "'e taskPhase \<Rightarrow> nat" where
  "taskRank t = (if taskOver t then 0 else 1)"

definition muxRanks :: "'e service \<Rightarrow> nat" where
  "muxRanks s = sum_list (map muxRank (muxTasks s))"

definition rank :: "'e service \<Rightarrow> nat" where
  "rank s = muxRanks s + taskRank (registryTask s) + taskRank (grpcTask s) + taskRank (stopperTask s)"

lemma sum_list_update_less:
  "i < length xs \<Longrightarrow> f y < f (xs ! i) \<Longrightarrow> sum_list (map f (xs[i := y])) < (sum_list (map f xs) :: nat)"
proof (induction xs arbitrary: i)
  case (Cons x xs)
  then show ?case by (cases i) auto
qed simp

lemma rank_setMux:
  "i < length (muxTasks s) \<Longrightarrow> muxRank m < muxRank (muxTasks s ! i) \<Longrightarrow> rank (setMux i m s) < rank s"
  using sum_list_update_less [of i "muxTasks s" muxRank m] by (simp add: rank_def muxRanks_def)

lemma muxRank_0: "muxRank m = 0 \<longleftrightarrow> muxOver m"
  by (auto simp: muxRank_def muxOver_def split: muxPhase.splits)

lemma groupWait_rank: "groupWait s \<noteq> None \<longleftrightarrow> rank s = 0"
  by (auto simp: groupWait_def rank_def muxRanks_def taskRank_def list_all_iff muxRank_0)

text \<open>A step of one multiplexer that brings it nearer to its end.\<close>

lemma mux_progress:
  assumes ctx: "groupCtxDone s" and free: "\<not> serviceStuck s" and i: "i < length (muxTasks s)" and busy: "\<not> muxOver (muxTasks s ! i)"
  shows "\<exists>m t. (t = setMux i m s \<or> (\<exists>r. t = firstError r (setMux i m s))) \<and> serviceStep s () t \<and>
    \<not> muxStuck s m \<and> muxRank m < muxRank (muxTasks s ! i)"
proof -
  obtain ph ic where m: "muxTasks s ! i = (ph, ic)" by fastforce
  from free i have st: "\<not> muxStuck s (ph, ic)" unfolding serviceStuck_def m [symmetric] by (meson nth_mem)
  show ?thesis
  proof (cases ph)
    case MuxSelect
    show ?thesis
    proof (cases "ic = IcInitialHeight")
      case True
      with serviceStep.ic_height_taken [OF i] m MuxSelect show ?thesis
        by (intro exI [of _ "(MuxSelect, IcStreaming)"]) (auto simp: muxRank_def muxStuck_def)
    next
      case False
      with serviceStep.mux_cancelled [OF i _ ctx, of ic] m MuxSelect show ?thesis
        by (intro exI [of _ "(MuxLeaving None, ic)"]) (auto simp: muxRank_def muxStuck_def)
    qed
  next
    case MuxNotifying
    with st have "registryTask s = TaskRunning \<or> quitClosed s" by (simp add: muxStuck_def)
    with serviceStep.mux_notified [OF i, of ic] m MuxNotifying show ?thesis
      by (intro exI [of _ "(MuxSelect, ic)"]) (auto simp: muxRank_def muxStuck_def)
  next
    case (MuxLeaving r)
    show ?thesis
    proof (cases "ic = IcEnded")
      case True
      with serviceStep.mux_returns [OF i, of r] m MuxLeaving show ?thesis
        by (intro exI [of _ "(MuxReturned r, IcEnded)"]) (auto simp: muxRank_def muxStuck_def)
    next
      case False
      with st MuxLeaving have "ic \<noteq> IcInitialHeight" by (simp add: muxStuck_def)
      with serviceStep.ic_cancelled [OF i m] m MuxLeaving ctx False show ?thesis
        by (intro exI [of _ "(MuxLeaving r, IcEnded)"]) (auto simp: muxRank_def muxStuck_def)
    qed
  qed (use busy m in \<open>simp add: muxOver_def\<close>)
qed

lemma serviceStuck_setMux:
  assumes "\<not> serviceStuck s" and "\<not> muxStuck s m"
  shows "\<not> serviceStuck (setMux i m s)" and "\<not> serviceStuck (firstError r (setMux i m s))"
  using assms set_update_subset_insert [of "muxTasks s" i m] by (auto simp: serviceStuck_def)

lemma shutdown_progress:
  assumes ctx: "groupCtxDone s" and free: "\<not> serviceStuck s" and more: "rank s \<noteq> 0"
  shows "\<exists>t. serviceStep s () t \<and> groupCtxDone t \<and> \<not> serviceStuck t \<and> rank t < rank s"
proof (cases "list_all muxOver (muxTasks s)")
  case False
  then obtain i where i: "i < length (muxTasks s)" "\<not> muxOver (muxTasks s ! i)" by (auto simp: list_all_length)
  from mux_progress [OF ctx free i] obtain m t where t: "t = setMux i m s \<or> (\<exists>r. t = firstError r (setMux i m s))"
    "serviceStep s () t" "\<not> muxStuck s m" "muxRank m < muxRank (muxTasks s ! i)" by blast
  have "rank t = rank (setMux i m s)" using t(1) by (auto simp: rank_def muxRanks_def)
  moreover have "groupCtxDone t" using t(1) ctx by (auto simp: groupCtxDone_def firstError_def split: option.splits)
  ultimately show ?thesis using t rank_setMux [OF i(1) t(4)] serviceStuck_setMux [OF free t(3)] by metis
next
  case over: True
  then have ok: "\<not> serviceStuck t" if "muxTasks t = muxTasks s" for t
    using that stuck_not_over by (auto simp: serviceStuck_def list_all_iff)
  from over more consider "\<not> taskOver (stopperTask s)" | "\<not> taskOver (registryTask s)" |
      "taskOver (stopperTask s)" "taskOver (registryTask s)" "\<not> taskOver (grpcTask s)"
    by (auto simp: rank_def muxRanks_def taskRank_def list_all_iff muxRank_0 split: if_splits)
  then show ?thesis
  proof cases
    case 1
    with serviceStep.stopper [OF _ ctx] have "serviceStep s () (s\<lparr>grpcStopped := True, stopperTask := TaskReturned None\<rparr>)" (is "serviceStep s () ?t")
      by (simp add: taskOver_def)
    moreover have "rank ?t < rank s" using 1 by (simp add: rank_def muxRanks_def taskRank_def taskOver_def)
    ultimately show ?thesis using ctx ok [of ?t] by (intro exI [of _ ?t]) (simp add: groupCtxDone_def)
  next
    case 2
    with serviceStep.registry_cancelled [OF _ ctx]
    have "serviceStep s () (s\<lparr>registryTask := TaskReturned None, quitClosed := True\<rparr>)" (is "serviceStep s () ?t")
      by (simp add: taskOver_def)
    moreover have "rank ?t < rank s" using 2 by (simp add: rank_def muxRanks_def taskRank_def taskOver_def)
    ultimately show ?thesis using ctx ok [of ?t] by (intro exI [of _ ?t]) (simp add: groupCtxDone_def)
  next
    case 3
    then have g: "grpcTask s = TaskRunning" by (simp add: taskOver_def)
    obtain r where st: "serviceStep s () (firstError r (s\<lparr>grpcTask := TaskReturned r\<rparr>))" (is "serviceStep s () ?t")
      using serviceStep.grpc_fails [OF g] serviceStep.grpc_stopped [OF g] by blast
    moreover have "rank ?t < rank s" using g by (simp add: rank_def muxRanks_def taskRank_def taskOver_def)
    moreover have "groupCtxDone ?t" using ctx by (auto simp: groupCtxDone_def firstError_def split: option.splits)
    ultimately show ?thesis using ok [of ?t] by (intro exI [of _ ?t]) simp
  qed
qed

lemma shutdown_run:
  assumes "groupCtxDone s" and "\<not> serviceStuck s"
  shows "\<exists>es t. run serviceStep s es t \<and> groupWait t \<noteq> None"
  using assms
proof (induction "rank s" arbitrary: s rule: less_induct)
  case less
  show ?case
  proof (cases "rank s = 0")
    case True
    with groupWait_rank [of s] run_nil [of serviceStep s] show ?thesis by blast
  next
    case False
    from shutdown_progress [OF less.prems False] obtain t where t: "serviceStep s () t" "groupCtxDone t" "\<not> serviceStuck t" "rank t < rank s"
      by blast
    from less.hyps [OF t(4,2,3)] obtain es u where "run serviceStep t es u" "groupWait u \<noteq> None" by blast
    with run_append [OF _ run_snoc [where step = serviceStep, OF run_nil t(1)]] show ?thesis by blast
  qed
qed

text \<open>
  When the service can end. Once its context is done (a signal, or an error of one of its goroutines), all its
  goroutines can still return, so that \<open>run\<close> returns and the lock is released, if and only if no
  multiplexer is stuck: in \<open>NotifyExitHopHtlc\<close> after the registry has ended with an error, or waiting for
  its interceptor while that sends the initial height, which nobody receives any more.
\<close>

lemma shutdown_possible_iff:
  assumes "groupCtxDone s"
  shows "(\<exists>es t r. run serviceStep s es t \<and> groupWait t = Some r) \<longleftrightarrow> \<not> serviceStuck s"
  using shutdown_run [OF assms] stuck_never_returns by fastforce

text \<open>
  A database error while a multiplexer notifies the registry: the state is reached from the start of the service,
  and from it the service never ends.
\<close>

definition blockedService :: "nat service" where
  "blockedService = \<lparr>parentCtx = False, groupErr = Some 7, registryTask = TaskReturned (Some 7), quitClosed = False,
     muxTasks = [(MuxNotifying, IcStreaming)], grpcTask = TaskRunning, grpcStopped = False, stopperTask = TaskRunning\<rparr>"

lemma blockedService_reached: "\<exists>es. run serviceStep (serviceStart False 1) es blockedService"
proof -
  let ?s0 = "serviceStart False 1 :: nat service"
  let ?s1 = "setMux 0 (MuxSelect, IcInitialHeight) ?s0"
  let ?s2 = "setMux 0 (MuxSelect, IcStreaming) ?s1"
  let ?s3 = "setMux 0 (MuxNotifying, IcStreaming) ?s2"
  have "serviceStep ?s0 () ?s1" by (rule serviceStep.ic_block) (simp_all add: serviceStart_def)
  moreover have "serviceStep ?s1 () ?s2" by (rule serviceStep.ic_height_taken) (simp_all add: serviceStart_def)
  moreover have "serviceStep ?s2 () ?s3" by (rule serviceStep.mux_notifies) (simp_all add: serviceStart_def)
  moreover have "serviceStep ?s3 () (firstError (Some 7) (?s3\<lparr>registryTask := TaskReturned (Some 7)\<rparr>))"
    by (rule serviceStep.registry_fails) (simp add: serviceStart_def)
  moreover have "firstError (Some 7) (?s3\<lparr>registryTask := TaskReturned (Some 7)\<rparr>) = blockedService"
    by (simp add: firstError_def setMux_def serviceStart_def blockedService_def)
  ultimately show ?thesis by (metis run_nil run_snoc)
qed

section \<open>The goroutines of the daemon\<close>

text \<open>
  \<open>initServiceWithLock\<close>: a goroutine that waits for a signal, the instrumentation server and the goroutine that
  closes it, and the service under the lock. The service has not got the lock yet (or \<open>run\<close> still prepares),
  runs its group, or has returned; an error of the lock or of the preparation ends it at once.
\<close>

datatype 'e daemonErr = UserTermination | ErrServerClosed | InstrumentationErr 'e | ServiceErr 'e

datatype 'e lockedPhase = Locking | Serving "'e service" | LockedReturned "'e option"

record 'e daemonGroup =
  dgErr :: "'e daemonErr option"
  signalTask :: "'e daemonErr taskPhase"
  instServer :: "'e daemonErr taskPhase"
  instCloser :: "'e daemonErr taskPhase"
  lockedService :: "'e lockedPhase"

definition daemonStart :: "'e daemonGroup" where
  "daemonStart = \<lparr>dgErr = None, signalTask = TaskRunning, instServer = TaskRunning, instCloser = TaskRunning, lockedService = Locking\<rparr>"

definition daemonFirst :: "'e daemonErr option \<Rightarrow> 'e daemonGroup \<Rightarrow> 'e daemonGroup" where
  "daemonFirst r g = g\<lparr>dgErr := (case dgErr g of None \<Rightarrow> r | Some e \<Rightarrow> Some e)\<rparr>"

inductive daemonStep :: "'e daemonGroup \<Rightarrow> unit \<Rightarrow> 'e daemonGroup \<Rightarrow> bool" where
  signalled: "signalTask g = TaskRunning \<Longrightarrow>
     daemonStep g () (daemonFirst (Some UserTermination) (g\<lparr>signalTask := TaskReturned (Some UserTermination)\<rparr>))"
| signal_done: "signalTask g = TaskRunning \<Longrightarrow> dgErr g \<noteq> None \<Longrightarrow> daemonStep g () (g\<lparr>signalTask := TaskReturned None\<rparr>)"
| inst_fails: "instServer g = TaskRunning \<Longrightarrow>
     daemonStep g () (daemonFirst (Some (InstrumentationErr e)) (g\<lparr>instServer := TaskReturned (Some (InstrumentationErr e))\<rparr>))"
| inst_closed: "instServer g = TaskRunning \<Longrightarrow> instCloser g \<noteq> TaskRunning \<Longrightarrow>
     daemonStep g () (daemonFirst (Some ErrServerClosed) (g\<lparr>instServer := TaskReturned (Some ErrServerClosed)\<rparr>))"
| inst_close: "instCloser g = TaskRunning \<Longrightarrow> dgErr g \<noteq> None \<Longrightarrow> daemonStep g () (g\<lparr>instCloser := TaskReturned r\<rparr>)"
| lock_fails: "lockedService g = Locking \<Longrightarrow>
     daemonStep g () (daemonFirst (Some (ServiceErr e)) (g\<lparr>lockedService := LockedReturned (Some e)\<rparr>))"
| lock_got: "lockedService g = Locking \<Longrightarrow> daemonStep g () (g\<lparr>lockedService := Serving (serviceStart (dgErr g \<noteq> None) n)\<rparr>)"
| ctx_done: "lockedService g = Serving s \<Longrightarrow> dgErr g \<noteq> None \<Longrightarrow>
     daemonStep g () (g\<lparr>lockedService := Serving (s\<lparr>parentCtx := True\<rparr>)\<rparr>)"
| serve: "lockedService g = Serving s \<Longrightarrow> serviceStep s () t \<Longrightarrow> daemonStep g () (g\<lparr>lockedService := Serving t\<rparr>)"
| served: "lockedService g = Serving s \<Longrightarrow> groupWait s = Some r \<Longrightarrow>
     daemonStep g () (daemonFirst (map_option ServiceErr r) (g\<lparr>lockedService := LockedReturned r\<rparr>))"

definition daemonWait :: "'e daemonGroup \<Rightarrow> 'e daemonErr option option" where
  "daemonWait g =
     (if taskOver (signalTask g) \<and> taskOver (instServer g) \<and> taskOver (instCloser g) \<and> (\<exists>r. lockedService g = LockedReturned r)
      then Some (dgErr g) else None)"

lemma dgErr_keeps: "run daemonStep g es h \<Longrightarrow> dgErr g = Some e \<Longrightarrow> dgErr h = Some e"
proof (induction rule: run.induct)
  case (run_snoc s es t u v)
  from run_snoc.hyps(2) run_snoc.IH [OF run_snoc.prems] show ?case
    by (cases rule: daemonStep.cases) (auto simp: daemonFirst_def)
qed simp

definition lockedStuck :: "'e daemonGroup \<Rightarrow> bool" where
  "lockedStuck g = (\<exists>s. lockedService g = Serving s \<and> serviceStuck s)"

lemma serviceStuck_step: "serviceStep s () t \<Longrightarrow> serviceStuck s \<Longrightarrow> serviceStuck t"
  using stuck_mux_step [of s "()" t] by (fastforce simp: serviceStuck_def in_set_conv_nth)

lemma serviceStuck_ctx [simp]: "serviceStuck (s\<lparr>parentCtx := b\<rparr>) = serviceStuck s"
  by (simp add: serviceStuck_def muxStuck_def cong: muxPhase.case_cong)

lemma lockedStuck_run: "run daemonStep g es h \<Longrightarrow> lockedStuck g \<Longrightarrow> lockedStuck h"
proof (induction rule: run.induct)
  case (run_snoc s es t u v)
  from run_snoc.hyps(2) run_snoc.IH [OF run_snoc.prems] show ?case
    by (cases rule: daemonStep.cases)
      (auto simp: lockedStuck_def daemonFirst_def intro: serviceStuck_step dest: stuck_never_returns [OF run_nil])
qed simp

lemma serve_run:
  assumes "run serviceStep s es t" and "lockedService g = Serving s"
  shows "\<exists>es. run daemonStep g es (g\<lparr>lockedService := Serving t\<rparr>)"
  using assms
proof (induction rule: run.induct)
  case (run_nil s)
  have "g\<lparr>lockedService := Serving s\<rparr> = g" using run_nil by simp
  with run.run_nil [of daemonStep g] show ?case by metis
next
  case (run_snoc s es t e u)
  then obtain es' where "run daemonStep g es' (g\<lparr>lockedService := Serving t\<rparr>)" by blast
  moreover have "daemonStep (g\<lparr>lockedService := Serving t\<rparr>) () (g\<lparr>lockedService := Serving u\<rparr>)"
    using daemonStep.serve [of "g\<lparr>lockedService := Serving t\<rparr>" t u] run_snoc.hyps(2) by simp
  ultimately show ?case by (blast intro: run.run_snoc)
qed

lemma run_then:
  assumes "run daemonStep g es h" and "daemonStep h () k"
  shows "\<exists>es. run daemonStep g es k"
  using assms run.run_snoc by metis

text \<open>The service returns, then the other goroutines do.\<close>

lemma service_returns:
  assumes "dgErr g = Some e" and "\<not> lockedStuck g"
  shows "\<exists>es h r. run daemonStep g es h \<and> lockedService h = LockedReturned r"
proof (cases "lockedService g")
  case Locking
  let ?h = "daemonFirst (Some (ServiceErr undefined)) (g\<lparr>lockedService := LockedReturned (Some undefined)\<rparr>)"
  have "lockedService ?h = LockedReturned (Some undefined)" by (simp add: daemonFirst_def)
  with run_then [OF run_nil daemonStep.lock_fails [OF Locking, of undefined]] show ?thesis by blast
next
  case (Serving s)
  let ?g = "g\<lparr>lockedService := Serving (s\<lparr>parentCtx := True\<rparr>)\<rparr>"
  have "daemonStep g () ?g" using daemonStep.ctx_done [OF Serving] assms(1) by simp
  from run_then [OF run_nil this] obtain es where 1: "run daemonStep g es ?g" by blast
  have "groupCtxDone (s\<lparr>parentCtx := True\<rparr>)" "\<not> serviceStuck (s\<lparr>parentCtx := True\<rparr>)"
    using assms(2) Serving by (simp_all add: groupCtxDone_def lockedStuck_def)
  from shutdown_run [OF this] obtain es' t r where t: "run serviceStep (s\<lparr>parentCtx := True\<rparr>) es' t" "groupWait t = Some r" by blast
  from serve_run [OF t(1), of ?g] obtain es2 where 2: "run daemonStep ?g es2 (g\<lparr>lockedService := Serving t\<rparr>)" by auto
  have "daemonStep (g\<lparr>lockedService := Serving t\<rparr>) ()
      (daemonFirst (map_option ServiceErr r) (g\<lparr>lockedService := LockedReturned r\<rparr>))"
    using daemonStep.served [of "g\<lparr>lockedService := Serving t\<rparr>" t r] t(2) by simp
  with run_then [OF run_append [OF 2 1]] obtain es3
    where "run daemonStep g es3 (daemonFirst (map_option ServiceErr r) (g\<lparr>lockedService := LockedReturned r\<rparr>))" by blast
  then show ?thesis by (intro exI conjI) (assumption, simp add: daemonFirst_def)
next
  case (LockedReturned r)
  with run_nil [of daemonStep g] show ?thesis by blast
qed

lemma others_return:
  assumes "dgErr g = Some e" and "lockedService g = LockedReturned r"
  shows "\<exists>es h. run daemonStep g es h \<and> daemonWait h = Some (Some e)"
proof -
  define g1 where "g1 = (if taskOver (signalTask g) then g else g\<lparr>signalTask := TaskReturned None\<rparr>)"
  define g2 where "g2 = (if taskOver (instCloser g1) then g1 else g1\<lparr>instCloser := TaskReturned None\<rparr>)"
  define g3 where "g3 = (if taskOver (instServer g2) then g2
    else daemonFirst (Some ErrServerClosed) (g2\<lparr>instServer := TaskReturned (Some ErrServerClosed)\<rparr>))"
  have "\<exists>es. run daemonStep g es g1"
    using run_nil [of daemonStep g] run_then [OF run_nil daemonStep.signal_done [of g]] assms(1)
    by (auto simp: g1_def taskOver_def)
  moreover have "\<exists>es. run daemonStep g1 es g2"
    using run_nil [of daemonStep g1] run_then [OF run_nil daemonStep.inst_close [of g1]] assms(1)
    by (auto simp: g2_def g1_def taskOver_def)
  moreover have "\<exists>es. run daemonStep g2 es g3"
    using run_nil [of daemonStep g2] run_then [OF run_nil daemonStep.inst_closed [of g2]]
    by (auto simp: g3_def g2_def taskOver_def)
  ultimately have "\<exists>es. run daemonStep g es g3" by (blast intro: run_append)
  moreover have "daemonWait g3 = Some (Some e)"
    using assms by (auto simp: daemonWait_def g3_def g2_def g1_def taskOver_def daemonFirst_def)
  ultimately show ?thesis by blast
qed

text \<open>
  C26: how the daemon exits. Once one of its goroutines has returned an error (a signal, the lock, the instrumentation
  server or the service), the daemon can exit if and only if no multiplexer of its service is stuck; and
  whenever it exits, \<open>initServiceWithLock\<close> returns that first error, whatever the others returned later.
\<close>

theorem daemon_exits_iff:
  assumes "dgErr g = Some e"
  shows "((\<exists>es h r. run daemonStep g es h \<and> daemonWait h = Some r) \<longleftrightarrow> \<not> lockedStuck g) \<and>
    (\<forall>es h r. run daemonStep g es h \<and> daemonWait h = Some r \<longrightarrow> r = Some e)"
proof (intro conjI allI impI iffI)
  assume "\<exists>es h r. run daemonStep g es h \<and> daemonWait h = Some r"
  then show "\<not> lockedStuck g" using lockedStuck_run by (fastforce simp: daemonWait_def lockedStuck_def split: if_splits)
next
  assume "\<not> lockedStuck g"
  with service_returns [OF assms] obtain es h r where h: "run daemonStep g es h" "lockedService h = LockedReturned r" by blast
  from others_return [OF dgErr_keeps [OF h(1) assms] h(2)] obtain es' k
    where "run daemonStep h es' k" "daemonWait k = Some (Some e)" by blast
  with run_append [OF _ h(1)] show "\<exists>es h r. run daemonStep g es h \<and> daemonWait h = Some r" by blast
next
  fix es h r assume "run daemonStep g es h \<and> daemonWait h = Some r"
  then show "r = Some e" using dgErr_keeps [OF _ assms] by (auto simp: daemonWait_def split: if_splits)
qed

theorem daemon_exits_iff_witness:
  "(\<exists>es h. run daemonStep (daemonFirst (Some UserTermination) (daemonStart\<lparr>signalTask := TaskReturned (Some UserTermination)\<rparr>)) es h \<and>
      daemonWait h = Some (Some UserTermination)) \<and>
   \<not> (\<exists>es h r. run daemonStep (daemonStart\<lparr>dgErr := Some UserTermination, lockedService := Serving blockedService\<rparr>) es h \<and> daemonWait h = Some r)"
proof -
  let ?g = "daemonFirst (Some UserTermination) (daemonStart\<lparr>signalTask := TaskReturned (Some UserTermination)\<rparr>)"
  let ?b = "daemonStart\<lparr>dgErr := Some UserTermination, lockedService := Serving blockedService\<rparr>"
  have g: "dgErr ?g = Some UserTermination" "\<not> lockedStuck ?g" by (simp_all add: daemonFirst_def daemonStart_def lockedStuck_def)
  have b: "dgErr ?b = Some UserTermination" "lockedStuck ?b"
    by (simp_all add: lockedStuck_def serviceStuck_def muxStuck_def blockedService_def)
  from daemon_exits_iff [OF g(1)] g(2) daemon_exits_iff [OF b(1)] b(2) show ?thesis by metis
qed

end
