(* ===== verification/Command_Line.thy ===== *)
theory Command_Line
  imports Startup Connection Service_Group
begin

text \<open>
  The commands of the daemon: \<open>cmd/lnmuxd/main.go\<close>, \<open>log.go\<close>, \<open>migrate.go\<close>, \<open>runAction\<close>, \<open>initPersistence\<close> and
  \<open>initInstrumentationServer\<close> of \<open>run.go\<close>, the migrations of \<open>persistence/migrations/migrations.go\<close> and
  the connection of \<open>persistence/pg.go\<close>. The libraries for the command line, logging (zap), PostgreSQL and
  migrations (go-pg) are parameters.
\<close>

section \<open>Logging\<close>

datatype Level = DebugLevel | InfoLevel | WarnLevel | ErrorLevel | DPanicLevel | PanicLevel | FatalLevel

text \<open>\<open>strings.ToLower\<close> and \<open>strings.TrimSpace\<close> on ASCII text.\<close>

definition lowerChar :: "char \<Rightarrow> char" where
  "lowerChar c = (if 65 \<le> (of_char c :: nat) \<and> (of_char c :: nat) \<le> 90 then char_of ((of_char c :: nat) + 32) else c)"

definition isSpace :: "char \<Rightarrow> bool" where
  "isSpace c = ((of_char c :: nat) = 32 \<or> 9 \<le> (of_char c :: nat) \<and> (of_char c :: nat) \<le> 13)"

definition TrimSpace :: "string \<Rightarrow> string" where
  "TrimSpace s = rev (dropWhile isSpace (rev (dropWhile isSpace s)))"

definition ToLower :: "string \<Rightarrow> string" where
  "ToLower s = map lowerChar s"

definition parseLevel :: "string \<Rightarrow> Level option" where
  "parseLevel level =
     (let l = TrimSpace (ToLower level) in
      if l \<in> {'''', ''d'', ''debug''} then Some DebugLevel
      else if l \<in> {''info'', ''i''} then Some InfoLevel
      else if l \<in> {''w'', ''warn'', ''warning''} then Some WarnLevel
      else if l \<in> {''e'', ''error'', ''errors''} then Some ErrorLevel
      else if l \<in> {''dp'', ''dpanic''} then Some DPanicLevel
      else if l \<in> {''p'', ''panic'', ''panics''} then Some PanicLevel
      else if l \<in> {''f'', ''fatal'', ''fatals''} then Some FatalLevel
      else None)"

record zapConfig =
  zapLevel :: Level
  zapEncoding :: string
  zapColor :: bool
  zapCaller :: bool

datatype logError = UnknownLevel string | ErrBuild

definition zapConfigOf :: "Level \<Rightarrow> string \<Rightarrow> bool \<Rightarrow> zapConfig" where
  "zapConfigOf l format withCaller =
     \<lparr>zapLevel = l, zapEncoding = (if format = [] then ''console'' else format), zapColor = (format = []), zapCaller = withCaller\<rparr>"

text \<open>The result, and the global logger, which is replaced only when all went well.\<close>

definition initLogger ::
    "(zapConfig \<Rightarrow> 'l option) \<Rightarrow> string \<Rightarrow> string \<Rightarrow> bool \<Rightarrow> 'l option \<Rightarrow> (logError, unit) outcome \<times> 'l option" where
  "initLogger build level format withCaller log =
     (case parseLevel level of
        None \<Rightarrow> (Err (UnknownLevel level), log)
      | Some l \<Rightarrow>
          (case build (zapConfigOf l format withCaller) of
             None \<Rightarrow> (Err ErrBuild, log)
           | Some lo \<Rightarrow> (Ok (), Some lo)))"

section \<open>Persistence\<close>

record pgOptions =
  pgPoolSize :: int
  pgMinIdleConns :: int
  pgMaxConnAge :: duration
  pgPoolTimeout :: duration
  pgIdleTimeout :: duration
  pgRest :: string

text \<open>
  The library: parsing a DSN, connecting (which does not fail), one statement within a deadline, closing. A
  persister is its connection; the zero value has none.
\<close>

record 'n pgOps =
  ParseURL :: "string \<Rightarrow> pgOptions option"
  Connect :: "pgOptions \<Rightarrow> 'n"
  ExecOne :: "'n \<Rightarrow> duration option \<Rightarrow> bool"
  CloseConn :: "'n \<Rightarrow> bool"

datatype pgError = ErrParseURL | ErrPing | ErrClose

definition NewPostgresPersisterFromOptions :: "'n pgOps \<Rightarrow> pgOptions \<Rightarrow> 'n option" where
  "NewPostgresPersisterFromOptions ops options = Some (Connect ops options)"

definition NewPostgresPersisterFromDSN :: "'n pgOps \<Rightarrow> string \<Rightarrow> (pgError, 'n option) outcome" where
  "NewPostgresPersisterFromDSN ops dsn =
     (case ParseURL ops dsn of
        None \<Rightarrow> Err ErrParseURL
      | Some options \<Rightarrow> Ok (NewPostgresPersisterFromOptions ops options))"

definition Ping :: "'n pgOps \<Rightarrow> duration option \<Rightarrow> 'n option \<Rightarrow> (pgError, unit) outcome" where
  "Ping ops timeout conn =
     (case conn of
        None \<Rightarrow> Ok ()
      | Some n \<Rightarrow> if ExecOne ops n timeout then Ok () else Err ErrPing)"

definition ClosePersister :: "'n pgOps \<Rightarrow> 'n option \<Rightarrow> (pgError, unit) outcome" where
  "ClosePersister ops conn =
     (case conn of
        None \<Rightarrow> Panic ''nil pointer dereference''
      | Some n \<Rightarrow> if CloseConn ops n then Ok () else Err ErrClose)"

definition applyPool :: "DbConfig \<Rightarrow> pgOptions \<Rightarrow> pgOptions" where
  "applyPool c options =
     options\<lparr>pgPoolSize := PoolSize c, pgMinIdleConns := MinIdleConns c, pgMaxConnAge := MaxConnAge c,
             pgPoolTimeout := PoolTimeout c, pgIdleTimeout := IdleTimeout c\<rparr>"

definition initPersistence :: "'n pgOps \<Rightarrow> Config \<Rightarrow> (pgError, 'n option) outcome" where
  "initPersistence ops c =
     (case ParseURL ops (DSN (cfDB c)) of
        None \<Rightarrow> Err ErrParseURL
      | Some options \<Rightarrow>
          let db = NewPostgresPersisterFromOptions ops (applyPool (cfDB c) options)
          in case Ping ops (Some (5 * second)) db of
               Ok _ \<Rightarrow> Ok db
             | Err e \<Rightarrow> Err e
             | Panic m \<Rightarrow> Panic m)"

section \<open>Migrations\<close>

text \<open>
  The collection of migrations and the \<open>sync.Once\<close>. \<open>discover\<close> lists the migrations of a directory, \<open>runOp\<close> runs a
  command with the collected migrations and gives the old and the new version.
\<close>

record 'm migrationState =
  sqlDiscoveryOnce :: bool
  collection :: "'m list"

datatype migrateError = ErrDiscover | ErrMigrate | ErrMigrateConfig configError | ErrMigrateDsn

definition DiscoverSQLMigrations ::
    "(string \<Rightarrow> 'm list option) \<Rightarrow> string \<Rightarrow> 'm migrationState \<Rightarrow> (migrateError, unit) outcome \<times> 'm migrationState" where
  "DiscoverSQLMigrations discover dir s =
     (if sqlDiscoveryOnce s then (Ok (), s)
      else let dir' = (if dir = [] then ''persistence/migrations'' else dir); s' = s\<lparr>sqlDiscoveryOnce := True\<rparr>
           in case discover dir' of
                None \<Rightarrow> (Err ErrDiscover, s')
              | Some ms \<Rightarrow> (Ok (), s'\<lparr>collection := collection s' @ ms\<rparr>))"

definition runMigrations ::
    "(string \<Rightarrow> 'm list option) \<Rightarrow> ('m list \<Rightarrow> string list \<Rightarrow> (int \<times> int) option) \<Rightarrow> string list \<Rightarrow> 'm migrationState
     \<Rightarrow> (migrateError, int \<times> int) outcome \<times> 'm migrationState" where
  "runMigrations discover runOp args s =
     (case DiscoverSQLMigrations discover [] s of
        (Err e, s') \<Rightarrow> (Err e, s')
      | (Panic m, s') \<Rightarrow> (Panic m, s')
      | (Ok _, s') \<Rightarrow> (case runOp (collection s') args of None \<Rightarrow> (Err ErrMigrate, s') | Some v \<Rightarrow> (Ok v, s')))"

datatype migrateOutput = ShowHelp | Migrated int int | VersionIs int

definition migrateAction ::
    "(configError, Config) outcome \<Rightarrow> 'n pgOps \<Rightarrow> (string \<Rightarrow> 'm list option) \<Rightarrow> ('n \<Rightarrow> 'm list \<Rightarrow> string list \<Rightarrow> (int \<times> int) option)
     \<Rightarrow> string list \<Rightarrow> 'm migrationState \<Rightarrow> (migrateError, migrateOutput) outcome \<times> 'm migrationState" where
  "migrateAction config ops discover runOp args s =
     (if args = [] then (Ok ShowHelp, s)
      else case config of
        Err e \<Rightarrow> (Err (ErrMigrateConfig e), s)
      | Panic m \<Rightarrow> (Panic m, s)
      | Ok c \<Rightarrow>
          (case ParseURL ops (DSN (cfDB c)) of
             None \<Rightarrow> (Err ErrMigrateDsn, s)
           | Some settings \<Rightarrow>
               let db = Connect ops settings
               in case DiscoverSQLMigrations discover [] s of
                    (Err e, s1) \<Rightarrow> (Err e, s1)
                  | (Panic m, s1) \<Rightarrow> (Panic m, s1)
                  | (Ok _, s1) \<Rightarrow>
                      (case runMigrations discover (runOp db) args s1 of
                         (Ok (oldVersion, newVersion), s2) \<Rightarrow>
                           (Ok (if newVersion \<noteq> oldVersion then Migrated oldVersion newVersion else VersionIs oldVersion), s2)
                       | (Err e, s2) \<Rightarrow> (Err e, s2)
                       | (Panic m, s2) \<Rightarrow> (Panic m, s2))))"

section \<open>Running\<close>

definition DefaultInstrumentationAddress :: string where
  "DefaultInstrumentationAddress = ''localhost:2112''"

record httpServer =
  httpAddr :: string
  httpHandlers :: "string list"
  ReadHeaderTimeout :: duration

definition initInstrumentationServer :: "string \<Rightarrow> httpServer" where
  "initInstrumentationServer instAddress =
     \<lparr>httpAddr = (if instAddress = [] then DefaultInstrumentationAddress else instAddress),
      httpHandlers = [''/metrics'', ''/debug/pprof'', ''/debug/pprof/cmdline'', ''/debug/pprof/profile'', ''/debug/pprof/symbol'',
        ''/debug/pprof/trace'', ''/debug/pprof/allocs'', ''/debug/pprof/block'', ''/debug/pprof/goroutine'', ''/debug/pprof/heap'',
        ''/debug/pprof/mutex'', ''/debug/pprof/threadcreate''],
      ReadHeaderTimeout = 10 * second\<rparr>"

text \<open>The start of the service with the connections it makes: to the database, and to the nodes.\<close>

definition startService ::
    "('sk, 'pk, 'sg) keyOps \<Rightarrow> netNames \<Rightarrow> 'n pgOps \<Rightarrow> ('t, 'm, 'p, 'g) connOps \<Rightarrow> (string \<Rightarrow> bool option)
     \<Rightarrow> (nodeConfig \<Rightarrow> string option) \<Rightarrow> (nodeConfig \<Rightarrow> lndInfo option) \<Rightarrow> (string \<Rightarrow> bool) \<Rightarrow> Config
     \<Rightarrow> (daemonError, ('sk, 'pk) daemon) outcome" where
  "startService ops names pg conns versionOk getVersion getInfo listen c =
     startDaemon ops names
       (\<lambda>net n k. NewLndClientFrom conns (ncTlsCertPath n) (ncMacaroonPath n) (ncLndUrl n) versionOk (getVersion n) (getInfo n) net k)
       (case initPersistence pg c of Ok _ \<Rightarrow> True | _ \<Rightarrow> False) listen c"

text \<open>\<open>runAction\<close>: \<open>serve\<close> stands for \<open>initServiceWithLock\<close> with the service, and gives the error it returns.\<close>

datatype 'e runError = RunConfig configError | RunLogger logError | RunPanic string | RunDaemon 'e

definition runAction ::
    "(configError, Config) outcome \<Rightarrow> (zapConfig \<Rightarrow> 'l option) \<Rightarrow> 'l option \<Rightarrow> (httpServer \<Rightarrow> Config \<Rightarrow> 'e option)
     \<Rightarrow> 'e runError option \<times> 'l option" where
  "runAction config build log serve =
     (case config of
        Err e \<Rightarrow> (Some (RunConfig e), log)
      | Panic m \<Rightarrow> (Some (RunPanic m), log)
      | Ok c \<Rightarrow>
          (case initLogger build (logLevel (cfLogging c)) (logFormat (cfLogging c)) (WithCaller (cfLogging c)) log of
             (Err e, log') \<Rightarrow> (Some (RunLogger e), log')
           | (Panic m, log') \<Rightarrow> (Some (RunPanic m), log')
           | (Ok _, log') \<Rightarrow>
               (map_option RunDaemon (serve (initInstrumentationServer (cfInstrumentationAddress c)) c), log')))"

text \<open>\<open>main\<close>: an error of the command is printed; the exit status of a Go program whose \<open>main\<close> returns is 0.\<close>

definition mainResult :: "'e option \<Rightarrow> 'e option \<times> nat" where
  "mainResult result = (result, 0)"

section \<open>Properties\<close>

text \<open>Levels are read without regard to case and to space around them.\<close>

lemma lowerChar_idem [simp]: "lowerChar (lowerChar c) = lowerChar c"
  by (auto simp: lowerChar_def)

lemma parseLevel_lower: "parseLevel (ToLower level) = parseLevel level"
  by (simp add: parseLevel_def ToLower_def comp_def)

lemma TrimSpace_space: "isSpace c \<Longrightarrow> TrimSpace (c # s) = TrimSpace s"
  by (simp add: TrimSpace_def)

text \<open>The global logger is replaced exactly when a logger was built; on an error the old one stays.\<close>

lemma initLogger_log:
  "initLogger build level format withCaller log = (Err e, log') \<Longrightarrow> log' = log"
  "initLogger build level format withCaller log = (Ok u, log') \<longleftrightarrow>
     (\<exists>l. parseLevel level = Some l \<and> log' = build (zapConfigOf l format withCaller) \<and> log' \<noteq> None)"
  by (auto simp: initLogger_def split: option.splits)

text \<open>A failed discovery is reported by the first call only; all later ones succeed with nothing collected.\<close>

lemma failed_discovery_reported_once:
  assumes "\<not> sqlDiscoveryOnce s" and "discover ''persistence/migrations'' = None"
  shows "\<exists>s'. DiscoverSQLMigrations discover [] s = (Err ErrDiscover, s') \<and> collection s' = collection s \<and>
    DiscoverSQLMigrations discover [] s' = (Ok (), s') \<and>
    runMigrations discover runOp args s' = (case runOp (collection s) args of None \<Rightarrow> (Err ErrMigrate, s') | Some v \<Rightarrow> (Ok v, s'))"
  using assms by (auto simp: DiscoverSQLMigrations_def runMigrations_def)

text \<open>The migrations are discovered once, although the command and the run both ask for it.\<close>

lemma migrateAction_runs:
  assumes "\<not> sqlDiscoveryOnce s" and "discover ''persistence/migrations'' = Some ms" and "args \<noteq> []"
    and "ParseURL ops (DSN (cfDB c)) = Some settings" and "runOp (Connect ops settings) (collection s @ ms) args = Some (old, new)"
  shows "fst (migrateAction (Ok c) ops discover runOp args s) = Ok (if new \<noteq> old then Migrated old new else VersionIs old)"
  using assms by (simp add: migrateAction_def DiscoverSQLMigrations_def runMigrations_def)

lemma migrateAction_discovery_error:
  assumes "\<not> sqlDiscoveryOnce s" and "discover ''persistence/migrations'' = None" and "args \<noteq> []"
    and "ParseURL ops (DSN (cfDB c)) = Some settings"
  shows "fst (migrateAction (Ok c) ops discover runOp args s) = Err ErrDiscover"
  using assms by (simp add: migrateAction_def DiscoverSQLMigrations_def)

end
