(* ===== verification/Metrics.thy ===== *)
theory Metrics
  imports Prelude
begin

text \<open>
  The two gauges of the daemon: the number of disconnected nodes (\<open>interceptor.go\<close>) and the number of
  subscribers of accept events (\<open>cmd/lnmuxd/server.go\<close>). Goroutines change a gauge while they go
  through their phases, in any interleaving; a gauge is exact if every change of phase changes it by what the
  phase counts.
\<close>

section \<open>A gauge over goroutines\<close>

record 'p gauged =
  gauge :: int
  phases :: "'p list"

text \<open>A goroutine moves to another phase and adds a number to the gauge.\<close>

inductive gaugeStep :: "('p \<Rightarrow> int \<Rightarrow> 'p \<Rightarrow> bool) \<Rightarrow> 'p gauged \<Rightarrow> nat \<Rightarrow> 'p gauged \<Rightarrow> bool" for move where
  moves: "i < length (phases s) \<Longrightarrow> move (phases s ! i) d p \<Longrightarrow>
    gaugeStep move s i \<lparr>gauge = gauge s + d, phases = (phases s)[i := p]\<rparr>"

definition countOf :: "('p \<Rightarrow> bool) \<Rightarrow> 'p list \<Rightarrow> int" where
  "countOf counted ps = int (length (filter counted ps))"

lemma countOf_update:
  "i < length ps \<Longrightarrow> countOf counted (ps[i := p]) = countOf counted ps + of_bool (counted p) - of_bool (counted (ps ! i))"
proof (induction ps arbitrary: i)
  case (Cons q ps)
  then show ?case by (cases i) (auto simp: countOf_def)
qed simp

locale exact_gauge =
  fixes move :: "'p \<Rightarrow> int \<Rightarrow> 'p \<Rightarrow> bool" and counted :: "'p \<Rightarrow> bool"
  assumes move_exact: "move p d q \<Longrightarrow> d = of_bool (counted q) - of_bool (counted p)"
begin

lemma gauge_exact:
  assumes "reach init (gaugeStep move) s" and init: "\<And>s. init s \<Longrightarrow> gauge s = countOf counted (phases s)"
  shows "gauge s = countOf counted (phases s)"
  using assms(1)
proof (induction rule: reach.induct)
  case (reach_init s)
  then show ?case by (rule init)
next
  case (reach_step s i t)
  from reach_step(2) show ?case
    by cases (use reach_step(3) in \<open>auto simp: countOf_update dest: move_exact\<close>)
qed

end

section \<open>Disconnected nodes\<close>

text \<open>
  The interceptor of a node: before \<open>run\<close>, without a connection (in \<open>start\<close> before its loop, or waiting
  for the next attempt), in the loop of \<open>start\<close>, and after \<open>run\<close>. \<open>run\<close> increments the gauge once, \<open>start\<close>
  decrements it before its loop and increments it again when it returns.
\<close>

datatype nodePhase = NodeNotStarted | NodeDisconnected | NodeConnected | NodeExited

inductive nodeMove :: "nodePhase \<Rightarrow> int \<Rightarrow> nodePhase \<Rightarrow> bool" where
  run_begins: "nodeMove NodeNotStarted 1 NodeDisconnected"
| attempt_fails: "nodeMove NodeDisconnected 0 NodeDisconnected"
| connected: "nodeMove NodeDisconnected (- 1) NodeConnected"
| connection_lost: "nodeMove NodeConnected 1 NodeDisconnected"
| run_returns: "nodeMove NodeDisconnected 0 NodeExited"
| loop_cancelled: "nodeMove NodeConnected 1 NodeExited"

definition disconnected :: "nodePhase \<Rightarrow> bool" where
  "disconnected p = (p = NodeDisconnected \<or> p = NodeExited)"

interpretation nodes: exact_gauge nodeMove disconnected
  by unfold_locales (auto simp: disconnected_def elim: nodeMove.cases)

text \<open>
  The gauge is the number of nodes whose interceptor was started and is not connected. In particular it
  never falsely says that all nodes are connected, also while the process shuts down.
\<close>

lemma disconnected_gauge_exact:
  assumes "reach (\<lambda>s. gauge s = 0 \<and> phases s = replicate n NodeNotStarted) (gaugeStep nodeMove) s"
  shows "gauge s = int (length (filter disconnected (phases s)))"
    and "gauge s = 0 \<Longrightarrow> p \<in> set (phases s) \<Longrightarrow> p \<noteq> NodeNotStarted \<Longrightarrow> p = NodeConnected"
proof -
  show exact: "gauge s = int (length (filter disconnected (phases s)))"
    using nodes.gauge_exact [OF assms] by (simp add: countOf_def disconnected_def)
  show "p = NodeConnected" if "gauge s = 0" "p \<in> set (phases s)" "p \<noteq> NodeNotStarted"
    using that exact by (cases p) (auto simp: filter_empty_conv disconnected_def)
qed

section \<open>Subscribers\<close>

text \<open>
  A call of \<open>SubscribeInvoiceAccepted\<close> increments the gauge at its start, and decrements it when it returns,
  with or without an error.
\<close>

datatype subscriberPhase = SubscriberNew | SubscriberActive | SubscriberReturned

inductive subscriberMove :: "subscriberPhase \<Rightarrow> int \<Rightarrow> subscriberPhase \<Rightarrow> bool" where
  subscribes: "subscriberMove SubscriberNew 1 SubscriberActive"
| returns: "subscriberMove SubscriberActive (- 1) SubscriberReturned"

interpretation subscribers: exact_gauge subscriberMove "\<lambda>p. p = SubscriberActive"
  by unfold_locales (auto elim: subscriberMove.cases)

lemma subscriber_gauge_exact:
  assumes "reach (\<lambda>s. gauge s = 0 \<and> phases s = replicate n SubscriberNew) (gaugeStep subscriberMove) s"
  shows "gauge s = int (length (filter (\<lambda>p. p = SubscriberActive) (phases s)))"
  using subscribers.gauge_exact [OF assms] by (simp add: countOf_def)

end
