(* ===== verification/Spec2Isabelle.thy ===== *)
theory Spec2Isabelle
  imports Ledger Timer_Drain Accept_Events Registry_Api Paid_Invoice Reply_Race Schema Command_Line Metrics
begin

text \<open>
  A verification development for lnmux, the invoice multiplexer for lnd nodes.

  \<^bold>\<open>The program.\<close> lnmux creates lightning invoices that several lnd nodes can receive. Every invoice has one hop
  hint per node, over a virtual channel that does not exist. Each node hands the HTLCs it would forward
  over that channel to lnmux. A \<^emph>\<open>multiplexer\<close> per node (\<open>mux.go\<close>) receives them from an \<^emph>\<open>interceptor\<close>
  (\<open>interceptor.go\<close>), checks fee and expiry, decodes the onion, and notifies the \<^emph>\<open>registry\<close>
  (\<open>invoiceregistry.go\<close>). The registry is one event loop. It knows no invoices: amount, expiry and preimage
  are derived from the payment address (\<open>stateless_data.go\<close>). It holds the HTLCs of a payment hash in a
  set (\<open>htlc_set.go\<close>, \<open>htlc_sets.go\<close>) until the set is complete, tells subscribers
  (\<open>subscription_manager.go\<close>), and on a settle request, or at once in auto-settle mode, stores the invoice
  with its HTLCs (\<open>persistence/pg.go\<close>) and then settles every HTLC; timers (\<open>release_event.go\<close>) fail HTLCs that
  wait too long. A \<^emph>\<open>settled handler\<close> per node (\<open>node_settled_handler.go\<close>) records the final outcome of HTLCs in
  the database and wakes callers that wait for an invoice (\<open>settled_handler.go\<close>). The rpc server
  (\<open>cmd/lnmuxd/server.go\<close>) exposes all of this, and the daemon (\<open>cmd/lnmuxd\<close>, \<open>lnd/client.go\<close>,
  \<open>lnd/connection.go\<close>, \<open>dlock\<close>) assembles the parts, connects them to the nodes and the database, and runs them
  under a lease in two groups of goroutines.

  \<^bold>\<open>The theories.\<close> Definitions keep the names of the source where possible.

  \<^item> \<open>Prelude\<close>: results of Go functions (\<open>Ok\<close>, \<open>Err\<close>, \<open>Panic\<close>), Go maps as association lists with the laws of
    a locale, big-endian integers, reachable states, runs, and locales for invariants and growing relations.
  \<^item> \<open>Lnmux_Types\<close>: \<open>types/types.go\<close>, \<open>common/pubkey.go\<close>, \<open>resolution.go\<close>, \<open>resolution_result.go\<close>.
  \<^item> \<open>Set_ID\<close>: \<open>set_id.go\<close>; equal identifiers mean equal sets of keys, if the hash does not collide.
  \<^item> \<open>Stateless_Data\<close>, \<open>Sha256\<close>: \<open>stateless_data.go\<close>. The cryptographic functions are parameters with a
    contract (a locale), which the SHA-256 and HMAC of \<open>Sha256\<close> satisfy; examples compute with them.
  \<^item> \<open>Htlc_Sets\<close>, \<open>Release_Queue\<close>, \<open>Subscription_Manager\<close>: the data structures of the registry. lnd's priority queue
    is a parameter with a contract (a locale), which a binary heap satisfies.
  \<^item> \<open>Persistence\<close>: the tables with their constraints, and every query and transaction of \<open>pg.go\<close>; any statement
    may fail, and a failed transaction is rolled back. \<open>Invoice_Lifecycle\<close> and \<open>Final_Status\<close>: the invariant of
    the tables, the life of a stored invoice, the storing and reading back, the final outcome. \<open>Schema\<close>: the
    types of the columns, which every operation keeps, and the migration to a status (\<open>persistence/migrations\<close>).
  \<^item> \<open>Registry\<close>: the state and all operations of the registry; one iteration of the event loop is
    \<open>invoiceEventLoop_step\<close>. The callbacks it makes are logged in order. \<open>Registry_Facts\<close>, \<open>Process_Facts\<close>: the
    branches of every operation. \<open>Registry_Invariant\<close>, \<open>Registry_Steps\<close>: the invariant of memory and database.
  \<^item> \<open>Settlement\<close>: the step system of registry, database and final events, in which the process may die at any
    callback and restart; the safety theorems. \<open>Ledger\<close>: an abstract specification, and the proof that the
    step system refines it. \<open>Hold_Timers\<close>: exact payment, and timers for all held HTLCs. \<open>Timer_Drain\<close>: timers run
    out and leave nothing held. \<open>Accept_Events\<close>: subscribers learn of every complete set.
    \<open>Registry_Requests\<close>: what requests and timers do, and when the loop panics.
    \<open>Settlement_Example\<close>, \<open>Registry_Example\<close>: concrete runs at which the theorems are applied.
  \<^item> \<open>Registry_Api\<close>: the calls of other goroutines into the registry, and the end of its loop.
  \<^item> \<open>Bounded_Channel\<close>: the contract of a bounded channel that is closed when it overflows (a locale), used for
    the reply channel of \<open>Interceptor\<close> (\<open>interceptor.go\<close>) and the accept events of \<open>Server\<close>.
  \<^item> \<open>Invoice_Creator\<close>: \<open>invoice_creator.go\<close>, \<open>keyring.go\<close>. \<open>Mux\<close>: \<open>mux.go\<close>, with the onion processor
    as a parameter, and the replay log that it is given (\<open>replay_log.go\<close>).
  \<^item> \<open>Payment_System\<close>: the whole path of an HTLC, from the stream of its node through the multiplexer to the registry
    and back, as one step system with reconnecting nodes and a process that may die; it projects to the steps of
    \<open>Settlement\<close>. \<open>Payment_Order\<close>: the order of the messages that a node gets over all its streams.
    \<open>Payment_Example\<close>: payments through it. \<open>Multi_Part\<close>: a payment in any number of parts over any of the nodes,
    by induction over its parts. \<open>Paid_Invoice\<close>: the same from the start of the daemon and the rpc call that adds
    the invoice to the preimage on the streams of the nodes. \<open>Reply_Race\<close>: the reply callback of the interceptor in the
    steps that other goroutines can see.
  \<^item> \<open>Settled_Handlers\<close>: both settled handlers, with the interleaving of waiting callers and final events.
  \<^item> \<open>Server\<close>, \<open>Server_Facts\<close>: the rpc service. \<open>Lnd_Client\<close>: the validation of nodes. \<open>Connection\<close>:
    credentials and dialing (\<open>lnd/connection.go\<close>), the deadlines of calls and streams, the goroutine that copies blocks.
  \<^item> \<open>Daemon\<close>: configuration, clients and the lease. \<open>Startup\<close>: the assembly of the parts, with the
    interceptors of the rpc server. \<open>Service_Group\<close>: the groups
    of goroutines of \<open>run.go\<close>, and when they can end. \<open>Command_Line\<close>: the commands, logging, the connection to the
    database and the discovery of migrations. \<open>Metrics\<close>: the gauges of disconnected nodes and of subscribers, which
    are exact under every interleaving (a locale, interpreted for both).

  \<^bold>\<open>What is shown.\<close> A node receives only preimages that the database backs, and receives them again if it offers a
  recorded HTLC again. A preimage is released only after the settle request is stored, and an HTLC that was told to
  settle is never told to fail, over all failures and restarts; an invoice is paid exactly; the registry
  refines a ledger in which a hash is paid once and by all held HTLCs; memory, subscriptions, timers and
  database agree in every reachable state; when the timers have run out nothing is held; no wake-up of a waiting
  caller is lost; an invoice that the server adds is accepted by the registry, and a payment that follows
  its hop hint passes the multiplexer; a started daemon in auto-settle mode that adds an invoice and is offered
  parts that add up to it sends each node exactly one settle with the preimage for each of its parts; final
  events for all HTLCs of an invoice make it final once; replies keep their order; the daemon intercepts only on validated nodes;
  calls to nodes have deadlines; stored rows keep their types; the daemon can exit exactly if no multiplexer is
  stuck. Where the code does not do what it means to, a theorem shows it: stale timers can panic
  the loop, an error of the loop leaves callers waiting, a malformed payload stops a multiplexer, a repeated
  final event ends a stream, listed invoices swap hash and preimage, a long expiry wraps around, a signal
  can release the lease early, two replies at the same time can panic on a full channel, a multiplexer can be stuck
  for ever when the service shuts down, the goroutine that copies blocks is left behind.

  \<^bold>\<open>Numbers, time and loops.\<close> Amounts, heights and identifiers are words of the width of the source, so sums wrap
  around; times and durations are integers of nanoseconds. Loops over data are recursive functions; the
  endless loops are step functions, and properties quantify over all runs, so there is no fuel. Goroutines are
  interleaved step by step where they share state (\<open>Registry_Api\<close>, \<open>Settled_Handlers\<close>, \<open>Reply_Race\<close>, \<open>Service_Group\<close>, \<open>Daemon\<close>); in
  \<open>Payment_System\<close> an iteration of the registry and of a multiplexer is one step.

  \<^bold>\<open>Assumptions on other code\<close> are hypotheses or locale assumptions: hash functions have fixed output length
  and, where named, do not collide; the node replays an HTLC with the same hash; amounts are below \<open>2 ^ 63\<close> msat
  (in \<open>Hold_Timers\<close>); keys parse to what they were serialised from (in \<open>Startup\<close>).

  \<^bold>\<open>Not modelled.\<close> Generated code (\<open>lnmuxrpc\<close>, whose validators no code calls, and the mock client), the parsing of flags,
  the texts of errors, log lines, counters of calls, what the interceptors of the rpc server and the handlers of the
  instrumentation server do, and the test helpers: they are input and output, or libraries the sources only call. grpc,
  TLS, macaroons, zap, yaml, go-pg, client-go, errgroup and the onion processor of lnd are parameters, or appear by
  their documented behaviour.
\<close>

end
